(* ===== verification/Hg_Prelude.thy ===== *)
theory Hg_Prelude
  imports Main "HOL-Library.Word" "HOL-Library.Monad_Syntax"
begin

text \<open>
  Shared vocabulary of the development: the C integer types of an LP64 Valgrind build as
  words, the assertion of the tool (\<^verbatim>\<open>tl_assert\<close>), and the generic lemmas the component
  theories use.

  A failed \<^verbatim>\<open>tl_assert\<close> (or the dereference of a null pointer) terminates the tool.  Every
  operation that can do so has an option-valued model: \<^term>\<open>None\<close> is that termination,
  \<^term>\<open>Some r\<close> is a normal return.
\<close>

unbundle bit_operations_syntax

type_synonym UWord = "64 word"
type_synonym Addr = "64 word"
type_synonym ULong = "64 word"
type_synonym UInt = "32 word"
type_synonym UShort = "16 word"
type_synonym UChar = "8 word"

definition tl_assert :: "bool \<Rightarrow> unit option" where
  "tl_assert b = (if b then Some () else None)"

lemma tl_assert_bind [simp]: "tl_assert b \<bind> f = (if b then f () else None)"
  by (simp add: tl_assert_def)

lemma tl_assert_True [simp]: "tl_assert True = Some ()"
  by (simp add: tl_assert_def)

lemma tl_assert_eq_Some [simp]: "tl_assert b = Some u \<longleftrightarrow> b"
  by (simp add: tl_assert_def)

text \<open>The range check of \<^verbatim>\<open>VG_(indexXA)\<close> and of guarded array reads.\<close>

definition index_opt :: "'a list \<Rightarrow> nat \<Rightarrow> 'a option" where
  "index_opt xs i = (if i < length xs then Some (xs ! i) else None)"

lemma index_opt_Some [simp]: "index_opt xs i = Some x \<longleftrightarrow> i < length xs \<and> xs ! i = x"
  by (auto simp: index_opt_def)

lemma index_opt_in [simp]: "i < length xs \<Longrightarrow> index_opt xs i = Some (xs ! i)"
  by simp

text \<open>Increments that do not wrap around.\<close>

lemma unat_max_ULong [simp]: "unat (- 1 :: ULong) = 2 ^ 64 - 1"
  by (simp add: unsigned_minus_1_eq_mask mask_eq_exp_minus_1)

lemma uint_max_ULong: "uint (- 1 :: ULong) = 2 ^ 64 - 1"
  by (simp add: unsigned_minus_1_eq_mask mask_eq_exp_minus_1)

lemma max_ULong_less: "x \<noteq> - 1 \<Longrightarrow> x < (0xFFFFFFFFFFFFFFFF :: ULong)"
proof -
  assume "x \<noteq> - 1"
  then have "unat x \<noteq> 2 ^ 64 - 1" using unat_max_ULong word_unat_eq_iff [of x "- 1"] by metis
  moreover have "unat x < 2 ^ 64" using unsigned_less [of x] by simp
  ultimately show ?thesis by (simp add: word_less_nat_alt)
qed

lemma unat_incr: "x \<noteq> - 1 \<Longrightarrow> unat (x + (1 :: ULong)) = unat x + 1"
  by (metis Suc_eq_plus1 add.commute eq_neg_iff_add_eq_0 unatSuc)

lemma incr_no_wrap: "x \<noteq> - 1 \<Longrightarrow> x + 1 \<noteq> 0 \<and> x < x + (1 :: ULong)"
  by (metis add_is_0 less_add_one one_neq_zero unat_0 unat_incr word_less_nat_alt)

text \<open>Searching in concatenations.\<close>

lemma find_append:
  "List.find P (xs @ ys) = (case List.find P xs of None \<Rightarrow> List.find P ys | Some x \<Rightarrow> Some x)"
  by (induction xs) auto

lemma find_None_all: "\<forall>x\<in>set xs. \<not> P x \<Longrightarrow> List.find P xs = None"
  by (simp add: find_None_iff)

end
