(* ===== verification/WordFM.thy ===== *)
theory WordFM
  imports Hg_Prelude
begin

text \<open>
  The finite map of \<^verbatim>\<open>coregrind/m_wordfm.c\<close>: an AVL tree whose nodes carry a balance factor.
  Keys and values of the C code are machine words that are either plain numbers or pointers
  to boxed data; the model is polymorphic in both, and the comparison \<^verbatim>\<open>kCmp\<close> is an argument.
  A null \<^verbatim>\<open>kCmp\<close> of the C code is the argument \<open>cmp_unsigned_Words\<close>.

  A tree is owned by exactly one \<^verbatim>\<open>WordFM\<close> and has no sharing, so a pointer to a node is
  modelled by the subtree it points to, and an operation on \<^verbatim>\<open>AvlNode** rootp\<close> returns the new
  subtree.  A null dereference and a failed \<^verbatim>\<open>tl_assert\<close> are \<^term>\<open>None\<close>.
\<close>

section \<open>Nodes and rotations\<close>

datatype ('k, 'v) AvlNode =
    NULL
  | Node (node_key: 'k) (node_val: 'v) "('k, 'v) AvlNode" "('k, 'v) AvlNode" (balance: int)

fun avl_swl :: "('k, 'v) AvlNode \<Rightarrow> ('k, 'v) AvlNode option" where
  "avl_swl (Node ak av al (Node bk bv bl br bb) ab) = Some (Node bk bv (Node ak av al bl ab) br bb)"
| "avl_swl _ = None"

fun avl_swr :: "('k, 'v) AvlNode \<Rightarrow> ('k, 'v) AvlNode option" where
  "avl_swr (Node ak av (Node bk bv bl br bb) ar ab) = Some (Node bk bv bl (Node ak av br ar ab) bb)"
| "avl_swr _ = None"

fun avl_nasty :: "('k, 'v) AvlNode \<Rightarrow> ('k, 'v) AvlNode option" where
  "avl_nasty (Node k v (Node lk lv ll lr lb) (Node rk rv rl rr rb) b) =
     (if b = -1 then Some (Node k v (Node lk lv ll lr 0) (Node rk rv rl rr 1) 0)
      else if b = 1 then Some (Node k v (Node lk lv ll lr (-1)) (Node rk rv rl rr 0) 0)
      else if b = 0 then Some (Node k v (Node lk lv ll lr 0) (Node rk rv rl rr 0) 0)
      else None)"
| "avl_nasty _ = None"

text \<open>Field accesses of the C code that dereference a pointer.\<close>

fun get_balance :: "('k, 'v) AvlNode \<Rightarrow> int option" where
  "get_balance NULL = None"
| "get_balance (Node k v l r b) = Some b"

fun set_balances_left :: "int \<Rightarrow> int \<Rightarrow> ('k, 'v) AvlNode \<Rightarrow> ('k, 'v) AvlNode option" where
  \<comment> \<open>\<^verbatim>\<open>root->balance = b; root->child[0]->balance = c\<close>\<close>
  "set_balances_left b c (Node k v (Node lk lv ll lr _) r _) = Some (Node k v (Node lk lv ll lr c) r b)"
| "set_balances_left _ _ _ = None"

fun set_balances_right :: "int \<Rightarrow> int \<Rightarrow> ('k, 'v) AvlNode \<Rightarrow> ('k, 'v) AvlNode option" where
  \<comment> \<open>\<^verbatim>\<open>root->balance = b; root->child[1]->balance = c\<close>\<close>
  "set_balances_right b c (Node k v l (Node rk rv rl rr _) _) = Some (Node k v l (Node rk rv rl rr c) b)"
| "set_balances_right _ _ _ = None"

text \<open>
  The two double rotations, each written out three times in the C code:
  \<^verbatim>\<open>avl_swl(&root->child[0]); avl_swr(root); avl_nasty(*root)\<close> and its mirror image.
\<close>

fun avl_swlr_nasty :: "('k, 'v) AvlNode \<Rightarrow> ('k, 'v) AvlNode option" where
  "avl_swlr_nasty (Node k v l r b) =
     do { l' \<leftarrow> avl_swl l; t \<leftarrow> avl_swr (Node k v l' r b); avl_nasty t }"
| "avl_swlr_nasty NULL = None"

fun avl_swrl_nasty :: "('k, 'v) AvlNode \<Rightarrow> ('k, 'v) AvlNode option" where
  "avl_swrl_nasty (Node k v l r b) =
     do { r' \<leftarrow> avl_swr r; t \<leftarrow> avl_swl (Node k v l r' b); avl_nasty t }"
| "avl_swrl_nasty NULL = None"

fun size_avl_nonNull :: "('k, 'v) AvlNode \<Rightarrow> UWord" where
  "size_avl_nonNull NULL = 0"
| "size_avl_nonNull (Node k v l r b) = 1 + size_avl_nonNull l + size_avl_nonNull r"

definition cmp_unsigned_Words :: "UWord \<Rightarrow> UWord \<Rightarrow> int" where
  "cmp_unsigned_Words w1 w2 = (if w1 < w2 then -1 else if w1 > w2 then 1 else 0)"

section \<open>Insertion\<close>

text \<open>Rebalancing after the left (right) subtree of a node has become deeper.\<close>

definition after_left_grown ::
  "'k \<Rightarrow> 'v \<Rightarrow> ('k, 'v) AvlNode \<Rightarrow> ('k, 'v) AvlNode \<Rightarrow> int \<Rightarrow> (('k, 'v) AvlNode \<times> bool) option" where
  "after_left_grown k v l r b =
     (if b = 1 then Some (Node k v l r 0, False)
      else if b = 0 then Some (Node k v l r (-1), True)
      else if b = -1 then
        do {
          lb \<leftarrow> get_balance l;
          t \<leftarrow> (if lb < 0
               then avl_swr (Node k v l r (-2)) \<bind> set_balances_right 0 0
               else avl_swlr_nasty (Node k v l r (-2)));
          Some (t, False)
        }
      else None)"

definition after_right_grown ::
  "'k \<Rightarrow> 'v \<Rightarrow> ('k, 'v) AvlNode \<Rightarrow> ('k, 'v) AvlNode \<Rightarrow> int \<Rightarrow> (('k, 'v) AvlNode \<times> bool) option" where
  "after_right_grown k v l r b =
     (if b = -1 then Some (Node k v l r 0, False)
      else if b = 0 then Some (Node k v l r 1, True)
      else if b = 1 then
        do {
          rb \<leftarrow> get_balance r;
          t \<leftarrow> (if rb > 0
               then avl_swl (Node k v l r 2) \<bind> set_balances_left 0 0
               else avl_swrl_nasty (Node k v l r 2));
          Some (t, False)
        }
      else None)"

text \<open>
  \<^verbatim>\<open>avl_insert_wrk\<close> returns the new tree, whether its depth has grown, and the old value of an
  existing key.  When the recursive call reports growth, the C code does not store
  \<^verbatim>\<open>left_subtree\<close> back: growth never changes the root pointer of a non-empty subtree, whose
  nodes are updated in place, so the new subtree is the child in both branches.
\<close>

fun avl_insert_wrk ::
  "('k \<Rightarrow> 'k \<Rightarrow> int) \<Rightarrow> ('k, 'v) AvlNode \<Rightarrow> 'k \<Rightarrow> 'v \<Rightarrow>
   (('k, 'v) AvlNode \<times> bool \<times> 'v option) option" where
  "avl_insert_wrk kCmp NULL k v = Some (Node k v NULL NULL 0, True, None)"
| "avl_insert_wrk kCmp (Node rk rv l r b) k v =
     (let cmpres = kCmp rk k in
      if cmpres > 0 then
        (if l \<noteq> NULL then
           do {
             (l', grown, oldV) \<leftarrow> avl_insert_wrk kCmp l k v;
             if grown then do { (t, g) \<leftarrow> after_left_grown rk rv l' r b; Some (t, g, oldV) }
             else Some (Node rk rv l' r b, False, oldV)
           }
         else Some (Node rk rv (Node k v NULL NULL 0) r (b - 1), b = 0, None))
      else if cmpres < 0 then
        (if r \<noteq> NULL then
           do {
             (r', grown, oldV) \<leftarrow> avl_insert_wrk kCmp r k v;
             if grown then do { (t, g) \<leftarrow> after_right_grown rk rv l r' b; Some (t, g, oldV) }
             else Some (Node rk rv l r' b, False, oldV)
           }
         else Some (Node rk rv l (Node k v NULL NULL 0) (b + 1), b = 0, None))
      else Some (Node rk v l r b, False, Some rv))"

section \<open>Removal\<close>

fun rightmost :: "('k, 'v) AvlNode \<Rightarrow> ('k \<times> 'v) option" where
  \<comment> \<open>\<^verbatim>\<open>while (a->child[1]) a = a->child[1];\<close>\<close>
  "rightmost NULL = None"
| "rightmost (Node k v l r b) = (if r = NULL then Some (k, v) else rightmost r)"

fun leftmost :: "('k, 'v) AvlNode \<Rightarrow> ('k \<times> 'v) option" where
  \<comment> \<open>\<^verbatim>\<open>while (a->child[0]) a = a->child[0];\<close>\<close>
  "leftmost NULL = None"
| "leftmost (Node k v l r b) = (if l = NULL then Some (k, v) else leftmost l)"

text \<open>Rebalancing after the left (right) subtree of a node has become shallower.\<close>

definition after_left_shrunk ::
  "'k \<Rightarrow> 'v \<Rightarrow> ('k, 'v) AvlNode \<Rightarrow> ('k, 'v) AvlNode \<Rightarrow> int \<Rightarrow> (('k, 'v) AvlNode \<times> bool) option" where
  "after_left_shrunk k v l r b =
     (if b = -1 then Some (Node k v l r 0, True)
      else if b = 0 then Some (Node k v l r 1, False)
      else if b = 1 then
        do {
          rb \<leftarrow> get_balance r;
          if rb = 0 then
            do { t \<leftarrow> avl_swl (Node k v l r 2); t' \<leftarrow> set_balances_left (-1) 1 t; Some (t', False) }
          else if rb = 1 then
            do { t \<leftarrow> avl_swl (Node k v l r 2); t' \<leftarrow> set_balances_left 0 0 t; Some (t', True) }
          else if rb = -1 then
            do { t \<leftarrow> avl_swrl_nasty (Node k v l r 2); Some (t, True) }
          else None
        }
      else None)"

definition after_right_shrunk ::
  "'k \<Rightarrow> 'v \<Rightarrow> ('k, 'v) AvlNode \<Rightarrow> ('k, 'v) AvlNode \<Rightarrow> int \<Rightarrow> (('k, 'v) AvlNode \<times> bool) option" where
  "after_right_shrunk k v l r b =
     (if b = 1 then Some (Node k v l r 0, True)
      else if b = 0 then Some (Node k v l r (-1), False)
      else if b = -1 then
        do {
          lb \<leftarrow> get_balance l;
          if lb = 0 then
            do { t \<leftarrow> avl_swr (Node k v l r (-2)); t' \<leftarrow> set_balances_right 1 (-1) t; Some (t', False) }
          else if lb = -1 then
            do { t \<leftarrow> avl_swr (Node k v l r (-2)); t' \<leftarrow> set_balances_right 0 0 t; Some (t', True) }
          else if lb = 1 then
            do { t \<leftarrow> avl_swlr_nasty (Node k v l r (-2)); Some (t, True) }
          else None
        }
      else None)"

text \<open>
  \<^verbatim>\<open>avl_remove_wrk\<close> gets a pointer \<^verbatim>\<open>a\<close> to the node to remove; the model identifies the node by
  its key, so the assertion \<^verbatim>\<open>(*rootp)==a\<close> compares keys.  In \<^verbatim>\<open>avl_removeroot_wrk\<close> the node
  \<^verbatim>\<open>a\<close> is a proper descendant of the root: were its key equal to the root's, that pointer
  assertion would fail, which is the \<open>None\<close> of the model.
\<close>

function avl_remove_wrk ::
    "('k \<Rightarrow> 'k \<Rightarrow> int) \<Rightarrow> ('k, 'v) AvlNode \<Rightarrow> 'k \<Rightarrow> (('k, 'v) AvlNode \<times> bool) option"
  and avl_removeroot_wrk ::
    "('k \<Rightarrow> 'k \<Rightarrow> int) \<Rightarrow> ('k, 'v) AvlNode \<Rightarrow> (('k, 'v) AvlNode \<times> bool) option" where
  "avl_remove_wrk kCmp NULL a = None"
| "avl_remove_wrk kCmp (Node rk rv l r b) a =
     (let cmpres = kCmp rk a in
      if cmpres > 0 then
        do {
          tl_assert (l \<noteq> NULL);
          (l', ch) \<leftarrow> avl_remove_wrk kCmp l a;
          if ch then after_left_shrunk rk rv l' r b
          else Some (Node rk rv l' r b, False)
        }
      else if cmpres < 0 then
        do {
          tl_assert (r \<noteq> NULL);
          (r', ch) \<leftarrow> avl_remove_wrk kCmp r a;
          if ch then after_right_shrunk rk rv l r' b
          else Some (Node rk rv l r' b, False)
        }
      else if rk = a then avl_removeroot_wrk kCmp (Node rk rv l r b)
      else None)"
| "avl_removeroot_wrk kCmp NULL = None"
| "avl_removeroot_wrk kCmp (Node rk rv l r b) =
     (if l = NULL then Some (r, True)
      else if r = NULL then Some (l, True)
      else
        do {
          (ak, av) \<leftarrow> (if b < 0 then rightmost l else leftmost r);
          if ak = rk then None
          else
            do {
              (t, ch) \<leftarrow> avl_remove_wrk kCmp (Node rk rv l r b) ak;
              (case t of
                 NULL \<Rightarrow> None
               | Node _ _ l' r' b' \<Rightarrow> Some (Node ak av l' r' b', if b' = 0 then ch else False))
            }
        })"
  by pat_completeness auto
termination
  by (relation "measures
       [case_sum (\<lambda>(kCmp, t, a). size t) (\<lambda>(kCmp, t). size t),
        case_sum (\<lambda>(kCmp, t, a). case t of NULL \<Rightarrow> 0 | Node k v l r b \<Rightarrow> if k = a then 2 else 0)
                 (\<lambda>(kCmp, t). 1)]") auto

section \<open>Search\<close>

fun avl_find_node :: "('k \<Rightarrow> 'k \<Rightarrow> int) \<Rightarrow> ('k, 'v) AvlNode \<Rightarrow> 'k \<Rightarrow> ('k \<times> 'v) option" where
  "avl_find_node kCmp NULL k = None"
| "avl_find_node kCmp (Node rk rv l r b) k =
     (let cmpresS = kCmp rk k in
      if cmpresS > 0 then avl_find_node kCmp l k
      else if cmpresS < 0 then avl_find_node kCmp r k
      else Some (rk, rv))"

text \<open>
  The unboxed loop of \<^verbatim>\<open>avl_find_node\<close> uses the sign bit of the comparison result as the index
  of the child to visit.
\<close>

fun avl_find_node_unboxed :: "(UWord, 'v) AvlNode \<Rightarrow> UWord \<Rightarrow> (UWord \<times> 'v) option" where
  "avl_find_node_unboxed NULL k = None"
| "avl_find_node_unboxed (Node rk rv l r b) k =
     (let cmpresS = cmp_unsigned_Words rk k in
      if cmpresS = 0 then Some (rk, rv)
      else let cmpresU = drop_bit 63 (word_of_int cmpresS :: UWord) in
        (if cmpresU = 0 then avl_find_node_unboxed l k
         else if cmpresU = 1 then avl_find_node_unboxed r k
         else None))"

fun avl_find_bounds ::
  "('k \<Rightarrow> 'k \<Rightarrow> int) \<Rightarrow> ('k, 'v) AvlNode \<Rightarrow> 'k \<times> 'v \<Rightarrow> 'k \<times> 'v \<Rightarrow> 'k \<Rightarrow>
   (('k \<times> 'v) \<times> ('k \<times> 'v)) option" where
  \<comment> \<open>\<^term>\<open>None\<close> is the result \<^verbatim>\<open>False\<close>: the key is present\<close>
  "avl_find_bounds kCmp NULL lower upper key = Some (lower, upper)"
| "avl_find_bounds kCmp (Node rk rv l r b) lower upper key =
     (let cmpresS = kCmp rk key in
      if cmpresS < 0 then avl_find_bounds kCmp r (rk, rv) upper key
      else if cmpresS > 0 then avl_find_bounds kCmp l lower (rk, rv) key
      else None)"

section \<open>The public map operations\<close>

text \<open>
  The iterator stack (\<^verbatim>\<open>nodeStack\<close>, \<^verbatim>\<open>numStack\<close>, \<^verbatim>\<open>stackTop\<close>) is a list of pairs, its top first.
\<close>

type_synonym ('k, 'v) iter_stack = "(('k, 'v) AvlNode \<times> nat) list"

record ('k, 'v) WordFM =
  fm_root :: "('k, 'v) AvlNode"
  fm_kCmp :: "'k \<Rightarrow> 'k \<Rightarrow> int"
  fm_stack :: "('k, 'v) iter_stack"

definition newFM :: "('k \<Rightarrow> 'k \<Rightarrow> int) \<Rightarrow> ('k, 'v) WordFM" where
  "newFM kCmp = \<lparr>fm_root = NULL, fm_kCmp = kCmp, fm_stack = []\<rparr>"

definition addToFM :: "('k, 'v) WordFM \<Rightarrow> 'k \<Rightarrow> 'v \<Rightarrow> (bool \<times> ('k, 'v) WordFM) option" where
  "addToFM fm k v =
     do {
       (t, _, oldV) \<leftarrow> avl_insert_wrk (fm_kCmp fm) (fm_root fm) k v;
       Some (oldV \<noteq> None, fm\<lparr>fm_root := t\<rparr>)
     }"

definition delFromFM ::
  "('k, 'v) WordFM \<Rightarrow> 'k \<Rightarrow> (('k \<times> 'v) option \<times> ('k, 'v) WordFM) option" where
  "delFromFM fm key =
     (case avl_find_node (fm_kCmp fm) (fm_root fm) key of
        None \<Rightarrow> Some (None, fm)
      | Some (k, v) \<Rightarrow>
          do {
            (t, _) \<leftarrow> avl_remove_wrk (fm_kCmp fm) (fm_root fm) k;
            Some (Some (k, v), fm\<lparr>fm_root := t\<rparr>)
          })"

definition lookupFM :: "('k, 'v) WordFM \<Rightarrow> 'k \<Rightarrow> ('k \<times> 'v) option" where
  "lookupFM fm key = avl_find_node (fm_kCmp fm) (fm_root fm) key"

definition findBoundsFM ::
  "('k, 'v) WordFM \<Rightarrow> 'k \<times> 'v \<Rightarrow> 'k \<times> 'v \<Rightarrow> 'k \<Rightarrow> (('k \<times> 'v) \<times> ('k \<times> 'v)) option" where
  "findBoundsFM fm lower upper key = avl_find_bounds (fm_kCmp fm) (fm_root fm) lower upper key"

definition sizeFM :: "('k, 'v) WordFM \<Rightarrow> UWord" where
  "sizeFM fm = (if fm_root fm \<noteq> NULL then size_avl_nonNull (fm_root fm) else 0)"

section \<open>Iteration\<close>

definition WFM_STKMAX :: nat where
  "WFM_STKMAX = 32"

definition stackPush ::
  "('k, 'v) iter_stack \<Rightarrow> ('k, 'v) AvlNode \<Rightarrow> nat \<Rightarrow> ('k, 'v) iter_stack option" where
  "stackPush st n i =
     do {
       tl_assert (length st < WFM_STKMAX);
       tl_assert (1 \<le> i \<and> i \<le> 3);
       Some ((n, i) # st)
     }"

text \<open>The label \<^verbatim>\<open>case_1\<close> of \<^verbatim>\<open>VG_(nextIterFM)\<close>: push a node and all its left descendants.\<close>

fun iter_case_1 :: "('k, 'v) iter_stack \<Rightarrow> ('k, 'v) AvlNode \<Rightarrow> ('k, 'v) iter_stack option" where
  "iter_case_1 st NULL = None"
| "iter_case_1 st (Node k v l r b) =
     do {
       st' \<leftarrow> stackPush st (Node k v l r b) 2;
       if l \<noteq> NULL then iter_case_1 st' l else Some st'
     }"

fun nnodes :: "('k, 'v) AvlNode \<Rightarrow> nat" where
  "nnodes NULL = 0"
| "nnodes (Node k v l r b) = Suc (nnodes l + nnodes r)"

fun iter_weight :: "('k, 'v) iter_stack \<Rightarrow> nat" where
  "iter_weight [] = 0"
| "iter_weight ((NULL, i) # st) = 1 + iter_weight st"
| "iter_weight ((Node k v l r b, i) # st) =
     (if i = 1 then 3 * nnodes (Node k v l r b) else if i = 2 then 2 + 3 * nnodes r else 1 + 3 * nnodes r) +
     iter_weight st"

lemma iter_case_1_weight:
  "iter_case_1 st n = Some st' \<Longrightarrow> iter_weight st' < iter_weight st + 3 * nnodes n"
  by (induction st n arbitrary: st' rule: iter_case_1.induct)
    (fastforce simp: bind_eq_Some_conv stackPush_def split: if_splits)+

function (sequential) nextIter_loop ::
  "('k, 'v) iter_stack \<Rightarrow> (('k \<times> 'v) option \<times> ('k, 'v) iter_stack) option" where
  "nextIter_loop [] = Some (None, [])"
| "nextIter_loop ((NULL, i) # st) = None"
| "nextIter_loop ((Node k v l r b, i) # st) =
     (if length st < WFM_STKMAX then
        (if i = 1 then
           (case iter_case_1 st (Node k v l r b) of None \<Rightarrow> None | Some st' \<Rightarrow> nextIter_loop st')
         else if i = 2 then
           do { st' \<leftarrow> stackPush st (Node k v l r b) 3; Some (Some (k, v), st') }
         else if i = 3 then
           (if r \<noteq> NULL then
              (case iter_case_1 st r of None \<Rightarrow> None | Some st' \<Rightarrow> nextIter_loop st')
            else nextIter_loop st)
         else None)
      else None)"
  by pat_completeness auto
termination
  by (relation "measure iter_weight") (auto simp del: iter_case_1.simps dest!: iter_case_1_weight)

definition initIterFM :: "('k, 'v) WordFM \<Rightarrow> ('k, 'v) WordFM option" where
  "initIterFM fm =
     do {
       st \<leftarrow> (if fm_root fm \<noteq> NULL then stackPush [] (fm_root fm) 1 else Some []);
       Some (fm\<lparr>fm_stack := st\<rparr>)
     }"

text \<open>
  \<^verbatim>\<open>VG_(initIterAtFM)\<close>: the search loop always leaves through one of its \<^verbatim>\<open>return\<close>s, so the
  statements after it are unreachable.
\<close>

fun initIterAt_loop ::
  "('k \<Rightarrow> 'k \<Rightarrow> int) \<Rightarrow> ('k, 'v) iter_stack \<Rightarrow> ('k, 'v) AvlNode \<Rightarrow> 'k \<Rightarrow> ('k, 'v) iter_stack option" where
  "initIterAt_loop kCmp st NULL start_at = Some st"
| "initIterAt_loop kCmp st (Node k v l r b) start_at =
     (let cmpresS = kCmp k start_at in
      if cmpresS = 0 then stackPush st (Node k v l r b) 2
      else if cmpresS < 0 then initIterAt_loop kCmp st r start_at
      else do { st' \<leftarrow> stackPush st (Node k v l r b) 2; initIterAt_loop kCmp st' l start_at })"

definition initIterAtFM :: "('k, 'v) WordFM \<Rightarrow> 'k \<Rightarrow> ('k, 'v) WordFM option" where
  "initIterAtFM fm start_at =
     do {
       st \<leftarrow> initIterAt_loop (fm_kCmp fm) [] (fm_root fm) start_at;
       Some (fm\<lparr>fm_stack := st\<rparr>)
     }"

definition nextIterFM :: "('k, 'v) WordFM \<Rightarrow> (('k \<times> 'v) option \<times> ('k, 'v) WordFM) option" where
  "nextIterFM fm = do { (p, st) \<leftarrow> nextIter_loop (fm_stack fm); Some (p, fm\<lparr>fm_stack := st\<rparr>) }"

text \<open>
  The loop every client writes: \<^verbatim>\<open>while (VG_(nextIterFM)(fm, &k, &v)) ...\<close>, collecting the pairs
  it sees.  The first argument bounds the number of calls.
\<close>

fun iterate_FM :: "nat \<Rightarrow> ('k, 'v) WordFM \<Rightarrow> ('k \<times> 'v) list option" where
  "iterate_FM 0 fm = None"
| "iterate_FM (Suc n) fm =
     do {
       (p, fm') \<leftarrow> nextIterFM fm;
       (case p of None \<Rightarrow> Some [] | Some kv \<Rightarrow> do { kvs \<leftarrow> iterate_FM n fm'; Some (kv # kvs) })
     }"

section \<open>Contents, depth and the balance invariant\<close>

fun inorder :: "('k, 'v) AvlNode \<Rightarrow> ('k \<times> 'v) list" where
  "inorder NULL = []"
| "inorder (Node k v l r b) = inorder l @ (k, v) # inorder r"

fun height :: "('k, 'v) AvlNode \<Rightarrow> nat" where
  "height NULL = 0"
| "height (Node k v l r b) = Suc (max (height l) (height r))"

fun avl :: "('k, 'v) AvlNode \<Rightarrow> bool" where
  "avl NULL = True"
| "avl (Node k v l r b) =
     (avl l \<and> avl r \<and> b = int (height r) - int (height l) \<and> (b = -1 \<or> b = 0 \<or> b = 1))"

lemma height_0_iff [simp]: "height t = 0 \<longleftrightarrow> t = NULL"
  by (cases t) auto

lemma height_pos_iff: "0 < height t \<longleftrightarrow> t \<noteq> NULL"
  by (cases t) auto

lemma inorder_Nil_iff [simp]: "inorder t = [] \<longleftrightarrow> t = NULL"
  by (cases t) auto

subsection \<open>Rotations\<close>

lemma inorder_avl_swl: "avl_swl t = Some t' \<Longrightarrow> inorder t' = inorder t"
  by (cases t rule: avl_swl.cases) auto

lemma inorder_avl_swr: "avl_swr t = Some t' \<Longrightarrow> inorder t' = inorder t"
  by (cases t rule: avl_swr.cases) auto

lemma inorder_avl_nasty: "avl_nasty t = Some t' \<Longrightarrow> inorder t' = inorder t"
  by (cases t rule: avl_nasty.cases) (auto split: if_splits)

lemma inorder_set_balances_left: "set_balances_left b c t = Some t' \<Longrightarrow> inorder t' = inorder t"
  by (cases t rule: avl_swr.cases) auto

lemma inorder_set_balances_right: "set_balances_right b c t = Some t' \<Longrightarrow> inorder t' = inorder t"
  by (cases t rule: avl_swl.cases) auto

lemmas inorder_basic =
  inorder_avl_swl inorder_avl_swr inorder_avl_nasty
  inorder_set_balances_left inorder_set_balances_right

lemma inorder_avl_swlr_nasty: "avl_swlr_nasty t = Some t' \<Longrightarrow> inorder t' = inorder t"
  by (cases t) (auto simp: bind_eq_Some_conv dest!: inorder_basic)

lemma inorder_avl_swrl_nasty: "avl_swrl_nasty t = Some t' \<Longrightarrow> inorder t' = inorder t"
  by (cases t) (auto simp: bind_eq_Some_conv dest!: inorder_basic)

lemmas inorder_rotations = inorder_basic inorder_avl_swlr_nasty inorder_avl_swrl_nasty

lemma avl_rotate_right:
  assumes "avl l" "avl r" "height l = height r + 2" "balance l = -1"
  shows "\<exists>t. (avl_swr (Node k v l r b) \<bind> set_balances_right 0 0) = Some t \<and> avl t \<and>
             t \<noteq> NULL \<and> height t = height r + 2"
  using assms by (cases l) auto

lemma avl_rotate_left:
  assumes "avl l" "avl r" "height r = height l + 2" "balance r = 1"
  shows "\<exists>t. (avl_swl (Node k v l r b) \<bind> set_balances_left 0 0) = Some t \<and> avl t \<and>
             t \<noteq> NULL \<and> height t = height l + 2"
  using assms by (cases r) auto

lemma avl_rotate_left_right:
  assumes "avl l" "avl r" "height l = height r + 2" "balance l = 1"
  shows "\<exists>t. avl_swlr_nasty (Node k v l r b) = Some t \<and> avl t \<and>
             t \<noteq> NULL \<and> height t = height r + 2"
proof (cases l)
  case (Node lk lv ll lr lb)
  with assms have "lr \<noteq> NULL" by auto
  then obtain mk mv ml mr mb where "lr = Node mk mv ml mr mb" by (cases lr) auto
  with Node assms show ?thesis by auto
qed (use assms in auto)

lemma avl_rotate_right_left:
  assumes "avl l" "avl r" "height r = height l + 2" "balance r = -1"
  shows "\<exists>t. avl_swrl_nasty (Node k v l r b) = Some t \<and> avl t \<and>
             t \<noteq> NULL \<and> height t = height l + 2"
proof (cases r)
  case (Node rk rv rl rr rb)
  with assms have "rl \<noteq> NULL" by auto
  then obtain mk mv ml mr mb where "rl = Node mk mv ml mr mb" by (cases rl) auto
  with Node assms show ?thesis by auto
qed (use assms in auto)


lemma get_balance_eq: "t \<noteq> NULL \<Longrightarrow> get_balance t = Some (balance t)"
  by (cases t) auto

lemma avl_balance_cases: "avl t \<Longrightarrow> t \<noteq> NULL \<Longrightarrow> balance t = -1 \<or> balance t = 0 \<or> balance t = 1"
  by (cases t) auto

subsection \<open>Insertion keeps the balance invariant\<close>

lemma avl_after_left_grown:
  assumes "avl l" "avl r" "l \<noteq> NULL" "balance l \<noteq> 0 \<or> height l = 1"
    and "b = int (height r) - (int (height l) - 1)" "b = -1 \<or> b = 0 \<or> b = 1"
  shows "\<exists>t g. after_left_grown k v l r b = Some (t, g) \<and> avl t \<and> t \<noteq> NULL \<and>
           height t = max (height l - 1) (height r) + 1 + of_bool g \<and> (g \<longrightarrow> balance t \<noteq> 0)"
proof (cases "b = -1")
  case True
  with assms have h: "height l = height r + 2" by auto
  show ?thesis
  proof (cases "balance l < 0")
    case bal: True
    with avl_balance_cases [OF assms(1,3)] have "balance l = -1" by simp
    from avl_rotate_right [OF assms(1,2) h this, of k v "-2"] obtain t where
      "(avl_swr (Node k v l r (-2)) \<bind> set_balances_right 0 0) = Some t" "avl t" "t \<noteq> NULL"
      "height t = height r + 2" by blast
    with bal True h assms(3) show ?thesis
      by (intro exI [of _ t] exI [of _ False]) (simp add: after_left_grown_def get_balance_eq del: avl_swr.simps)
  next
    case bal: False
    with avl_balance_cases [OF assms(1,3)] assms(4) h have "balance l = 1" by simp
    from avl_rotate_left_right [OF assms(1,2) h this, of k v "-2"] obtain t where
      "avl_swlr_nasty (Node k v l r (-2)) = Some t" "avl t" "t \<noteq> NULL"
      "height t = height r + 2" by blast
    with bal True h assms(3) show ?thesis
      by (intro exI [of _ t] exI [of _ False]) (simp add: after_left_grown_def get_balance_eq del: avl_swlr_nasty.simps)
  qed
qed (use assms in \<open>auto simp: after_left_grown_def\<close>)

lemma avl_after_right_grown:
  assumes "avl l" "avl r" "r \<noteq> NULL" "balance r \<noteq> 0 \<or> height r = 1"
    and "b = (int (height r) - 1) - int (height l)" "b = -1 \<or> b = 0 \<or> b = 1"
  shows "\<exists>t g. after_right_grown k v l r b = Some (t, g) \<and> avl t \<and> t \<noteq> NULL \<and>
           height t = max (height l) (height r - 1) + 1 + of_bool g \<and> (g \<longrightarrow> balance t \<noteq> 0)"
proof (cases "b = 1")
  case True
  with assms have h: "height r = height l + 2" by auto
  show ?thesis
  proof (cases "balance r > 0")
    case bal: True
    with avl_balance_cases [OF assms(2,3)] have "balance r = 1" by simp
    from avl_rotate_left [OF assms(1,2) h this, of k v 2] obtain t where
      "(avl_swl (Node k v l r 2) \<bind> set_balances_left 0 0) = Some t" "avl t" "t \<noteq> NULL"
      "height t = height l + 2" by blast
    with bal True h assms(3) show ?thesis
      by (intro exI [of _ t] exI [of _ False]) (simp add: after_right_grown_def get_balance_eq del: avl_swl.simps)
  next
    case bal: False
    with avl_balance_cases [OF assms(2,3)] assms(4) h have "balance r = -1" by simp
    from avl_rotate_right_left [OF assms(1,2) h this, of k v 2] obtain t where
      "avl_swrl_nasty (Node k v l r 2) = Some t" "avl t" "t \<noteq> NULL"
      "height t = height l + 2" by blast
    with bal True h assms(3) show ?thesis
      by (intro exI [of _ t] exI [of _ False]) (simp add: after_right_grown_def get_balance_eq del: avl_swrl_nasty.simps)
  qed
qed (use assms in \<open>auto simp: after_right_grown_def\<close>)

lemma avl_insert_wrk_total:
  assumes "avl t"
  shows "\<exists>t' g oldV. avl_insert_wrk kCmp t k v = Some (t', g, oldV) \<and> avl t' \<and>
           height t' = height t + of_bool g \<and> t' \<noteq> NULL \<and> (g \<and> t \<noteq> NULL \<longrightarrow> balance t' \<noteq> 0)"
  using assms
proof (induction t)
  case NULL
  then show ?case by auto
next
  case (Node rk rv l r b)
  then have avl: "avl l" "avl r" and b: "b = int (height r) - int (height l)"
    and b3: "b = -1 \<or> b = 0 \<or> b = 1" by auto
  consider "kCmp rk k > 0" | "kCmp rk k < 0" | "kCmp rk k = 0" by linarith
  then show ?case
  proof cases
    case 1
    obtain l' g oldV where L: "avl_insert_wrk kCmp l k v = Some (l', g, oldV)" "avl l'" "l' \<noteq> NULL"
      "height l' = height l + of_bool g" "g \<and> l \<noteq> NULL \<longrightarrow> balance l' \<noteq> 0"
      using Node.IH(1) avl by blast
    show ?thesis
    proof (cases "l \<noteq> NULL \<and> g")
      case True
      then obtain t g' where "after_left_grown rk rv l' r b = Some (t, g')" "avl t" "t \<noteq> NULL"
        "height t = max (height l) (height r) + 1 + of_bool g'" "g' \<longrightarrow> balance t \<noteq> 0"
        using avl_after_left_grown [OF L(2) avl(2) L(3), of b rk rv] L b b3 by auto
      with True 1 L show ?thesis by auto
    qed (use 1 L avl b b3 in \<open>auto simp: Let_def\<close>)
  next
    case 2
    obtain r' g oldV where R: "avl_insert_wrk kCmp r k v = Some (r', g, oldV)" "avl r'" "r' \<noteq> NULL"
      "height r' = height r + of_bool g" "g \<and> r \<noteq> NULL \<longrightarrow> balance r' \<noteq> 0"
      using Node.IH(2) avl by blast
    show ?thesis
    proof (cases "r \<noteq> NULL \<and> g")
      case True
      then obtain t g' where "after_right_grown rk rv l r' b = Some (t, g')" "avl t" "t \<noteq> NULL"
        "height t = max (height l) (height r) + 1 + of_bool g'" "g' \<longrightarrow> balance t \<noteq> 0"
        using avl_after_right_grown [OF avl(1) R(2,3), of b rk rv] R b b3 by auto
      with True 2 R show ?thesis by auto
    qed (use 2 R avl b b3 in \<open>auto simp: Let_def\<close>)
  next
    case 3
    with avl b b3 show ?thesis by auto
  qed
qed


subsection \<open>Removal keeps the balance invariant\<close>

lemma avl_after_left_shrunk:
  assumes "avl l" "avl r"
    and "b = int (height r) - (int (height l) + 1)" "b = -1 \<or> b = 0 \<or> b = 1"
  shows "\<exists>t s. after_left_shrunk k v l r b = Some (t, s) \<and> avl t \<and> t \<noteq> NULL \<and>
           max (height l + 1) (height r) + 1 = height t + of_bool s"
proof (cases "b = 1")
  case True
  with assms have h: "height r = height l + 2" by auto
  then obtain rk rv rl rr rb where r: "r = Node rk rv rl rr rb" by (cases r) auto
  consider "rb = 0" | "rb = 1" | "rb = -1" using assms(2) r by auto
  then show ?thesis
  proof cases
    case 3
    with r have "balance r = -1" by simp
    from avl_rotate_right_left [OF assms(1,2) h this, of k v 2] obtain t where
      "avl_swrl_nasty (Node k v l r 2) = Some t" "avl t" "t \<noteq> NULL" "height t = height l + 2" by blast
    with True h r 3 show ?thesis
      by (intro exI [of _ t] exI [of _ True])
        (simp add: after_left_shrunk_def del: avl_swrl_nasty.simps)
  qed (use True h r assms in \<open>auto simp: after_left_shrunk_def\<close>)
qed (use assms in \<open>auto simp: after_left_shrunk_def\<close>)

lemma avl_after_right_shrunk:
  assumes "avl l" "avl r"
    and "b = (int (height r) + 1) - int (height l)" "b = -1 \<or> b = 0 \<or> b = 1"
  shows "\<exists>t s. after_right_shrunk k v l r b = Some (t, s) \<and> avl t \<and> t \<noteq> NULL \<and>
           max (height l) (height r + 1) + 1 = height t + of_bool s"
proof (cases "b = -1")
  case True
  with assms have h: "height l = height r + 2" by auto
  then obtain lk lv ll lr lb where l: "l = Node lk lv ll lr lb" by (cases l) auto
  consider "lb = 0" | "lb = -1" | "lb = 1" using assms(1) l by auto
  then show ?thesis
  proof cases
    case 3
    with l have "balance l = 1" by simp
    from avl_rotate_left_right [OF assms(1,2) h this, of k v "-2"] obtain t where
      "avl_swlr_nasty (Node k v l r (-2)) = Some t" "avl t" "t \<noteq> NULL" "height t = height r + 2" by blast
    with True h l 3 show ?thesis
      by (intro exI [of _ t] exI [of _ True])
        (simp add: after_right_shrunk_def del: avl_swlr_nasty.simps)
  qed (use True h l assms in \<open>auto simp: after_right_shrunk_def\<close>)
qed (use assms in \<open>auto simp: after_right_shrunk_def\<close>)

lemma inorder_after_left_shrunk:
  "after_left_shrunk k v l r b = Some (t, s) \<Longrightarrow> inorder t = inorder l @ (k, v) # inorder r"
  unfolding after_left_shrunk_def
  by (auto simp: bind_eq_Some_conv simp del: avl_swl.simps avl_swrl_nasty.simps
        split: if_splits dest!: inorder_rotations)

lemma inorder_after_right_shrunk:
  "after_right_shrunk k v l r b = Some (t, s) \<Longrightarrow> inorder t = inorder l @ (k, v) # inorder r"
  unfolding after_right_shrunk_def
  by (auto simp: bind_eq_Some_conv simp del: avl_swr.simps avl_swlr_nasty.simps
        split: if_splits dest!: inorder_rotations)

lemma inorder_after_left_grown:
  "after_left_grown k v l r b = Some (t, s) \<Longrightarrow> inorder t = inorder l @ (k, v) # inorder r"
  unfolding after_left_grown_def
  by (auto simp: bind_eq_Some_conv simp del: avl_swr.simps avl_swlr_nasty.simps
        split: if_splits dest!: inorder_rotations)

lemma inorder_after_right_grown:
  "after_right_grown k v l r b = Some (t, s) \<Longrightarrow> inorder t = inorder l @ (k, v) # inorder r"
  unfolding after_right_grown_def
  by (auto simp: bind_eq_Some_conv simp del: avl_swl.simps avl_swrl_nasty.simps
        split: if_splits dest!: inorder_rotations)

lemma rightmost_Some: "t \<noteq> NULL \<Longrightarrow> \<exists>kv. rightmost t = Some kv \<and> kv \<in> set (inorder t) \<and> last (inorder t) = kv"
  by (induction t) auto

lemma leftmost_Some: "t \<noteq> NULL \<Longrightarrow> \<exists>kv. leftmost t = Some kv \<and> kv \<in> set (inorder t) \<and> hd (inorder t) = kv"
  by (induction t) (auto simp: hd_append)


section \<open>The ordered-map contract\<close>

text \<open>
  A comparison function is usable by the tree when it compares its arguments through some
  rank in a linear order: the word itself for unboxed keys, the pointed-to data for boxed ones.
\<close>

locale key_order =
  fixes kCmp :: "'k \<Rightarrow> 'k \<Rightarrow> int" and rank :: "'k \<Rightarrow> 'o::linorder"
  assumes kCmp_neg: "kCmp x y < 0 \<longleftrightarrow> rank x < rank y"
    and kCmp_pos: "0 < kCmp x y \<longleftrightarrow> rank y < rank x"

definition bst :: "('k \<Rightarrow> 'o::linorder) \<Rightarrow> ('k, 'v) AvlNode \<Rightarrow> bool" where
  "bst rank t = sorted_wrt (\<lambda>p q. rank (fst p) < rank (fst q)) (inorder t)"

fun upd_sorted :: "('k \<Rightarrow> 'o::linorder) \<Rightarrow> 'k \<Rightarrow> 'v \<Rightarrow> ('k \<times> 'v) list \<Rightarrow> ('k \<times> 'v) list" where
  "upd_sorted rank k v [] = [(k, v)]"
| "upd_sorted rank k v (p # ps) =
     (if rank k < rank (fst p) then (k, v) # p # ps
      else if rank k = rank (fst p) then (fst p, v) # ps
      else p # upd_sorted rank k v ps)"

lemma upd_sorted_left:
  "rank k < rank (fst p) \<Longrightarrow> upd_sorted rank k v (xs @ p # ys) = upd_sorted rank k v xs @ p # ys"
  by (induction xs) auto

lemma upd_sorted_here:
  "rank k = rank (fst p) \<Longrightarrow> \<forall>q\<in>set xs. rank (fst q) < rank (fst p) \<Longrightarrow>
   upd_sorted rank k v (xs @ p # ys) = xs @ (fst p, v) # ys"
  by (induction xs) auto

lemma upd_sorted_right:
  "rank (fst p) < rank k \<Longrightarrow> \<forall>q\<in>set xs. rank (fst q) < rank (fst p) \<Longrightarrow>
   upd_sorted rank k v (xs @ p # ys) = xs @ p # upd_sorted rank k v ys"
  by (induction xs) auto

lemma bst_Node:
  "bst rank (Node k v l r b) \<longleftrightarrow> bst rank l \<and> bst rank r \<and>
     (\<forall>p\<in>set (inorder l). rank (fst p) < rank k) \<and> (\<forall>p\<in>set (inorder r). rank k < rank (fst p))"
  by (fastforce simp: bst_def sorted_wrt_append intro: less_trans)

definition same_rank :: "('k \<Rightarrow> 'o::linorder) \<Rightarrow> 'k \<Rightarrow> 'k \<times> 'v \<Rightarrow> bool" where
  "same_rank rank k p \<longleftrightarrow> rank (fst p) = rank k"

lemma filter_rank_last:
  assumes "sorted_wrt (\<lambda>p q. rank (fst p) < rank (fst q)) xs" "xs \<noteq> []" "last xs = (a, v)"
  shows "filter (\<lambda>p. rank (fst p) \<noteq> (rank a :: 'o::linorder)) xs @ [(a, v)] = xs"
proof -
  from assms obtain ys where xs: "xs = ys @ [(a, v)]" by (metis append_butlast_last_id)
  with assms(1) have "filter (\<lambda>p. rank (fst p) \<noteq> rank a) ys = ys"
    by (auto simp: sorted_wrt_append filter_id_conv)
  with xs show ?thesis by simp
qed

lemma filter_rank_hd:
  assumes "sorted_wrt (\<lambda>p q. rank (fst p) < rank (fst q)) xs" "xs \<noteq> []" "hd xs = (a, v)"
  shows "(a, v) # filter (\<lambda>p. rank (fst p) \<noteq> (rank a :: 'o::linorder)) xs = xs"
proof -
  from assms obtain ys where xs: "xs = (a, v) # ys" by (cases xs) auto
  with assms(1) have "filter (\<lambda>p. rank (fst p) \<noteq> rank a) ys = ys"
    by (auto simp: filter_id_conv)
  with xs show ?thesis by simp
qed

context key_order
begin

lemma kCmp_zero: "kCmp x y = 0 \<longleftrightarrow> rank x = rank y"
  using kCmp_neg [of x y] kCmp_pos [of x y] by (metis less_irrefl neqE)

lemma find_inorder_Node:
  assumes "bst rank (Node rk rv l r b)"
  shows "List.find (same_rank rank k) (inorder (Node rk rv l r b)) =
    (if rank k < rank rk then List.find (same_rank rank k) (inorder l)
     else if rank rk < rank k then List.find (same_rank rank k) (inorder r)
     else Some (rk, rv))"
proof -
  have l: "rank rk \<le> rank k \<Longrightarrow> List.find (same_rank rank k) (inorder l) = None"
    and r: "rank k \<le> rank rk \<Longrightarrow> List.find (same_rank rank k) (inorder r) = None"
    using assms by (auto simp: bst_Node same_rank_def intro!: find_None_all)
  show ?thesis
    using l r by (auto simp: find_append same_rank_def split: option.splits)
qed

lemma find_node_inorder:
  "bst rank t \<Longrightarrow> avl_find_node kCmp t k = List.find (same_rank rank k) (inorder t)"
proof (induction t)
  case (Node rk rv l r b)
  then have "bst rank l" "bst rank r" by (auto simp: bst_Node)
  with Node show ?case
    by (auto simp: find_inorder_Node Let_def kCmp_neg kCmp_pos simp del: inorder.simps)
qed simp

lemma insert_inorder:
  "avl_insert_wrk kCmp t k v = Some (t', g, oldV) \<Longrightarrow> bst rank t \<Longrightarrow>
   inorder t' = upd_sorted rank k v (inorder t) \<and>
   oldV = map_option snd (List.find (same_rank rank k) (inorder t))"
proof (induction t arbitrary: t' g oldV)
  case (Node rk rv l r b)
  then have lr: "bst rank l" "bst rank r"
    and ord: "\<forall>p\<in>set (inorder l). rank (fst p) < rank rk" by (auto simp: bst_Node)
  note find = find_inorder_Node [OF Node.prems(2), unfolded inorder.simps]
  consider "rank k < rank rk" | "rank rk < rank k" | "rank k = rank rk" by force
  then show ?case
  proof cases
    case 1
    then show ?thesis
      using Node.prems Node.IH(1) lr ord
      by (auto simp: find upd_sorted_left kCmp_pos Let_def bind_eq_Some_conv
            split: if_splits dest!: inorder_after_left_grown)
  next
    case 2
    then have cmp: "kCmp rk k < 0" by (simp add: kCmp_neg)
    show ?thesis
    proof (cases "r = NULL")
      case True
      with 2 cmp Node.prems(1) ord find show ?thesis by (auto simp: upd_sorted_right)
    next
      case False
      with cmp Node.prems(1) obtain r' g' where r': "avl_insert_wrk kCmp r k v = Some (r', g', oldV)"
        and "inorder t' = inorder l @ (rk, rv) # inorder r'"
        by (auto simp: bind_eq_Some_conv split: if_splits dest!: inorder_after_right_grown)
      with 2 Node.IH(2) [OF r' lr(2)] ord find show ?thesis by (auto simp: upd_sorted_right)
    qed
  next
    case 3
    then show ?thesis
      using Node.prems ord
      by (auto simp: find upd_sorted_here kCmp_neg kCmp_pos Let_def)
  qed
qed auto


lemma remove_left:
  assumes "avl (Node rk rv l r b)" "rank a < rank rk"
    and l': "avl_remove_wrk kCmp l a = Some (l', ch)" "avl l'" "height l = height l' + of_bool ch"
  shows "\<exists>t' s. avl_remove_wrk kCmp (Node rk rv l r b) a = Some (t', s) \<and> avl t' \<and>
           height (Node rk rv l r b) = height t' + of_bool s \<and>
           inorder t' = inorder l' @ (rk, rv) # inorder r"
proof -
  from l' have "l \<noteq> NULL" by auto
  show ?thesis
  proof (cases ch)
    case True
    with assms obtain t' s where "after_left_shrunk rk rv l' r b = Some (t', s)" "avl t'"
      "max (height l) (height r) + 1 = height t' + of_bool s"
      using avl_after_left_shrunk [of l' r b rk rv] by auto
    with True assms l' \<open>l \<noteq> NULL\<close> show ?thesis
      by (auto simp: kCmp_pos inorder_after_left_shrunk)
  next
    case False
    with assms \<open>l \<noteq> NULL\<close> show ?thesis
      by (intro exI [of _ "Node rk rv l' r b"] exI [of _ False]) (auto simp: kCmp_pos)
  qed
qed

lemma remove_right:
  assumes "avl (Node rk rv l r b)" "rank rk < rank a"
    and r': "avl_remove_wrk kCmp r a = Some (r', ch)" "avl r'" "height r = height r' + of_bool ch"
  shows "\<exists>t' s. avl_remove_wrk kCmp (Node rk rv l r b) a = Some (t', s) \<and> avl t' \<and>
           height (Node rk rv l r b) = height t' + of_bool s \<and>
           inorder t' = inorder l @ (rk, rv) # inorder r'"
proof -
  from r' have "r \<noteq> NULL" by auto
  from assms have cmp: "\<not> kCmp rk a > 0" "kCmp rk a < 0" by (auto simp: kCmp_pos kCmp_neg)
  show ?thesis
  proof (cases ch)
    case True
    with assms obtain t' s where "after_right_shrunk rk rv l r' b = Some (t', s)" "avl t'"
      "max (height l) (height r) + 1 = height t' + of_bool s"
      using avl_after_right_shrunk [of l r' b rk rv] by auto
    with True assms r' cmp \<open>r \<noteq> NULL\<close> show ?thesis
      by (auto simp: inorder_after_right_shrunk)
  next
    case False
    with assms cmp \<open>r \<noteq> NULL\<close> show ?thesis
      by (intro exI [of _ "Node rk rv l r' b"] exI [of _ False]) auto
  qed
qed


lemma removeroot_inorder:
  assumes avl: "avl (Node rk rv l r b)" and bst: "bst rank (Node rk rv l r b)"
    and IHl: "\<And>a. a \<in> fst ` set (inorder l) \<Longrightarrow>
      \<exists>t' s. avl_remove_wrk kCmp l a = Some (t', s) \<and> avl t' \<and> height l = height t' + of_bool s \<and>
        inorder t' = filter (\<lambda>p. rank (fst p) \<noteq> rank a) (inorder l)"
    and IHr: "\<And>a. a \<in> fst ` set (inorder r) \<Longrightarrow>
      \<exists>t' s. avl_remove_wrk kCmp r a = Some (t', s) \<and> avl t' \<and> height r = height t' + of_bool s \<and>
        inorder t' = filter (\<lambda>p. rank (fst p) \<noteq> rank a) (inorder r)"
  shows "\<exists>t' s. avl_removeroot_wrk kCmp (Node rk rv l r b) = Some (t', s) \<and> avl t' \<and>
           height (Node rk rv l r b) = height t' + of_bool s \<and> inorder t' = inorder l @ inorder r"
proof -
  consider "l = NULL \<or> r = NULL" | "l \<noteq> NULL" "r \<noteq> NULL" "b < 0" | "l \<noteq> NULL" "r \<noteq> NULL" "\<not> b < 0"
    by blast
  then show ?thesis
  proof cases
    case 1
    then show ?thesis using avl by auto
  next
    case 2
    then obtain ak av where a: "rightmost l = Some (ak, av)" "last (inorder l) = (ak, av)"
        "(ak, av) \<in> set (inorder l)"
      using rightmost_Some [of l] by fastforce
    with bst have less: "rank ak < rank rk" by (auto simp: bst_Node)
    from a(3) have "ak \<in> fst ` set (inorder l)" by force
    then obtain l' s where l': "avl_remove_wrk kCmp l ak = Some (l', s)" "avl l'"
        "height l = height l' + of_bool s"
        "inorder l' = filter (\<lambda>p. rank (fst p) \<noteq> rank ak) (inorder l)"
      using IHl by blast
    have "inorder l' @ [(ak, av)] = inorder l"
      using filter_rank_last [of rank "inorder l" ak av] a bst 2 l'(4) by (simp add: bst_def sorted_wrt_append)
    with 2 a l' less avl show ?thesis
      by (cases s) (auto simp: kCmp_pos after_left_shrunk_def)
  next
    case 3
    then obtain ak av where a: "leftmost r = Some (ak, av)" "hd (inorder r) = (ak, av)"
        "(ak, av) \<in> set (inorder r)"
      using leftmost_Some [of r] by fastforce
    with bst have less: "rank rk < rank ak" by (auto simp: bst_Node)
    then have cmp: "kCmp rk ak < 0" "\<not> 0 < kCmp rk ak" by (auto simp: kCmp_pos kCmp_neg)
    from a(3) have "ak \<in> fst ` set (inorder r)" by force
    then obtain r' s where r': "avl_remove_wrk kCmp r ak = Some (r', s)" "avl r'"
        "height r = height r' + of_bool s"
        "inorder r' = filter (\<lambda>p. rank (fst p) \<noteq> rank ak) (inorder r)"
      using IHr by blast
    have "(ak, av) # inorder r' = inorder r"
      using filter_rank_hd [of rank "inorder r" ak av] a bst 3 r'(4) by (simp add: bst_def sorted_wrt_append)
    note ino = this
    have "b = 0 \<or> b = 1" "ak \<noteq> rk" using avl 3 less by auto
    with 3 a r' avl cmp ino show ?thesis
      by (cases s; elim disjE; simp add: after_right_shrunk_def; blast)
  qed
qed

theorem remove_inorder:
  assumes "avl t" "bst rank t" "a \<in> fst ` set (inorder t)"
  shows "\<exists>t' s. avl_remove_wrk kCmp t a = Some (t', s) \<and> avl t' \<and> height t = height t' + of_bool s \<and>
           inorder t' = filter (\<lambda>p. rank (fst p) \<noteq> rank a) (inorder t)"
  using assms
proof (induction t arbitrary: a)
  case (Node rk rv l r b)
  from Node.prems have sub: "avl l" "avl r" "bst rank l" "bst rank r"
    and ord: "\<forall>p\<in>set (inorder l). rank (fst p) < rank rk" "\<forall>p\<in>set (inorder r). rank rk < rank (fst p)"
    by (auto simp: bst_Node)
  consider "a \<in> fst ` set (inorder l)" | "a = rk" | "a \<in> fst ` set (inorder r)"
    using Node.prems(3) by auto
  then show ?case
  proof cases
    case 1
    with ord have less: "rank a < rank rk" by auto
    from Node.IH(1) [OF sub(1,3) 1] obtain l' s where l': "avl_remove_wrk kCmp l a = Some (l', s)"
      "avl l'" "height l = height l' + of_bool s"
      "inorder l' = filter (\<lambda>p. rank (fst p) \<noteq> rank a) (inorder l)" by blast
    have "filter (\<lambda>p. rank (fst p) \<noteq> rank a) (inorder r) = inorder r"
      using ord less by (auto simp: filter_id_conv)
    then have "filter (\<lambda>p. rank (fst p) \<noteq> rank a) (inorder (Node rk rv l r b)) =
        inorder l' @ (rk, rv) # inorder r"
      using l'(4) less by simp
    with remove_left [OF Node.prems(1) less l'(1-3)] show ?thesis by metis
  next
    case 2
    have "filter (\<lambda>p. rank (fst p) \<noteq> rank a) (inorder r) = inorder r"
      "filter (\<lambda>p. rank (fst p) \<noteq> rank a) (inorder l) = inorder l"
      using ord 2 by (auto simp: filter_id_conv)
    moreover obtain t' s where "avl_removeroot_wrk kCmp (Node rk rv l r b) = Some (t', s)" "avl t'"
      "height (Node rk rv l r b) = height t' + of_bool s" "inorder t' = inorder l @ inorder r"
      using removeroot_inorder [OF Node.prems(1,2) Node.IH(1) [OF sub(1,3)] Node.IH(2) [OF sub(2,4)]]
      by blast
    ultimately show ?thesis
      using 2 by (intro exI [of _ t'] exI [of _ s])
        (simp add: kCmp_pos kCmp_neg del: avl_removeroot_wrk.simps)
  next
    case 3
    with ord have less: "rank rk < rank a" by auto
    from Node.IH(2) [OF sub(2,4) 3] obtain r' s where r': "avl_remove_wrk kCmp r a = Some (r', s)"
      "avl r'" "height r = height r' + of_bool s"
      "inorder r' = filter (\<lambda>p. rank (fst p) \<noteq> rank a) (inorder r)" by blast
    have "filter (\<lambda>p. rank (fst p) \<noteq> rank a) (inorder l) = inorder l"
      using ord less by (auto simp: filter_id_conv)
    then have "filter (\<lambda>p. rank (fst p) \<noteq> rank a) (inorder (Node rk rv l r b)) =
        inorder l @ (rk, rv) # inorder r'"
      using r'(4) less by simp
    with remove_right [OF Node.prems(1) less r'(1-3)] show ?thesis by metis
  qed
qed simp

end



section \<open>The finite-map contract and its implementation\<close>

text \<open>
  What the clients of \<^verbatim>\<open>WordFM\<close> rely on.  \<open>same\<close> is key equality in the sense of the comparison
  function; a lookup returns the stored key with the value, and re-adding a key keeps the stored
  key and replaces the value.
\<close>

locale finite_map =
  fixes new :: "'m"
    and lookup :: "'m \<Rightarrow> 'k \<Rightarrow> ('k \<times> 'v) option"
    and add :: "'m \<Rightarrow> 'k \<Rightarrow> 'v \<Rightarrow> (bool \<times> 'm) option"
    and del :: "'m \<Rightarrow> 'k \<Rightarrow> (('k \<times> 'v) option \<times> 'm) option"
    and same :: "'k \<Rightarrow> 'k \<Rightarrow> bool"
    and inv :: "'m \<Rightarrow> bool"
  assumes inv_new: "inv new"
    and lookup_new: "lookup new k = None"
    and lookup_same: "inv m \<Longrightarrow> lookup m k = Some (k', v) \<Longrightarrow> same k' k"
    and lookup_cong: "inv m \<Longrightarrow> same j k \<Longrightarrow> lookup m j = lookup m k"
    and add_total: "inv m \<Longrightarrow> \<exists>had m'. add m k v = Some (had, m')"
    and add_spec: "inv m \<Longrightarrow> add m k v = Some (had, m') \<Longrightarrow>
      inv m' \<and> had = (lookup m k \<noteq> None) \<and>
      lookup m' j = (if same j k
                     then Some (case lookup m k of None \<Rightarrow> k | Some (k0, _) \<Rightarrow> k0, v) else lookup m j)"
    and del_total: "inv m \<Longrightarrow> \<exists>m'. del m k = Some (lookup m k, m')"
    and del_spec: "inv m \<Longrightarrow> del m k = Some (old, m') \<Longrightarrow>
      inv m' \<and> lookup m' j = (if same j k then None else lookup m j)"
begin

lemma add_lookup_fresh:
  assumes "inv m" "lookup m k = None"
  obtains m' where "add m k v = Some (False, m')" "inv m'"
    "\<And>j. lookup m' j = (if same j k then Some (k, v) else lookup m j)"
proof -
  from add_total [OF assms(1)] obtain had m' where a: "add m k v = Some (had, m')" by blast
  with add_spec [OF assms(1) a] assms(2) that show thesis by auto
qed

lemma add_then_del:
  assumes "inv m" "lookup m k = None" "add m k v = Some (had, m')" "del m' k = Some (old, m'')"
  shows "lookup m'' j = lookup m j"
  using assms add_spec del_spec lookup_cong by metis

end

definition fm_inv :: "('k \<Rightarrow> 'k \<Rightarrow> int) \<Rightarrow> ('k \<Rightarrow> 'o::linorder) \<Rightarrow> ('k, 'v) WordFM \<Rightarrow> bool" where
  "fm_inv kCmp rank fm \<longleftrightarrow> fm_kCmp fm = kCmp \<and> avl (fm_root fm) \<and> bst rank (fm_root fm)"

lemma find_upd_sorted:
  "sorted_wrt (\<lambda>p q. rank (fst p) < rank (fst q)) xs \<Longrightarrow>
   List.find (same_rank rank j) (upd_sorted rank k v xs) =
     (if rank j = rank k
      then Some (case List.find (same_rank rank k) xs of None \<Rightarrow> k | Some (k0, _) \<Rightarrow> k0, v)
      else List.find (same_rank rank j) xs)"
proof (induction xs)
  case (Cons p ps)
  have "rank k < rank (fst p) \<Longrightarrow> List.find (same_rank rank k) ps = None"
    using Cons.prems by (intro find_None_all) (auto simp: same_rank_def)
  with Cons show ?case
    by (cases p) (auto simp: same_rank_def [abs_def] split: option.splits)
qed (auto simp: same_rank_def)

lemma set_upd_sorted: "p \<in> set (upd_sorted rank k v xs) \<Longrightarrow> rank (fst p) = rank k \<or> p \<in> set xs"
  by (induction xs) (auto split: if_splits)

lemma sorted_upd_sorted:
  "sorted_wrt (\<lambda>p q. rank (fst p) < rank (fst q)) xs \<Longrightarrow>
   sorted_wrt (\<lambda>p q. rank (fst p) < rank (fst q)) (upd_sorted rank k v xs)"
  by (induction xs) (auto dest!: set_upd_sorted)

lemma find_filter_rank:
  "List.find (same_rank rank j) (filter (\<lambda>p. rank (fst p) \<noteq> rank k) xs) =
     (if rank j = rank k then None else List.find (same_rank rank j) xs)"
  by (induction xs) (auto simp: same_rank_def [abs_def])

lemma find_same_rank: "List.find (same_rank rank k) xs = Some (a, v) \<Longrightarrow> (a, v) \<in> set xs \<and> rank a = rank k"
  by (induction xs) (auto simp: same_rank_def split: if_splits)

context key_order
begin

lemma lookupFM_inorder:
  "fm_inv kCmp rank fm \<Longrightarrow> lookupFM fm k = List.find (same_rank rank k) (inorder (fm_root fm))"
  by (auto simp: lookupFM_def fm_inv_def find_node_inorder)

lemma addToFM_spec:
  assumes inv: "fm_inv kCmp rank fm"
  shows "\<exists>fm'. addToFM fm k v = Some (lookupFM fm k \<noteq> None, fm') \<and> fm_inv kCmp rank fm' \<and>
           inorder (fm_root fm') = upd_sorted rank k v (inorder (fm_root fm))"
proof -
  from inv have i: "avl (fm_root fm)" "bst rank (fm_root fm)" "fm_kCmp fm = kCmp"
    by (auto simp: fm_inv_def)
  from avl_insert_wrk_total [OF i(1), of kCmp k v] obtain t g oldV where
    t: "avl_insert_wrk kCmp (fm_root fm) k v = Some (t, g, oldV)" "avl t" by blast
  from insert_inorder [OF t(1) i(2)] i(2) t i(3) sorted_upd_sorted [of rank "inorder (fm_root fm)" k v]
  show ?thesis
    by (cases "List.find (same_rank rank k) (inorder (fm_root fm))")
      (auto simp: addToFM_def fm_inv_def bst_def lookupFM_inorder [OF inv])
qed

lemma delFromFM_spec:
  assumes inv: "fm_inv kCmp rank fm"
  shows "\<exists>fm'. delFromFM fm k = Some (lookupFM fm k, fm') \<and> fm_inv kCmp rank fm' \<and>
           inorder (fm_root fm') = filter (\<lambda>p. rank (fst p) \<noteq> rank k) (inorder (fm_root fm))"
proof (cases "lookupFM fm k")
  case None
  with inv have "\<forall>p\<in>set (inorder (fm_root fm)). rank (fst p) \<noteq> rank k"
    by (auto simp: lookupFM_inorder find_None_iff same_rank_def)
  then have "filter (\<lambda>p. rank (fst p) \<noteq> rank k) (inorder (fm_root fm)) = inorder (fm_root fm)"
    by (simp add: filter_id_conv)
  with None inv show ?thesis by (auto simp: delFromFM_def lookupFM_def)
next
  case (Some p)
  obtain a v where p: "p = (a, v)" by force
  from inv have i: "avl (fm_root fm)" "bst rank (fm_root fm)" "fm_kCmp fm = kCmp"
    by (auto simp: fm_inv_def)
  from Some p inv have "(a, v) \<in> set (inorder (fm_root fm))" and ra: "rank a = rank k"
    by (auto simp: lookupFM_inorder dest: find_same_rank)
  then have "a \<in> fst ` set (inorder (fm_root fm))" by force
  from remove_inorder [OF i(1,2) this] obtain t s where
    "avl_remove_wrk kCmp (fm_root fm) a = Some (t, s)" "avl t"
    "inorder t = filter (\<lambda>p. rank (fst p) \<noteq> rank a) (inorder (fm_root fm))" by blast
  with Some p i ra show ?thesis
    by (auto simp: delFromFM_def lookupFM_def fm_inv_def bst_def sorted_wrt_filter)
qed

end

sublocale key_order \<subseteq> fm: finite_map "newFM kCmp" lookupFM addToFM delFromFM
    "\<lambda>j k. rank j = rank k" "fm_inv kCmp rank"
proof (unfold_locales, goal_cases)
  case 1
  show ?case by (simp add: fm_inv_def newFM_def bst_def)
next
  case (2 k)
  show ?case by (simp add: lookupFM_def newFM_def)
next
  case (3 m k k' v)
  then show ?case by (auto simp: lookupFM_inorder dest: find_same_rank)
next
  case (4 m j k)
  then show ?case by (simp add: lookupFM_inorder same_rank_def [abs_def])
next
  case (5 m k v)
  then show ?case using addToFM_spec by metis
next
  case (6 m k v had m' j)
  with addToFM_spec [OF 6(1), of k v] show ?case
    by (auto simp: lookupFM_inorder find_upd_sorted fm_inv_def bst_def)
next
  case (7 m k)
  then show ?case using delFromFM_spec by blast
next
  case (8 m k old m' j)
  with delFromFM_spec [OF 8(1), of k] show ?case
    by (auto simp: lookupFM_inorder find_filter_rank)
qed

context key_order
begin

text \<open>The contract of the tree, for use outside the locale.\<close>

lemma addToFM_lookup:
  assumes "fm_inv kCmp rank fm"
  shows "\<exists>fm'. addToFM fm k v = Some (lookupFM fm k \<noteq> None, fm') \<and> fm_inv kCmp rank fm' \<and>
           (\<forall>j. lookupFM fm' j =
                  (if rank j = rank k
                   then Some (case lookupFM fm k of None \<Rightarrow> k | Some (k0, _) \<Rightarrow> k0, v)
                   else lookupFM fm j))"
proof -
  obtain fm' where a: "addToFM fm k v = Some (lookupFM fm k \<noteq> None, fm')"
    using addToFM_spec [OF assms] by metis
  with fm.add_spec [OF assms a] show ?thesis by blast
qed

lemma delFromFM_lookup:
  assumes "fm_inv kCmp rank fm"
  shows "\<exists>fm'. delFromFM fm k = Some (lookupFM fm k, fm') \<and> fm_inv kCmp rank fm' \<and>
           (\<forall>j. lookupFM fm' j = (if rank j = rank k then None else lookupFM fm j))"
proof -
  obtain fm' where a: "delFromFM fm k = Some (lookupFM fm k, fm')"
    using delFromFM_spec [OF assms] by blast
  with fm.del_spec [OF assms a] show ?thesis by blast
qed

end

text \<open>Unboxed keys: the comparison used for a null \<^verbatim>\<open>kCmp\<close>.\<close>

interpretation unboxed: key_order cmp_unsigned_Words "\<lambda>w. w"
  by unfold_locales (auto simp: cmp_unsigned_Words_def)

end
