(* ===== verification/WordFM_Iter.thy ===== *)
theory WordFM_Iter
  imports WordFM
begin

text \<open>
  Iteration over a \<^verbatim>\<open>WordFM\<close> (\<^verbatim>\<open>VG_(initIterFM)\<close>, \<^verbatim>\<open>VG_(initIterAtFM)\<close>, \<^verbatim>\<open>VG_(nextIterFM)\<close>), the
  bounds search, copying and freeing, and the size limits under which the fixed-size iterator
  stack is deep enough.
\<close>

section \<open>Copying and freeing\<close>

text \<open>
  \<^verbatim>\<open>avl_dopy\<close>: the copy functions report exhaustion of memory, the result zero for a non-zero
  argument, as \<^term>\<open>None\<close>; the absent copy function is \<^term>\<open>Some\<close>.
\<close>

fun avl_dopy ::
  "('k \<Rightarrow> 'k option) \<Rightarrow> ('v \<Rightarrow> 'v option) \<Rightarrow> ('k, 'v) AvlNode \<Rightarrow> ('k, 'v) AvlNode option" where
  "avl_dopy dopyK dopyV NULL = Some NULL"
| "avl_dopy dopyK dopyV (Node k v l r b) =
     do {
       k' \<leftarrow> dopyK k;
       v' \<leftarrow> dopyV v;
       l' \<leftarrow> avl_dopy dopyK dopyV l;
       r' \<leftarrow> avl_dopy dopyK dopyV r;
       Some (Node k' v' l' r' b)
     }"

text \<open>The outer option is the assertion that no iteration is under way, the inner one memory exhaustion.\<close>

definition dopyFM ::
  "('k, 'v) WordFM \<Rightarrow> ('k \<Rightarrow> 'k option) \<Rightarrow> ('v \<Rightarrow> 'v option) \<Rightarrow> ('k, 'v) WordFM option option" where
  "dopyFM fm dopyK dopyV =
     do {
       tl_assert (fm_stack fm = []);
       Some (map_option (\<lambda>t. fm\<lparr>fm_root := t\<rparr>) (avl_dopy dopyK dopyV (fm_root fm)))
     }"

text \<open>\<^verbatim>\<open>avl_free\<close>: the order in which the finalisers see the nodes.\<close>

fun avl_free :: "('k, 'v) AvlNode \<Rightarrow> ('k \<times> 'v) list" where
  "avl_free NULL = []"
| "avl_free (Node k v l r b) = avl_free l @ avl_free r @ [(k, v)]"

definition deleteFM :: "('k, 'v) WordFM \<Rightarrow> ('k \<times> 'v) list" where
  "deleteFM fm = avl_free (fm_root fm)"

lemma set_avl_free: "set (avl_free t) = set (inorder t)"
  by (induction t) auto

lemma length_avl_free: "length (avl_free t) = length (inorder t)"
  by (induction t) auto

lemma avl_dopy_Some_id: "avl_dopy Some Some t = Some t"
  by (induction t) auto

lemma avl_dopy_inorder:
  "avl_dopy (\<lambda>k. Some (f k)) (\<lambda>v. Some (g v)) t = Some t' \<Longrightarrow>
   inorder t' = map (map_prod f g) (inorder t) \<and> height t' = height t"
  by (induction t arbitrary: t') (auto simp: bind_eq_Some_conv)

section \<open>Iteration\<close>

text \<open>The pairs an iterator stack still has to deliver.\<close>

fun pending :: "('k, 'v) iter_stack \<Rightarrow> ('k \<times> 'v) list" where
  "pending [] = []"
| "pending ((NULL, i) # st) = pending st"
| "pending ((Node k v l r b, i) # st) =
     (if i = 1 then inorder (Node k v l r b) else if i = 2 then (k, v) # inorder r else inorder r) @
     pending st"

text \<open>
  The room every entry of the stack needs: pushing the left spine of its node on top of the
  entries below it stays within \<open>H\<close> slots.
\<close>

fun stack_ok :: "nat \<Rightarrow> ('k, 'v) iter_stack \<Rightarrow> bool" where
  "stack_ok H [] = True"
| "stack_ok H ((n, i) # st) =
     (n \<noteq> NULL \<and> 1 \<le> i \<and> i \<le> 3 \<and> length st + height n \<le> H \<and> stack_ok H st)"

lemma iter_case_1_pending:
  "iter_case_1 st n = Some st' \<Longrightarrow> pending st' = inorder n @ pending st"
  by (induction st n arbitrary: st' rule: iter_case_1.induct)
    (auto simp: bind_eq_Some_conv stackPush_def split: if_splits)

lemma iter_case_1_ok:
  "n \<noteq> NULL \<Longrightarrow> stack_ok WFM_STKMAX st \<Longrightarrow> length st + height n \<le> WFM_STKMAX \<Longrightarrow>
   \<exists>st'. iter_case_1 st n = Some st' \<and> stack_ok WFM_STKMAX st'"
proof (induction st n rule: iter_case_1.induct)
  case (2 st k v l r b)
  then show ?case by (auto simp: stackPush_def)
qed simp

lemma nextIter_loop_ok:
  "stack_ok WFM_STKMAX st \<Longrightarrow>
   \<exists>p st'. nextIter_loop st = Some (p, st') \<and> stack_ok WFM_STKMAX st' \<and>
     (case p of None \<Rightarrow> pending st = [] \<and> st' = [] | Some kv \<Rightarrow> pending st = kv # pending st')"
proof (induction st rule: nextIter_loop.induct)
  case (3 k v l r b i st)
  let ?n = "Node k v l r b"
  from "3.prems" have ok: "stack_ok WFM_STKMAX st" "length st < WFM_STKMAX"
      "length st + height ?n \<le> WFM_STKMAX" and i: "i = 1 \<or> i = 2 \<or> i = 3" by auto
  consider "i = 1" | "i = 2" | "i = 3" "r = NULL" | "i = 3" "r \<noteq> NULL" using i by blast
  then show ?case
  proof cases
    case 1
    from iter_case_1_ok [OF _ ok(1,3)] obtain st' where
      st': "iter_case_1 st ?n = Some st'" "stack_ok WFM_STKMAX st'" by blast
    with "3.IH"(1) [OF ok(2) 1 st'] iter_case_1_pending [OF st'(1)] 1 ok(2) show ?thesis
      by (auto simp del: iter_case_1.simps split: option.splits)
  next
    case 2
    with "3.prems" ok show ?thesis by (auto simp: stackPush_def)
  next
    case 3
    with "3.IH"(3) ok have "nextIter_loop ((?n, i) # st) = nextIter_loop st"
      "pending ((?n, i) # st) = pending st" by auto
    moreover have "\<not> r \<noteq> NULL" "i \<noteq> 1" "i \<noteq> 2" using 3 by auto
    from "3.IH"(3) [OF ok(2) this(2,3) 3(1) this(1) ok(1)]
    show ?thesis by (simp only: calculation)
  next
    case 4
    with ok(3) have "length st + height r \<le> WFM_STKMAX" by simp
    from iter_case_1_ok [OF 4(2) ok(1) this] obtain st' where
      st': "iter_case_1 st r = Some st'" "stack_ok WFM_STKMAX st'" by blast
    with "3.IH"(2) [OF ok(2) _ _ 4(1,2) st'] iter_case_1_pending [OF st'(1)] 4 ok(2) show ?thesis
      by (auto simp del: iter_case_1.simps split: option.splits)
  qed
qed auto

lemma iterate_pending:
  "stack_ok WFM_STKMAX (fm_stack fm) \<Longrightarrow> length (pending (fm_stack fm)) < n \<Longrightarrow>
   iterate_FM n fm = Some (pending (fm_stack fm))"
proof (induction n fm rule: iterate_FM.induct)
  case (2 n fm)
  from nextIter_loop_ok [OF "2.prems"(1)] obtain p st' where
    p: "nextIter_loop (fm_stack fm) = Some (p, st')" "stack_ok WFM_STKMAX st'"
      "case p of None \<Rightarrow> pending (fm_stack fm) = [] \<and> st' = [] | Some kv \<Rightarrow> pending (fm_stack fm) = kv # pending st'"
    by blast
  then have n: "nextIterFM fm = Some (p, fm\<lparr>fm_stack := st'\<rparr>)" by (simp add: nextIterFM_def)
  show ?case
  proof (cases p)
    case (Some kv)
    with 2 p n show ?thesis by simp
  qed (use p n in simp)
qed simp

lemma initIterFM_pending:
  assumes "height (fm_root fm) \<le> WFM_STKMAX"
  shows "\<exists>fm'. initIterFM fm = Some fm' \<and> fm_root fm' = fm_root fm \<and>
           stack_ok WFM_STKMAX (fm_stack fm') \<and> pending (fm_stack fm') = inorder (fm_root fm)"
  using assms by (cases "fm_root fm") (auto simp: initIterFM_def stackPush_def)

lemma dropWhile_less_left:
  "\<not> P p \<Longrightarrow> dropWhile P (xs @ p # ys) = dropWhile P xs @ p # ys"
  by (induction xs) auto

context key_order
begin

lemma initIterAt_loop_pending:
  assumes "bst rank t" "stack_ok WFM_STKMAX st" "length st + height t \<le> WFM_STKMAX"
  shows "\<exists>st'. initIterAt_loop kCmp st t k = Some st' \<and> stack_ok WFM_STKMAX st' \<and>
           pending st' = dropWhile (\<lambda>p. rank (fst p) < rank k) (inorder t) @ pending st"
  using assms
proof (induction t arbitrary: st)
  case (Node rk rv l r b)
  from Node.prems have b: "bst rank l" "bst rank r"
    and ord: "\<forall>p\<in>set (inorder l). rank (fst p) < rank rk" by (auto simp: bst_Node)
  consider "rank rk = rank k" | "rank rk < rank k" | "rank k < rank rk" by fastforce
  then show ?case
  proof cases
    case 1
    with ord have "dropWhile (\<lambda>p. rank (fst p) < rank k) (inorder l) = []" by simp
    with 1 Node.prems show ?thesis
      by (auto simp: kCmp_zero stackPush_def dropWhile_less_left)
  next
    case 2
    with ord have "dropWhile (\<lambda>p. rank (fst p) < rank k) (inorder l @ (rk, rv) # inorder r) =
        dropWhile (\<lambda>p. rank (fst p) < rank k) (inorder r)"
      by (subst dropWhile_append2) auto
    with 2 Node.IH(2) [OF b(2), of st] Node.prems show ?thesis
      by (auto simp: kCmp_zero kCmp_neg)
  next
    case 3
    then have c: "kCmp rk k \<noteq> 0" "\<not> kCmp rk k < 0" by (auto simp: kCmp_zero kCmp_neg)
    from 3 Node.IH(1) [OF b(1), of "(Node rk rv l r b, 2) # st"] Node.prems c show ?thesis
      by (auto simp: stackPush_def dropWhile_less_left)
  qed
qed simp

lemma find_bounds_spec:
  assumes "bst rank t"
  shows "avl_find_bounds kCmp t lower upper k =
           (if \<exists>p\<in>set (inorder t). rank (fst p) = rank k then None
            else Some (last (lower # filter (\<lambda>p. rank (fst p) < rank k) (inorder t)),
                       hd (filter (\<lambda>p. rank k < rank (fst p)) (inorder t) @ [upper])))"
  using assms
proof (induction t arbitrary: lower upper)
  case (Node rk rv l r b)
  from Node.prems have b: "bst rank l" "bst rank r"
    and ord: "\<forall>p\<in>set (inorder l). rank (fst p) < rank rk" "\<forall>p\<in>set (inorder r). rank rk < rank (fst p)"
    by (auto simp: bst_Node)
  consider "rank rk = rank k" | "rank rk < rank k" | "rank k < rank rk" by fastforce
  then show ?case
  proof cases
    case 1
    then show ?thesis by (auto simp: kCmp_neg kCmp_pos)
  next
    case 2
    have f: "filter (\<lambda>p. rank (fst p) < rank k) (inorder l) = inorder l"
      "filter (\<lambda>p. rank k < rank (fst p)) (inorder l) = []"
      using ord 2 by (auto simp: filter_id_conv filter_empty_conv)
    have "(\<exists>p\<in>set (inorder l). rank (fst p) = rank k) = False" using ord 2 by force
    then show ?thesis using 2 Node.IH(2) [OF b(2)] f by (auto simp: kCmp_neg)
  next
    case 3
    then have c: "\<not> kCmp rk k < 0" "kCmp rk k > 0" by (auto simp: kCmp_neg kCmp_pos)
    have f: "filter (\<lambda>p. rank k < rank (fst p)) (inorder r) = inorder r"
      "filter (\<lambda>p. rank (fst p) < rank k) (inorder r) = []"
      using ord 3 by (auto simp: filter_id_conv filter_empty_conv)
    have "(\<exists>p\<in>set (inorder r). rank (fst p) = rank k) = False" using ord 3 by force
    then show ?thesis using 3 Node.IH(1) [OF b(1)] f c by (auto simp: hd_append)
  qed
qed simp

end

section \<open>How large a map may be before the iterator stack overflows\<close>

fun min_avl_nodes :: "nat \<Rightarrow> nat" where
  "min_avl_nodes 0 = 0"
| "min_avl_nodes (Suc 0) = 1"
| "min_avl_nodes (Suc (Suc h)) = Suc (min_avl_nodes (Suc h) + min_avl_nodes h)"

lemma min_avl_nodes_mono1: "min_avl_nodes h \<le> min_avl_nodes (Suc h)"
  by (induction h rule: min_avl_nodes.induct) auto

lemma min_avl_nodes_mono: "g \<le> h \<Longrightarrow> min_avl_nodes g \<le> min_avl_nodes h"
  by (rule lift_Suc_mono_le [where f = min_avl_nodes, OF min_avl_nodes_mono1])

lemma nnodes_inorder: "nnodes t = length (inorder t)"
  by (induction t) auto

lemma avl_min_nodes: "avl t \<Longrightarrow> min_avl_nodes (height t) \<le> nnodes t"
proof (induction t)
  case (Node k v l r b)
  then have b: "b = int (height r) - int (height l)" "b = -1 \<or> b = 0 \<or> b = 1" by auto
  let ?m = "max (height l) (height r)"
  show ?case
  proof (cases ?m)
    case (Suc m)
    from b have "height l = ?m \<and> m \<le> height r \<or> height r = ?m \<and> m \<le> height l"
      using Suc by linarith
    then have "min_avl_nodes ?m + min_avl_nodes m \<le> min_avl_nodes (height l) + min_avl_nodes (height r)"
      using min_avl_nodes_mono by (metis add.commute add_le_mono order_refl)
    with Node Suc show ?thesis by simp
  qed simp
qed simp

primrec min_avl_pair :: "nat \<Rightarrow> int \<times> int" where
  "min_avl_pair 0 = (0, 1)"
| "min_avl_pair (Suc h) = (let (a, b) = min_avl_pair h in (b, a + b + 1))"

lemma min_avl_pair: "min_avl_pair h = (int (min_avl_nodes h), int (min_avl_nodes (Suc h)))"
  by (induction h) auto

lemma min_avl_nodes_33: "min_avl_nodes 33 = 9227464"
proof -
  have "fst (min_avl_pair 33) = 9227464" by code_simp
  then show ?thesis by (simp add: min_avl_pair)
qed

lemma avl_height_bound:
  assumes "avl t" "length (inorder t) < 9227464"
  shows "height t \<le> WFM_STKMAX"
proof (rule ccontr)
  assume "\<not> ?thesis"
  then have "33 \<le> height t" by (simp add: WFM_STKMAX_def)
  from min_avl_nodes_mono [OF this] avl_min_nodes [OF assms(1)] assms(2) show False
    by (simp add: min_avl_nodes_33 nnodes_inorder)
qed

text \<open>The sparsest balanced tree of a given height, leaning left, with the keys \<open>o, o + 1, \<dots>\<close>.\<close>

fun fib_tree :: "nat \<Rightarrow> nat \<Rightarrow> (nat, unit) AvlNode" where
  "fib_tree off 0 = NULL"
| "fib_tree off (Suc 0) = Node off () NULL NULL 0"
| "fib_tree off (Suc (Suc h)) =
     Node (off + min_avl_nodes (Suc h)) () (fib_tree off (Suc h))
       (fib_tree (Suc (off + min_avl_nodes (Suc h))) h) (-1)"

lemma fib_tree_facts:
  "height (fib_tree off h) = h \<and> avl (fib_tree off h) \<and>
   map fst (inorder (fib_tree off h)) = [off ..< off + min_avl_nodes h]"
proof (induction off h rule: fib_tree.induct)
  case (3 off h)
  have "[off ..< off + Suc (a + b)] = [off ..< off + a] @ (off + a) # [Suc (off + a) ..< Suc (off + a) + b]"
    for a b by (metis add.assoc add_Suc_right add_Suc_shift le_add1 less_add_Suc1 upt_add_eq_append upt_conv_Cons)
  with 3 show ?case by (auto simp del: upt_Suc)
qed auto

lemma fib_tree_overflow:
  "0 < h \<Longrightarrow> WFM_STKMAX < length st + h \<Longrightarrow> iter_case_1 st (fib_tree off h) = None"
proof (induction off h arbitrary: st rule: fib_tree.induct)
  case (2 off)
  then show ?case by (simp add: stackPush_def)
next
  case (3 off h)
  have "fib_tree off (Suc h) \<noteq> NULL" by (cases h) auto
  with 3 show ?case by (auto simp: stackPush_def)
qed simp

lemma dropWhile_sorted:
  "sorted_wrt (\<lambda>p q. rank (fst p) < rank (fst q)) xs \<Longrightarrow>
   dropWhile (\<lambda>p. rank (fst p) < rank k) xs = filter (\<lambda>p. \<not> rank (fst p) < (rank k :: 'o::linorder)) xs"
proof (induction xs)
  case (Cons p ps)
  then show ?case
    by (cases "rank (fst p) < rank k") (auto intro!: filter_True [symmetric] dest: less_trans)
qed simp

context key_order
begin

lemma iterate_from:
  assumes inv: "fm_inv kCmp rank fm" and small: "length (inorder (fm_root fm)) < 9227464"
    and n: "length (inorder (fm_root fm)) < n"
  shows "\<exists>fm' kvs. initIterAtFM fm k = Some fm' \<and> iterate_FM n fm' = Some kvs \<and>
           kvs = filter (\<lambda>p. \<not> rank (fst p) < rank k) (inorder (fm_root fm)) \<and>
           sorted_wrt (\<lambda>p q. rank (fst p) < rank (fst q)) kvs"
proof -
  from inv have i: "avl (fm_root fm)" "bst rank (fm_root fm)" "fm_kCmp fm = kCmp"
    by (auto simp: fm_inv_def)
  let ?kvs = "filter (\<lambda>p. \<not> rank (fst p) < rank k) (inorder (fm_root fm))"
  from initIterAt_loop_pending [OF i(2), of "[]" k] avl_height_bound [OF i(1) small] obtain st where
    st: "initIterAt_loop kCmp [] (fm_root fm) k = Some st" "stack_ok WFM_STKMAX st" "pending st = ?kvs"
    using i(2) by (auto simp: dropWhile_sorted bst_def)
  have "length ?kvs < n" using n length_filter_le order.strict_trans1 by blast
  with st have "iterate_FM n (fm\<lparr>fm_stack := st\<rparr>) = Some ?kvs"
    using iterate_pending [of "fm\<lparr>fm_stack := st\<rparr>" n] by simp
  moreover have "sorted_wrt (\<lambda>p q. rank (fst p) < rank (fst q)) ?kvs"
    using i(2) by (simp add: bst_def sorted_wrt_filter)
  ultimately show ?thesis using st(1) i(3) by (simp add: initIterAtFM_def)
qed

end

lemma iterate_all:
  assumes avl: "avl (fm_root fm)" and small: "length (inorder (fm_root fm)) < 9227464"
    and n: "length (inorder (fm_root fm)) < n"
  shows "\<exists>fm'. initIterFM fm = Some fm' \<and> iterate_FM n fm' = Some (inorder (fm_root fm))"
proof -
  from initIterFM_pending [OF avl_height_bound [OF avl small]] obtain fm' where
    "initIterFM fm = Some fm'" "stack_ok WFM_STKMAX (fm_stack fm')" "pending (fm_stack fm') = inorder (fm_root fm)"
    by blast
  with iterate_pending [of fm' n] n show ?thesis by simp
qed

lemma find_node_unboxed: "avl_find_node_unboxed t k = avl_find_node cmp_unsigned_Words t k"
proof (induction t)
  case (Node rk rv l r b)
  have "drop_bit 63 (- 1 :: UWord) = 1" by (simp add: drop_bit_eq_div)
  moreover have "drop_bit 63 (1 :: UWord) = 0" by simp
  ultimately show ?case using Node by (simp add: cmp_unsigned_Words_def)
qed simp

lemma size_avl_nonNull_eq: "size_avl_nonNull t = word_of_nat (length (inorder t))"
  by (induction t) (simp_all add: algebra_simps)

section \<open>What the operations guarantee\<close>

definition sample_FM :: "(UWord, nat) WordFM" where
  "sample_FM = \<lparr>fm_root = Node 5 50 (Node 3 30 NULL NULL 0) (Node 9 90 NULL NULL 0) 0,
                fm_kCmp = cmp_unsigned_Words, fm_stack = []\<rparr>"

lemma sample_FM_inv: "fm_inv cmp_unsigned_Words (\<lambda>w. w) sample_FM"
  by (simp add: fm_inv_def bst_def sample_FM_def)

lemma sample_FM_lookup [simp]:
  "lookupFM sample_FM 5 = Some (5, 50)" "lookupFM sample_FM 4 = None"
  by (simp_all add: lookupFM_def sample_FM_def cmp_unsigned_Words_def)

lemma sample_FM_inorder: "inorder (fm_root sample_FM) = [(3, 30), (5, 50), (9, 90)]"
  by (simp add: sample_FM_def)

text \<open>
  C28.  \<^verbatim>\<open>VG_(addToFM)\<close> never fails an assertion on a balanced search tree, keeps it one, reports
  whether the key was bound, and changes exactly the binding of the given key; a key that was
  already there keeps its stored representative.
\<close>

theorem addToFM_correct:
  assumes "key_order kCmp rank" "fm_inv kCmp rank fm"
  shows "\<exists>fm'. addToFM fm k v = Some (lookupFM fm k \<noteq> None, fm') \<and> fm_inv kCmp rank fm' \<and>
           (\<forall>j. lookupFM fm' j =
                  (if rank j = rank k
                   then Some (case lookupFM fm k of None \<Rightarrow> k | Some (k0, _) \<Rightarrow> k0, v)
                   else lookupFM fm j))"
  using assms by (rule key_order.addToFM_lookup)

theorem addToFM_correct_witness:
  "\<exists>fm'. addToFM sample_FM 4 40 = Some (False, fm') \<and>
     lookupFM fm' 4 = Some (4, 40) \<and> lookupFM fm' 5 = Some (5, 50)"
  using addToFM_correct [OF unboxed.key_order_axioms sample_FM_inv, of 4 40] by force

text \<open>
  C29.  \<^verbatim>\<open>VG_(delFromFM)\<close> never fails an assertion on a balanced search tree (in particular the
  node it looked up is found again by \<^verbatim>\<open>avl_remove_wrk\<close>), keeps it one, returns the old binding
  and removes exactly that binding.
\<close>

theorem delFromFM_correct:
  assumes "key_order kCmp rank" "fm_inv kCmp rank fm"
  shows "\<exists>fm'. delFromFM fm k = Some (lookupFM fm k, fm') \<and> fm_inv kCmp rank fm' \<and>
           (\<forall>j. lookupFM fm' j = (if rank j = rank k then None else lookupFM fm j))"
  using assms by (rule key_order.delFromFM_lookup)

theorem delFromFM_correct_witness:
  "\<exists>fm'. delFromFM sample_FM 5 = Some (Some (5, 50), fm') \<and> lookupFM fm' 5 = None"
  using delFromFM_correct [OF unboxed.key_order_axioms sample_FM_inv, of 5] by force

text \<open>
  C30.  Starting an iteration at a key and calling \<^verbatim>\<open>VG_(nextIterFM)\<close> until it returns
  \<^verbatim>\<open>False\<close> delivers exactly the bindings whose key is not below the start key, each once and in
  increasing order of the keys, and no call overflows the iterator stack, as long as the map has
  fewer than 9,227,464 bindings.
\<close>


theorem iterate_from_correct:
  assumes "key_order kCmp rank" "fm_inv kCmp rank fm" "length (inorder (fm_root fm)) < 9227464"
    and "length (inorder (fm_root fm)) < n"
  shows "\<exists>fm' kvs. initIterAtFM fm k = Some fm' \<and> iterate_FM n fm' = Some kvs \<and>
           kvs = filter (\<lambda>p. \<not> rank (fst p) < rank k) (inorder (fm_root fm)) \<and>
           sorted_wrt (\<lambda>p q. rank (fst p) < rank (fst q)) kvs"
  using assms by (rule key_order.iterate_from)

theorem iterate_from_correct_witness:
  "\<exists>fm'. initIterAtFM sample_FM 4 = Some fm' \<and> iterate_FM 4 fm' = Some [(5, 50), (9, 90)]"
  using iterate_from_correct [OF unboxed.key_order_axioms sample_FM_inv, of 4 4]
  by (simp add: sample_FM_inorder)

text \<open>
  C34.  The bound on the size is sharp: there is a balanced search tree with exactly 9,227,464
  bindings on which the first \<^verbatim>\<open>VG_(nextIterFM)\<close> fails the assertion
  \<^verbatim>\<open>fm->stackTop < WFM_STKMAX\<close>, although the comment on the stack promises room for
  \<^verbatim>\<open>2**32\<close> entries.
\<close>

theorem iterator_stack_overflow:
  "\<exists>fm fm' :: (nat, unit) WordFM.
     fm_inv (\<lambda>a b. int a - int b) (\<lambda>n. n) fm \<and> length (inorder (fm_root fm)) = 9227464 \<and>
     initIterFM fm = Some fm' \<and> nextIterFM fm' = None"
proof -
  let ?t = "fib_tree 0 33"
  have t: "avl ?t" "map fst (inorder ?t) = [0 ..< 9227464]"
    using fib_tree_facts [of 0 33] by (simp_all add: min_avl_nodes_33)
  have len: "length (inorder ?t) = 9227464" using arg_cong [OF t(2), of length] by simp
  have "sorted_wrt (<) (map fst (inorder ?t))" unfolding t(2) by (rule sorted_wrt_upt)
  then have bst: "bst (\<lambda>n. n) ?t" by (simp add: bst_def sorted_wrt_map)
  obtain k v l r b where N: "?t = Node k v l r b" using fib_tree_facts [of 0 33] by (cases ?t) auto
  have "iter_case_1 [] ?t = None" by (rule fib_tree_overflow) (simp_all add: WFM_STKMAX_def)
  with N have o: "nextIter_loop [(?t, 1)] = None" by (simp del: iter_case_1.simps)
  let ?fm = "\<lparr>fm_root = ?t, fm_kCmp = (\<lambda>a b. int a - int b), fm_stack = []\<rparr>"
  have "initIterFM ?fm = Some (?fm\<lparr>fm_stack := [(?t, 1)]\<rparr>)"
    using N by (simp add: initIterFM_def stackPush_def WFM_STKMAX_def)
  moreover have "nextIterFM (?fm\<lparr>fm_stack := [(?t, 1)]\<rparr>) = None" using o by (simp add: nextIterFM_def)
  moreover have "fm_inv (\<lambda>a b. int a - int b) (\<lambda>n. n) ?fm" using t(1) bst by (simp add: fm_inv_def)
  ultimately show ?thesis using len by (intro exI [of _ ?fm] exI [of _ "?fm\<lparr>fm_stack := [(?t, 1)]\<rparr>"]) simp
qed

text \<open>
  C33.  \<^verbatim>\<open>VG_(findBoundsFM)\<close> returns \<^verbatim>\<open>False\<close> exactly for a key that is bound, and otherwise the
  nearest binding below and the nearest binding above it, with the caller's limits where there is
  none.
\<close>

theorem findBoundsFM_correct:
  assumes "key_order kCmp rank" "fm_inv kCmp rank fm"
  shows "findBoundsFM fm lower upper k =
           (if \<exists>p\<in>set (inorder (fm_root fm)). rank (fst p) = rank k then None
            else Some (last (lower # filter (\<lambda>p. rank (fst p) < rank k) (inorder (fm_root fm))),
                       hd (filter (\<lambda>p. rank k < rank (fst p)) (inorder (fm_root fm)) @ [upper])))"
  using key_order.find_bounds_spec [OF assms(1), of "fm_root fm"] assms(2)
  by (simp add: findBoundsFM_def fm_inv_def)

theorem findBoundsFM_correct_witness:
  "findBoundsFM sample_FM (0, 0) (100, 0) 4 = Some ((3, 30), (5, 50))"
  using findBoundsFM_correct [OF unboxed.key_order_axioms sample_FM_inv, of "(0, 0)" "(100, 0)" 4]
  by (simp add: sample_FM_inorder)

end
