(* ===== verification/VTS.thy ===== *)
theory VTS
  imports WordFM "HOL-Library.List_Lexorder" "HOL-Library.Product_Lexorder"
begin

text \<open>
  Vector timestamps of \<^verbatim>\<open>helgrind/libhb_core.c\<close> (section "vts primitives").  A timestamp is the
  array \<^verbatim>\<open>ts\<close> of its non-zero components, sorted by thread.  A \<^verbatim>\<open>Thr*\<close> is its address.  The model
  of \<^verbatim>\<open>VTS*\<close> arguments in this theory is the contents of \<^verbatim>\<open>vts->ts\<close>; the field \<^verbatim>\<open>id\<close> belongs to the
  table of timestamps.

  The theorems show that the operations are those of the lattice of functions from threads to
  counters that are zero almost everywhere: \<open>VTS__join\<close> is the pointwise maximum, \<open>VTS__cmp\<close>
  decides the pointwise order, \<open>VTS__tick\<close> increments one component, and
  \<open>VTS__cmp_structural\<close> is a total order that identifies equal functions only.
\<close>

section \<open>Data\<close>

type_synonym Thr_ptr = "64 word"

record ScalarTS =
  thr :: Thr_ptr
  tym :: ULong

type_synonym ts_array = "ScalarTS list"

datatype POrd = POrd_EQ | POrd_LT | POrd_GT | POrd_UN

fun is_sane_VTS :: "ts_array \<Rightarrow> bool" where
  "is_sane_VTS (st1 # st2 # ts) =
     (\<not> thr st1 \<ge> thr st2 \<and> \<not> (tym st1 = 0 \<or> tym st2 = 0) \<and> is_sane_VTS (st2 # ts))"
| "is_sane_VTS _ = True"

definition VTS__new :: ts_array where
  "VTS__new = []"

definition VTS__singleton :: "Thr_ptr \<Rightarrow> ULong \<Rightarrow> ts_array option" where
  "VTS__singleton t n = do { tl_assert (t \<noteq> 0); tl_assert (n \<ge> 1); Some (VTS__new @ [\<lparr>thr = t, tym = n\<rparr>]) }"

section \<open>Tick\<close>

text \<open>
  The main loop of \<^verbatim>\<open>VTS__tick\<close> and the statements after it.  The loop breaks at the first entry
  whose thread is not below \<^verbatim>\<open>me\<close>, and the rest is copied; when it reaches the end with
  \<^verbatim>\<open>here->thr < me\<close>, the new entry is appended.
\<close>

fun tick_loop :: "Thr_ptr \<Rightarrow> ts_array \<Rightarrow> ts_array" where
  "tick_loop me [] = []"
| "tick_loop me (here # rest) =
     (if me < thr here then \<lparr>thr = me, tym = 1\<rparr> # here # rest
      else if me = thr here then here\<lparr>tym := tym here + 1\<rparr> # rest
      else here # (if rest = [] then [\<lparr>thr = me, tym = 1\<rparr>] else tick_loop me rest))"

definition VTS__tick :: "Thr_ptr \<Rightarrow> ts_array \<Rightarrow> ts_array option" where
  "VTS__tick me vts =
     do {
       tl_assert (me \<noteq> 0);
       tl_assert (is_sane_VTS vts);
       let res = (if vts = [] then VTS__new @ [\<lparr>thr = me, tym = 1\<rparr>] else tick_loop me vts);
       tl_assert (is_sane_VTS res);
       Some res
     }"

section \<open>Join\<close>

text \<open>The end of the loop body of \<^verbatim>\<open>VTS__join\<close>: append the larger counter when it is not zero.\<close>

definition join_emit :: "Thr_ptr \<Rightarrow> ULong \<Rightarrow> ULong \<Rightarrow> ts_array \<Rightarrow> ts_array" where
  "join_emit t tyma tymb rest =
     (let tymMax = (if tyma > tymb then tyma else tymb) in
      if tymMax > 0 then \<lparr>thr = t, tym = tymMax\<rparr> # rest else rest)"

fun join_loop :: "ts_array \<Rightarrow> ts_array \<Rightarrow> ts_array" where
  "join_loop [] [] = []"
| "join_loop [] (tmpb # bs) = join_emit (thr tmpb) 0 (tym tmpb) (join_loop [] bs)"
| "join_loop (tmpa # as) [] = join_emit (thr tmpa) (tym tmpa) 0 (join_loop as [])"
| "join_loop (tmpa # as) (tmpb # bs) =
     (if thr tmpa < thr tmpb then join_emit (thr tmpa) (tym tmpa) 0 (join_loop as (tmpb # bs))
      else if thr tmpa > thr tmpb then join_emit (thr tmpb) 0 (tym tmpb) (join_loop (tmpa # as) bs)
      else join_emit (thr tmpa) (tym tmpa) (tym tmpb) (join_loop as bs))"

definition VTS__join :: "ts_array \<Rightarrow> ts_array \<Rightarrow> ts_array option" where
  "VTS__join a b = (let res = join_loop a b in do { tl_assert (is_sane_VTS res); Some res })"

section \<open>Comparison\<close>

text \<open>The flags \<^verbatim>\<open>all_leq\<close> and \<^verbatim>\<open>all_geq\<close> are the accumulators of the loop.\<close>

fun cmp_loop :: "bool \<Rightarrow> bool \<Rightarrow> ts_array \<Rightarrow> ts_array \<Rightarrow> bool \<times> bool" where
  "cmp_loop all_leq all_geq [] [] = (all_leq, all_geq)"
| "cmp_loop all_leq all_geq [] (tmpb # bs) =
     cmp_loop (all_leq \<and> \<not> 0 > tym tmpb) (all_geq \<and> \<not> 0 < tym tmpb) [] bs"
| "cmp_loop all_leq all_geq (tmpa # as) [] =
     cmp_loop (all_leq \<and> \<not> tym tmpa > 0) (all_geq \<and> \<not> tym tmpa < 0) as []"
| "cmp_loop all_leq all_geq (tmpa # as) (tmpb # bs) =
     (if thr tmpa < thr tmpb then
        cmp_loop (all_leq \<and> \<not> tym tmpa > 0) (all_geq \<and> \<not> tym tmpa < 0) as (tmpb # bs)
      else if thr tmpa > thr tmpb then
        cmp_loop (all_leq \<and> \<not> 0 > tym tmpb) (all_geq \<and> \<not> 0 < tym tmpb) (tmpa # as) bs
      else
        cmp_loop (all_leq \<and> \<not> tym tmpa > tym tmpb) (all_geq \<and> \<not> tym tmpa < tym tmpb) as bs)"

definition VTS__cmp :: "ts_array \<Rightarrow> ts_array \<Rightarrow> POrd" where
  "VTS__cmp a b =
     (let (all_leq, all_geq) = cmp_loop True True a b in
      if all_leq \<and> all_geq then POrd_EQ
      else if all_leq then POrd_LT
      else if all_geq then POrd_GT
      else POrd_UN)"

fun cmp_structural_loop :: "ts_array \<Rightarrow> ts_array \<Rightarrow> int" where
  "cmp_structural_loop (tmpa # as) (tmpb # bs) =
     (if tym tmpa < tym tmpb then -1
      else if tym tmpa > tym tmpb then 1
      else if thr tmpa < thr tmpb then -1
      else if thr tmpa > thr tmpb then 1
      else cmp_structural_loop as bs)"
| "cmp_structural_loop _ _ = 0"

definition VTS__cmp_structural :: "ts_array \<Rightarrow> ts_array \<Rightarrow> int" where
  "VTS__cmp_structural a b =
     (if length a < length b then -1
      else if length a > length b then 1
      else cmp_structural_loop a b)"

fun VTS__indexAt_SLOW :: "ts_array \<Rightarrow> Thr_ptr \<Rightarrow> ULong" where
  "VTS__indexAt_SLOW [] idx = 0"
| "VTS__indexAt_SLOW (st # ts) idx = (if thr st = idx then tym st else VTS__indexAt_SLOW ts idx)"

section \<open>The invariant and the meaning of a timestamp\<close>

definition wf_ts :: "ts_array \<Rightarrow> bool" where
  "wf_ts ts \<longleftrightarrow> sorted_wrt (\<lambda>s1 s2. thr s1 < thr s2) ts \<and> (\<forall>s\<in>set ts. tym s \<noteq> 0)"

lemma wf_ts_Nil [simp]: "wf_ts []"
  by (simp add: wf_ts_def)

lemma wf_ts_Cons: "wf_ts (s # ts) \<longleftrightarrow> tym s \<noteq> 0 \<and> (\<forall>s'\<in>set ts. thr s < thr s') \<and> wf_ts ts"
  by (auto simp: wf_ts_def)

lemma wf_is_sane: "wf_ts ts \<Longrightarrow> is_sane_VTS ts"
  by (induction ts rule: is_sane_VTS.induct) (auto simp: wf_ts_Cons)

lemma is_sane_wf: "is_sane_VTS ts \<Longrightarrow> length ts \<noteq> 1 \<Longrightarrow> wf_ts ts"
proof -
  have "is_sane_VTS ts \<Longrightarrow> length ts > 1 \<Longrightarrow> wf_ts ts"
  proof (induction ts rule: is_sane_VTS.induct)
    case (1 st1 st2 ts)
    show ?case
    proof (cases ts)
      case Nil
      with 1 show ?thesis by (auto simp: wf_ts_Cons)
    next
      case (Cons st3 ts')
      with 1 have "wf_ts (st2 # ts)" by auto
      with 1 show ?thesis by (auto simp: wf_ts_Cons intro: less_trans)
    qed
  qed auto
  then show "is_sane_VTS ts \<Longrightarrow> length ts \<noteq> 1 \<Longrightarrow> wf_ts ts" by (cases ts) auto
qed

lemma indexAt_notin: "t \<notin> thr ` set ts \<Longrightarrow> VTS__indexAt_SLOW ts t = 0"
  by (induction ts) auto

lemma indexAt_below: "\<forall>s\<in>set ts. t < thr s \<Longrightarrow> VTS__indexAt_SLOW ts t = 0"
  by (induction ts) auto

lemma indexAt_in: "wf_ts ts \<Longrightarrow> s \<in> set ts \<Longrightarrow> VTS__indexAt_SLOW ts (thr s) = tym s"
  by (induction ts) (auto simp: wf_ts_Cons)

lemma indexAt_pos_iff: "wf_ts ts \<Longrightarrow> VTS__indexAt_SLOW ts t \<noteq> 0 \<longleftrightarrow> t \<in> thr ` set ts"
  by (auto simp: indexAt_in wf_ts_def dest: indexAt_notin)

lemma wf_ts_ext:
  assumes "wf_ts a" "wf_ts b" "\<And>t. VTS__indexAt_SLOW a t = VTS__indexAt_SLOW b t"
  shows "a = b"
  using assms
proof (induction a arbitrary: b)
  case Nil
  then show ?case using indexAt_in [OF Nil.prems(2)] by (cases b) (force simp: wf_ts_Cons)+
next
  case (Cons x xs)
  have "b \<noteq> []" using Cons.prems(1) Cons.prems(3) [of "thr x"] by (auto simp: wf_ts_Cons)
  then obtain y ys where b: "b = y # ys" by (cases b) auto
  have x: "VTS__indexAt_SLOW xs t = 0" if "t \<le> thr x" for t
    using Cons.prems(1) that by (intro indexAt_below) (auto simp: wf_ts_Cons)
  have y: "VTS__indexAt_SLOW ys t = 0" if "t \<le> thr y" for t
    using Cons.prems(2) b that by (intro indexAt_below) (auto simp: wf_ts_Cons)
  have "tym x \<noteq> 0" "tym y \<noteq> 0" using Cons.prems b by (auto simp: wf_ts_Cons)
  with Cons.prems(3) [of "thr x"] Cons.prems(3) [of "thr y"] x y b
  have t: "thr x = thr y" by (auto split: if_splits) (metis linear)
  with Cons.prems(3) [of "thr x"] b have "tym x = tym y" by simp
  with t have "x = y" by simp
  have "VTS__indexAt_SLOW xs t = VTS__indexAt_SLOW ys t" for t
  proof (cases "t = thr x")
    case True
    with x y t show ?thesis by simp
  next
    case False
    with Cons.prems(3) [of t] b t show ?thesis by simp
  qed
  with Cons b \<open>x = y\<close> show ?case by (auto simp: wf_ts_Cons)
qed

section \<open>Tick\<close>

lemma tick_loop_thr: "ts \<noteq> [] \<Longrightarrow> thr ` set (tick_loop me ts) = insert me (thr ` set ts)"
  by (induction ts) auto

lemma tick_loop_spec:
  assumes "wf_ts ts" "ts \<noteq> []" "VTS__indexAt_SLOW ts me + 1 \<noteq> 0"
  shows "wf_ts (tick_loop me ts) \<and>
         VTS__indexAt_SLOW (tick_loop me ts) t =
           (if t = me then VTS__indexAt_SLOW ts me + 1 else VTS__indexAt_SLOW ts t)"
  using assms
proof (induction ts)
  case (Cons s ts)
  show ?case
  proof (cases "me \<le> thr s")
    case True
    then have "me < thr s \<Longrightarrow> VTS__indexAt_SLOW ts me = 0" 
      using Cons.prems by (intro indexAt_below) (auto simp: wf_ts_Cons)
    with Cons.prems True show ?thesis by (auto simp: wf_ts_Cons)
  next
    case False
    show ?thesis
    proof (cases "ts = []")
      case True
      with False Cons.prems show ?thesis by (auto simp: wf_ts_Cons)
    next
      case ne: False
      have "\<forall>s'\<in>set (tick_loop me ts). thr s < thr s'"
      proof
        fix s' assume "s' \<in> set (tick_loop me ts)"
        with tick_loop_thr [OF ne, of me] have "thr s' = me \<or> thr s' \<in> thr ` set ts" by blast
        with Cons.prems(1) False show "thr s < thr s'" by (auto simp: wf_ts_Cons)
      qed
      with ne False Cons show ?thesis by (auto simp: wf_ts_Cons)
    qed
  qed
qed simp

section \<open>Join\<close>

lemma join_loop_thr: "thr ` set (join_loop a b) \<subseteq> thr ` set a \<union> thr ` set b"
proof (induction a b rule: join_loop.induct)
  case (4 tmpa as tmpb bs)
  have e: "thr ` set ts \<subseteq> insert t A \<Longrightarrow> thr ` set (join_emit t x y ts) \<subseteq> insert t A" for t x y ts A
    by (auto simp: join_emit_def Let_def)
  consider "thr tmpa < thr tmpb" | "thr tmpa > thr tmpb" | "thr tmpa = thr tmpb" by force
  then show ?case
  proof cases
    case 1
    have "thr ` set (join_loop as (tmpb # bs)) \<subseteq> insert (thr tmpa) (thr ` set as \<union> thr ` set (tmpb # bs))"
      using "4.IH"(1) [OF 1] by (rule subset_insertI2)
    from e [OF this] 1 show ?thesis by (simp add: insert_commute)
  next
    case 2
    have sub: "thr ` set (join_loop (tmpa # as) bs) \<subseteq> insert (thr tmpb) (thr ` set (tmpa # as) \<union> thr ` set bs)"
      using 2 by (intro subset_insertI2 "4.IH"(2)) auto
    from 2 have "\<not> thr tmpa < thr tmpb" by simp
    with e [OF sub] 2 show ?thesis by (simp add: insert_commute)
  next
    case 3
    have "thr ` set (join_loop as bs) \<subseteq> insert (thr tmpa) (thr ` set as \<union> thr ` set bs)"
      using 3 by (intro subset_insertI2 "4.IH"(3)) auto
    from e [OF this] 3 show ?thesis by simp
  qed
qed (auto simp: join_emit_def Let_def)

lemma join_loop_above:
  "\<forall>s\<in>set a. t < thr s \<Longrightarrow> \<forall>s\<in>set b. t < thr s \<Longrightarrow> \<forall>s\<in>set (join_loop a b). t < thr s"
  using join_loop_thr [of a b] by fastforce

lemma wf_join_emit:
  "wf_ts rest \<Longrightarrow> \<forall>s\<in>set rest. t < thr s \<Longrightarrow> wf_ts (join_emit t x y rest)"
  by (auto simp: join_emit_def Let_def wf_ts_Cons)

lemma indexAt_join_emit:
  "\<forall>s\<in>set rest. t < thr s \<Longrightarrow>
   VTS__indexAt_SLOW (join_emit t x y rest) u = (if u = t then max x y else VTS__indexAt_SLOW rest u)"
  by (auto simp: join_emit_def Let_def max_def indexAt_below word_gt_0)

lemma join_loop_spec:
  assumes "wf_ts a" "wf_ts b"
  shows "wf_ts (join_loop a b) \<and>
         VTS__indexAt_SLOW (join_loop a b) t = max (VTS__indexAt_SLOW a t) (VTS__indexAt_SLOW b t)"
  using assms
proof (induction a b rule: join_loop.induct)
  case (2 tmpb bs)
  then have "\<forall>s\<in>set (join_loop [] bs). thr tmpb < thr s"
    by (intro join_loop_above) (auto simp: wf_ts_Cons)
  with 2 show ?case by (auto simp: wf_ts_Cons wf_join_emit indexAt_join_emit)
next
  case (3 tmpa as)
  then have "\<forall>s\<in>set (join_loop as []). thr tmpa < thr s"
    by (intro join_loop_above) (auto simp: wf_ts_Cons)
  with 3 show ?case by (auto simp: wf_ts_Cons wf_join_emit indexAt_join_emit)
next
  case (4 tmpa as tmpb bs)
  have up: "\<forall>s\<in>set as. thr tmpa < thr s" "\<forall>s\<in>set bs. thr tmpb < thr s"
    and wf: "wf_ts as" "wf_ts bs" using "4.prems" by (auto simp: wf_ts_Cons)
  consider "thr tmpa < thr tmpb" | "thr tmpa > thr tmpb" | "thr tmpa = thr tmpb" by force
  then show ?case
  proof cases
    case 1
    with up have "\<forall>s\<in>set (join_loop as (tmpb # bs)). thr tmpa < thr s"
      by (intro join_loop_above) auto
    moreover have "VTS__indexAt_SLOW bs (thr tmpa) = 0"
      using 1 up by (intro indexAt_below) auto
    ultimately show ?thesis using 1 "4.IH"(1) [OF 1 wf(1) "4.prems"(2)]
      by (auto simp: wf_join_emit indexAt_join_emit)
  next
    case 2
    with up have "\<forall>s\<in>set (join_loop (tmpa # as) bs). thr tmpb < thr s"
      by (intro join_loop_above) auto
    moreover have "VTS__indexAt_SLOW as (thr tmpb) = 0"
      using 2 up by (intro indexAt_below) auto
    ultimately show ?thesis using 2 "4.IH"(2) [OF _ 2 "4.prems"(1) wf(2)]
      by (auto simp: wf_join_emit indexAt_join_emit)
  next
    case 3
    with up have "\<forall>s\<in>set (join_loop as bs). thr tmpa < thr s"
      by (intro join_loop_above) auto
    with 3 "4.IH"(3) [OF _ _ wf] show ?thesis
      by (simp add: wf_join_emit indexAt_join_emit)
  qed
qed simp

section \<open>Comparison\<close>

text \<open>The pointwise order of two timestamps, split at the thread the loop has just consumed.\<close>

lemma indexAt_Cons: "VTS__indexAt_SLOW (s # ts) = (VTS__indexAt_SLOW ts)(thr s := tym s)"
  by auto

lemma upd_le_upd: "f(u := x) \<le> g(u := y) \<longleftrightarrow> x \<le> y \<and> (\<forall>t. t \<noteq> u \<longrightarrow> f t \<le> g t)"
  by (auto simp: le_fun_def)

lemma le_except: "f u \<le> g u \<Longrightarrow> f \<le> g \<longleftrightarrow> (\<forall>t. t \<noteq> u \<longrightarrow> f t \<le> g t)"
  by (metis le_fun_def)

lemma upd_le_step:
  fixes f g :: "Thr_ptr \<Rightarrow> ULong"
  assumes "f u = 0"
  shows "f(u := x) \<le> g(u := y) \<longleftrightarrow> x \<le> y \<and> f \<le> g"
  using le_except [of f u g] assms by (simp add: upd_le_upd)

lemma upd_le_left:
  fixes f g :: "Thr_ptr \<Rightarrow> ULong"
  assumes "f u = 0" "g u = 0"
  shows "f(u := x) \<le> g \<longleftrightarrow> x = 0 \<and> f \<le> g"
proof -
  have "g(u := 0) = g" using assms(2) by auto
  with upd_le_step [of f u x g 0] assms show ?thesis by simp
qed

lemma upd_le_right:
  fixes f g :: "Thr_ptr \<Rightarrow> ULong"
  assumes "f u = 0" "g u = 0"
  shows "f \<le> g(u := y) \<longleftrightarrow> f \<le> g"
proof -
  have "f(u := 0) = f" using assms(1) by auto
  with upd_le_step [of f u 0 g y] assms show ?thesis by simp
qed

lemma cmp_loop_spec:
  assumes "wf_ts a" "wf_ts b"
  shows "cmp_loop p q a b =
     (p \<and> VTS__indexAt_SLOW a \<le> VTS__indexAt_SLOW b, q \<and> VTS__indexAt_SLOW b \<le> VTS__indexAt_SLOW a)"
  using assms
proof (induction p q a b rule: cmp_loop.induct)
  case (1 p q)
  then show ?case by simp
next
  case (2 p q tmpb bs)
  then have z: "VTS__indexAt_SLOW bs (thr tmpb) = 0" "VTS__indexAt_SLOW [] (thr tmpb) = 0"
    by (auto intro: indexAt_below simp: wf_ts_Cons)
  have "wf_ts bs" using 2 by (simp add: wf_ts_Cons)
  with 2 upd_le_left [of "VTS__indexAt_SLOW bs" "thr tmpb" "VTS__indexAt_SLOW []"]
    upd_le_right [of "VTS__indexAt_SLOW []" "thr tmpb" "VTS__indexAt_SLOW bs"] z show ?case
    by (simp add: indexAt_Cons word_gt_0 del: VTS__indexAt_SLOW.simps fun_upd_apply)
next
  case (3 p q tmpa as)
  then have z: "VTS__indexAt_SLOW as (thr tmpa) = 0" "VTS__indexAt_SLOW [] (thr tmpa) = 0"
    by (auto intro: indexAt_below simp: wf_ts_Cons)
  have "wf_ts as" using 3 by (simp add: wf_ts_Cons)
  with 3 upd_le_left [of "VTS__indexAt_SLOW as" "thr tmpa" "VTS__indexAt_SLOW []"]
    upd_le_right [of "VTS__indexAt_SLOW []" "thr tmpa" "VTS__indexAt_SLOW as"] z show ?case
    by (simp add: indexAt_Cons word_gt_0 del: VTS__indexAt_SLOW.simps fun_upd_apply)
next
  case (4 p q tmpa as tmpb bs)
  let ?at = VTS__indexAt_SLOW
  have up: "\<forall>s\<in>set as. thr tmpa < thr s" "\<forall>s\<in>set bs. thr tmpb < thr s"
    and wf: "wf_ts as" "wf_ts bs" using "4.prems" by (auto simp: wf_ts_Cons)
  then have z: "?at as (thr tmpa) = 0" "?at bs (thr tmpb) = 0" by (auto intro: indexAt_below)
  consider "thr tmpa < thr tmpb" | "thr tmpa > thr tmpb" | "thr tmpa = thr tmpb" by force
  then show ?case
  proof cases
    case 1
    with up have "?at (tmpb # bs) (thr tmpa) = 0" by (intro indexAt_below) auto
    with z have "?at (tmpa # as) \<le> ?at (tmpb # bs) \<longleftrightarrow> tym tmpa = 0 \<and> ?at as \<le> ?at (tmpb # bs)"
      "?at (tmpb # bs) \<le> ?at (tmpa # as) \<longleftrightarrow> ?at (tmpb # bs) \<le> ?at as"
      unfolding indexAt_Cons [of tmpa] by (simp_all only: upd_le_left upd_le_right)
    with 1 "4.IH"(1) [OF 1 wf(1) "4.prems"(2)] show ?thesis
      by (auto simp: word_gt_0 simp del: VTS__indexAt_SLOW.simps)
  next
    case 2
    with up have "?at (tmpa # as) (thr tmpb) = 0" by (intro indexAt_below) auto
    with z have "?at (tmpb # bs) \<le> ?at (tmpa # as) \<longleftrightarrow> tym tmpb = 0 \<and> ?at bs \<le> ?at (tmpa # as)"
      "?at (tmpa # as) \<le> ?at (tmpb # bs) \<longleftrightarrow> ?at (tmpa # as) \<le> ?at bs"
      unfolding indexAt_Cons [of tmpb] by (simp_all only: upd_le_left upd_le_right)
    with 2 "4.IH"(2) [OF _ 2 "4.prems"(1) wf(2)] show ?thesis
      by (auto simp: word_gt_0 simp del: VTS__indexAt_SLOW.simps)
  next
    case 3
    with z have "?at (tmpa # as) \<le> ?at (tmpb # bs) \<longleftrightarrow> tym tmpa \<le> tym tmpb \<and> ?at as \<le> ?at bs"
      "?at (tmpb # bs) \<le> ?at (tmpa # as) \<longleftrightarrow> tym tmpb \<le> tym tmpa \<and> ?at bs \<le> ?at as"
      unfolding indexAt_Cons by (simp_all only: upd_le_step)
    with 3 "4.IH"(3) [OF _ _ wf] show ?thesis
      by (simp add: not_less del: VTS__indexAt_SLOW.simps)
  qed
qed

lemma VTS__cmp_spec:
  assumes "wf_ts a" "wf_ts b"
  shows "VTS__cmp a b =
     (if a = b then POrd_EQ
      else if VTS__indexAt_SLOW a \<le> VTS__indexAt_SLOW b then POrd_LT
      else if VTS__indexAt_SLOW b \<le> VTS__indexAt_SLOW a then POrd_GT
      else POrd_UN)"
proof -
  have "VTS__indexAt_SLOW a \<le> VTS__indexAt_SLOW b \<and> VTS__indexAt_SLOW b \<le> VTS__indexAt_SLOW a \<longleftrightarrow> a = b"
    using wf_ts_ext [OF assms] by (metis order_antisym order_refl)
  then show ?thesis by (auto simp: VTS__cmp_def cmp_loop_spec [OF assms])
qed

definition structural_rank :: "ts_array \<Rightarrow> nat \<times> (ULong \<times> Thr_ptr) list" where
  "structural_rank ts = (length ts, map (\<lambda>s. (tym s, thr s)) ts)"

lemma cmp_structural_loop_spec:
  "length a = length b \<Longrightarrow>
   (cmp_structural_loop a b < 0 \<longleftrightarrow> map (\<lambda>s. (tym s, thr s)) a < map (\<lambda>s. (tym s, thr s)) b) \<and>
   (0 < cmp_structural_loop a b \<longleftrightarrow> map (\<lambda>s. (tym s, thr s)) b < map (\<lambda>s. (tym s, thr s)) a)"
  by (induction a b rule: cmp_structural_loop.induct) (auto simp: less_prod_def')

lemma structural_rank_inj: "structural_rank a = structural_rank b \<Longrightarrow> a = b"
  by (auto simp: structural_rank_def inj_on_def elim!: inj_map_eq_map [THEN iffD1, rotated])

interpretation structural: key_order VTS__cmp_structural structural_rank
proof (unfold_locales, goal_cases)
  case (1 x y)
  show ?case using cmp_structural_loop_spec [of x y]
    by (auto simp: VTS__cmp_structural_def structural_rank_def less_prod_def' not_less_iff_gr_or_eq)
next
  case (2 x y)
  show ?case using cmp_structural_loop_spec [of x y]
    by (auto simp: VTS__cmp_structural_def structural_rank_def less_prod_def' not_less_iff_gr_or_eq)
qed

section \<open>Main results\<close>

definition vts_leq :: "ts_array \<Rightarrow> ts_array \<Rightarrow> bool" where
  "vts_leq a b \<longleftrightarrow> VTS__cmp a b = POrd_LT \<or> VTS__cmp a b = POrd_EQ"

lemma vts_leq_iff:
  "wf_ts a \<Longrightarrow> wf_ts b \<Longrightarrow> vts_leq a b \<longleftrightarrow> (\<forall>t. VTS__indexAt_SLOW a t \<le> VTS__indexAt_SLOW b t)"
  by (auto simp: vts_leq_def VTS__cmp_spec le_fun_def)

lemma VTS__join_spec:
  assumes "wf_ts a" "wf_ts b"
  shows "\<exists>r. VTS__join a b = Some r \<and> wf_ts r \<and>
           (\<forall>t. VTS__indexAt_SLOW r t = max (VTS__indexAt_SLOW a t) (VTS__indexAt_SLOW b t))"
  using join_loop_spec [OF assms] by (auto simp: VTS__join_def wf_is_sane)

lemma VTS__tick_spec:
  assumes "wf_ts vts" "me \<noteq> 0" "VTS__indexAt_SLOW vts me \<noteq> - 1"
  shows "\<exists>r. VTS__tick me vts = Some r \<and> wf_ts r \<and>
           (\<forall>t. VTS__indexAt_SLOW r t = (if t = me then VTS__indexAt_SLOW vts me + 1 else VTS__indexAt_SLOW vts t))"
proof (cases "vts = []")
  case True
  with assms show ?thesis by (auto simp: VTS__tick_def VTS__new_def wf_ts_Cons)
next
  case False
  from incr_no_wrap [OF assms(3)] have "VTS__indexAt_SLOW vts me + 1 \<noteq> 0" by blast
  from tick_loop_spec [OF assms(1) False this] assms False show ?thesis
    by (auto simp: VTS__tick_def wf_is_sane)
qed

text \<open>
  C11.  The join of two well-formed timestamps exists (the final sanity assertion holds), is
  well formed, is an upper bound of both in the order that \<^verbatim>\<open>VTS__cmp\<close> decides, and is below every
  other upper bound.
\<close>

theorem VTS__join_least_upper_bound:
  assumes "wf_ts a" "wf_ts b"
  shows "\<exists>r. VTS__join a b = Some r \<and> wf_ts r \<and> vts_leq a r \<and> vts_leq b r \<and>
           (\<forall>c. wf_ts c \<and> vts_leq a c \<and> vts_leq b c \<longrightarrow> vts_leq r c)"
  using VTS__join_spec [OF assms] assms by (auto simp: vts_leq_iff)

theorem VTS__join_least_upper_bound_witness:
  "\<exists>r. VTS__join [\<lparr>thr = 8, tym = 3\<rparr>] [\<lparr>thr = 8, tym = 1\<rparr>, \<lparr>thr = 16, tym = 2\<rparr>] = Some r \<and> wf_ts r \<and>
       vts_leq [\<lparr>thr = 8, tym = 3\<rparr>] r"
  using VTS__join_least_upper_bound [of "[\<lparr>thr = 8, tym = 3\<rparr>]" "[\<lparr>thr = 8, tym = 1\<rparr>, \<lparr>thr = 16, tym = 2\<rparr>]"]
  by (simp add: wf_ts_Cons) blast

text \<open>
  C12.  \<^verbatim>\<open>VTS__cmp\<close> decides the happens-before order of well-formed timestamps: it compares the
  counters of all threads pointwise, with an absent thread counting as zero, and answers
  \<^verbatim>\<open>POrd_EQ\<close> exactly for identical timestamps and \<^verbatim>\<open>POrd_UN\<close> exactly for concurrent ones.
\<close>

theorem VTS__cmp_correct:
  assumes "wf_ts a" "wf_ts b"
  shows "VTS__cmp a b =
     (if a = b then POrd_EQ
      else if \<forall>t. VTS__indexAt_SLOW a t \<le> VTS__indexAt_SLOW b t then POrd_LT
      else if \<forall>t. VTS__indexAt_SLOW b t \<le> VTS__indexAt_SLOW a t then POrd_GT
      else POrd_UN)"
  using VTS__cmp_spec [OF assms] by (simp add: le_fun_def)

theorem VTS__cmp_correct_witness:
  "VTS__cmp [\<lparr>thr = 8, tym = 3\<rparr>] [\<lparr>thr = 16, tym = 2\<rparr>] = POrd_UN"
proof -
  have "\<not> (\<forall>t. VTS__indexAt_SLOW [\<lparr>thr = 8, tym = 3\<rparr>] t \<le> VTS__indexAt_SLOW [\<lparr>thr = 16, tym = 2\<rparr>] t)"
    "\<not> (\<forall>t. VTS__indexAt_SLOW [\<lparr>thr = 16, tym = 2\<rparr>] t \<le> VTS__indexAt_SLOW [\<lparr>thr = 8, tym = 3\<rparr>] t)"
    by (auto intro: exI [of _ 8] exI [of _ 16])
  with VTS__cmp_correct [of "[\<lparr>thr = 8, tym = 3\<rparr>]" "[\<lparr>thr = 16, tym = 2\<rparr>]"] show ?thesis
    by (simp add: wf_ts_Cons del: VTS__indexAt_SLOW.simps)
qed

text \<open>
  C31.  A tick of a well-formed timestamp passes both sanity assertions, is well formed and
  increments the counter of the given thread only, unless that counter is already \<^verbatim>\<open>2^64 - 1\<close>.
\<close>

theorem VTS__tick_correct:
  assumes "wf_ts vts" "me \<noteq> 0" "VTS__indexAt_SLOW vts me \<noteq> - 1"
  shows "\<exists>r. VTS__tick me vts = Some r \<and> wf_ts r \<and> VTS__cmp vts r = POrd_LT \<and>
           (\<forall>t. VTS__indexAt_SLOW r t = (if t = me then VTS__indexAt_SLOW vts me + 1 else VTS__indexAt_SLOW vts t))"
proof -
  from VTS__tick_spec [OF assms] obtain r where r: "VTS__tick me vts = Some r" "wf_ts r"
    "\<forall>t. VTS__indexAt_SLOW r t = (if t = me then VTS__indexAt_SLOW vts me + 1 else VTS__indexAt_SLOW vts t)"
    by blast
  from r(3) incr_no_wrap [OF assms(3)] have "VTS__indexAt_SLOW vts me \<noteq> VTS__indexAt_SLOW r me"
    "VTS__indexAt_SLOW vts \<le> VTS__indexAt_SLOW r"
    by (auto simp: le_fun_def spec [of _ me])
  then have "vts \<noteq> r" "VTS__indexAt_SLOW vts \<le> VTS__indexAt_SLOW r" by auto
  with r VTS__cmp_spec [OF assms(1) r(2)] show ?thesis by auto
qed

theorem VTS__tick_correct_witness:
  "\<exists>r. VTS__tick 16 [\<lparr>thr = 8, tym = 3\<rparr>] = Some r \<and> wf_ts r \<and> VTS__indexAt_SLOW r 16 = 1"
  using VTS__tick_correct [of "[\<lparr>thr = 8, tym = 3\<rparr>]" 16] by (auto simp: wf_ts_Cons)

end
