(* ===== verification/VtsTable.thy ===== *)
theory VtsTable
  imports VTS
begin

text \<open>
  The set and the table of vector timestamps of \<^verbatim>\<open>helgrind/libhb_core.c\<close> ("VTS set", "VTS table",
  "Vts IDs").  Timestamps are hash-consed: \<^verbatim>\<open>vts_set\<close> finds an existing equal timestamp,
  \<^verbatim>\<open>vts_tab\<close> gives each a small number, its \<^verbatim>\<open>VtsID\<close>, with a reference count; unused entries are
  chained in a free list.

  A \<^verbatim>\<open>VTS*\<close> is modelled by its address together with the array \<^verbatim>\<open>ts\<close> it leads to, which no code
  changes once the timestamp is built; the mutable field \<^verbatim>\<open>id\<close> lives in \<open>vts_heap\<close>, which is
  \<^term>\<open>None\<close> outside allocated objects.  \<^verbatim>\<open>HG_(zalloc)\<close> never fails; a fresh object gets a fresh
  address.
\<close>

section \<open>State\<close>

type_synonym VtsID = UInt

definition VtsID_INVALID :: VtsID where
  "VtsID_INVALID = 0xFFFFFFFF"

record VTS_ptr =
  vp_addr :: nat
  vp_ts :: ts_array

record VtsTE =
  te_vts :: "VTS_ptr option"
  te_rc :: UWord
  te_freelink :: VtsID

type_synonym ordering_entry = "VtsID \<times> VtsID \<times> POrd option"
type_synonym join_entry = "VtsID \<times> VtsID \<times> VtsID"

record vts_state =
  vts_heap :: "nat \<Rightarrow> VtsID option"
  vts_brk :: nat
  vts_set :: "(VTS_ptr, UWord) WordFM"
  vts_tab :: "VtsTE list"
  vts_tab_freelist :: VtsID
  vts_next_GC_at :: int
  getOrdering_cache :: "ordering_entry list"
  join2_cache :: "join_entry list"

definition VTS__cmp_structural_ptr :: "VTS_ptr \<Rightarrow> VTS_ptr \<Rightarrow> int" where
  "VTS__cmp_structural_ptr p q = VTS__cmp_structural (vp_ts p) (vp_ts q)"

definition N_GETORDERING_CACHE :: nat where
  "N_GETORDERING_CACHE = 1023"

definition N_JOIN2_CACHE :: nat where
  "N_JOIN2_CACHE = 1023"

definition VtsID__invalidate_caches :: "vts_state \<Rightarrow> vts_state" where
  "VtsID__invalidate_caches st =
     st\<lparr>getOrdering_cache := replicate N_GETORDERING_CACHE (VtsID_INVALID, VtsID_INVALID, None),
        join2_cache := replicate N_JOIN2_CACHE (VtsID_INVALID, VtsID_INVALID, VtsID_INVALID)\<rparr>"

text \<open>The state after \<^verbatim>\<open>vts_set_init\<close>, \<^verbatim>\<open>vts_tab_init\<close> and \<^verbatim>\<open>VtsID__invalidate_caches\<close>.\<close>

definition vts_init :: vts_state where
  "vts_init = VtsID__invalidate_caches
     \<lparr>vts_heap = (\<lambda>_. None), vts_brk = 0, vts_set = newFM VTS__cmp_structural_ptr, vts_tab = [],
      vts_tab_freelist = VtsID_INVALID, vts_next_GC_at = 1000, getOrdering_cache = [], join2_cache = []\<rparr>"

section \<open>Allocation, the set and the free list\<close>

definition alloc_VTS :: "ts_array \<Rightarrow> vts_state \<Rightarrow> VTS_ptr \<times> vts_state" where
  "alloc_VTS ts st =
     (\<lparr>vp_addr = vts_brk st, vp_ts = ts\<rparr>,
      st\<lparr>vts_heap := (vts_heap st)(vts_brk st := Some VtsID_INVALID), vts_brk := Suc (vts_brk st)\<rparr>)"

definition VTS__delete :: "VTS_ptr \<Rightarrow> vts_state \<Rightarrow> vts_state option" where
  "VTS__delete p st =
     do { _ \<leftarrow> vts_heap st (vp_addr p); Some (st\<lparr>vts_heap := (vts_heap st)(vp_addr p := None)\<rparr>) }"

definition vts_set__find_and_dealloc__or_add :: "VTS_ptr \<Rightarrow> vts_state \<Rightarrow> (VTS_ptr \<times> vts_state) option" where
  "vts_set__find_and_dealloc__or_add cand st =
     (case lookupFM (vts_set st) cand of
        Some (keyW, valW) \<Rightarrow>
          do {
            tl_assert (valW = 0);
            tl_assert (vp_addr keyW \<noteq> vp_addr cand);
            st' \<leftarrow> VTS__delete cand st;
            Some (keyW, st')
          }
      | None \<Rightarrow> do { (_, fm) \<leftarrow> addToFM (vts_set st) cand 0; Some (cand, st\<lparr>vts_set := fm\<rparr>) })"

definition add_to_free_list :: "VtsID \<Rightarrow> vts_state \<Rightarrow> vts_state option" where
  "add_to_free_list ii st =
     do {
       ie \<leftarrow> index_opt (vts_tab st) (unat ii);
       tl_assert (te_vts ie = None);
       tl_assert (te_rc ie = 0);
       tl_assert (te_freelink ie = VtsID_INVALID);
       Some (st\<lparr>vts_tab := (vts_tab st)[unat ii := ie\<lparr>te_freelink := vts_tab_freelist st\<rparr>],
                vts_tab_freelist := ii\<rparr>)
     }"

definition get_from_free_list :: "vts_state \<Rightarrow> (VtsID \<times> vts_state) option" where
  "get_from_free_list st =
     (if vts_tab_freelist st = VtsID_INVALID then Some (VtsID_INVALID, st)
      else
        do {
          let ii = vts_tab_freelist st;
          ie \<leftarrow> index_opt (vts_tab st) (unat ii);
          tl_assert (te_vts ie = None);
          tl_assert (te_rc ie = 0);
          Some (ii, st\<lparr>vts_tab_freelist := te_freelink ie\<rparr>)
        })"

text \<open>\<^verbatim>\<open>VG_(addToXA)\<close> returns the index of the new element, cut down to a \<^verbatim>\<open>VtsID\<close>.\<close>

definition get_new_VtsID :: "vts_state \<Rightarrow> (VtsID \<times> vts_state) option" where
  "get_new_VtsID st =
     do {
       (ii, st) \<leftarrow> get_from_free_list st;
       if ii \<noteq> VtsID_INVALID then Some (ii, st)
       else
         let te = \<lparr>te_vts = None, te_rc = 0, te_freelink = VtsID_INVALID\<rparr> in
         Some (word_of_nat (length (vts_tab st)), st\<lparr>vts_tab := vts_tab st @ [te]\<rparr>)
     }"

section \<open>Reference counts\<close>

definition VtsID__rcinc :: "VtsID \<Rightarrow> vts_state \<Rightarrow> vts_state option" where
  "VtsID__rcinc ii st =
     do {
       ie \<leftarrow> index_opt (vts_tab st) (unat ii);
       vts \<leftarrow> te_vts ie;
       tl_assert (te_rc ie < 0xFFFFFFFFFFFFFFFF);
       id \<leftarrow> vts_heap st (vp_addr vts);
       tl_assert (id = ii);
       Some (st\<lparr>vts_tab := (vts_tab st)[unat ii := ie\<lparr>te_rc := te_rc ie + 1\<rparr>]\<rparr>)
     }"

definition VtsID__rcdec :: "VtsID \<Rightarrow> vts_state \<Rightarrow> vts_state option" where
  "VtsID__rcdec ii st =
     do {
       ie \<leftarrow> index_opt (vts_tab st) (unat ii);
       vts \<leftarrow> te_vts ie;
       tl_assert (te_rc ie > 0);
       id \<leftarrow> vts_heap st (vp_addr vts);
       tl_assert (id = ii);
       Some (st\<lparr>vts_tab := (vts_tab st)[unat ii := ie\<lparr>te_rc := te_rc ie - 1\<rparr>]\<rparr>)
     }"

definition vts_tab__find_and_dealloc__or_add :: "VTS_ptr \<Rightarrow> vts_state \<Rightarrow> (VtsID \<times> vts_state) option" where
  "vts_tab__find_and_dealloc__or_add cand st =
     do {
       cid \<leftarrow> vts_heap st (vp_addr cand);
       tl_assert (cid = VtsID_INVALID);
       (auld, st) \<leftarrow> vts_set__find_and_dealloc__or_add cand st;
       if vp_addr auld \<noteq> vp_addr cand then
         do {
           aid \<leftarrow> vts_heap st (vp_addr auld);
           tl_assert (aid \<noteq> VtsID_INVALID);
           ie \<leftarrow> index_opt (vts_tab st) (unat aid);
           tl_assert (te_vts ie = Some auld);
           Some (aid, st)
         }
       else
         do {
           (ii, st) \<leftarrow> get_new_VtsID st;
           ie \<leftarrow> index_opt (vts_tab st) (unat ii);
           Some (ii, st\<lparr>vts_tab := (vts_tab st)[unat ii :=
                          ie\<lparr>te_vts := Some cand, te_rc := 0, te_freelink := VtsID_INVALID\<rparr>],
                        vts_heap := (vts_heap st)(vp_addr cand := Some ii)\<rparr>)
         }
     }"

section \<open>Garbage collection\<close>

text \<open>
  One round of the loop of \<^verbatim>\<open>vts_tab__do_GC\<close>; the flag says whether an entry was freed.
\<close>

definition gc_entry :: "nat \<Rightarrow> vts_state \<Rightarrow> (bool \<times> vts_state) option" where
  "gc_entry i st =
     do {
       te \<leftarrow> index_opt (vts_tab st) i;
       (case te_vts te of
          None \<Rightarrow> do { tl_assert (te_rc te = 0); Some (False, st) }
        | Some vts \<Rightarrow>
            if te_rc te > 0 then Some (False, st)
            else
              do {
                id \<leftarrow> vts_heap st (vp_addr vts);
                tl_assert (unat id = i);
                (present, fm) \<leftarrow> delFromFM (vts_set st) vts;
                (oldK, oldV) \<leftarrow> present;
                tl_assert (oldV = 0);
                tl_assert (oldK = vts);
                st \<leftarrow> VTS__delete vts (st\<lparr>vts_set := fm\<rparr>);
                let te = te\<lparr>te_vts := None\<rparr>;
                tl_assert (te_freelink te = VtsID_INVALID);
                st \<leftarrow> add_to_free_list (word_of_nat i) (st\<lparr>vts_tab := (vts_tab st)[i := te]\<rparr>);
                Some (True, st)
              })
     }"

fun gc_loop :: "nat list \<Rightarrow> nat \<Rightarrow> vts_state \<Rightarrow> (nat \<times> vts_state) option" where
  "gc_loop [] nFreed st = Some (nFreed, st)"
| "gc_loop (i # is) nFreed st =
     do { (freed, st) \<leftarrow> gc_entry i st; gc_loop is (if freed then Suc nFreed else nFreed) st }"

text \<open>
  The parts of \<^verbatim>\<open>vts_tab__do_GC\<close> before and after its call of \<^verbatim>\<open>zsm_flush_cache\<close>, which belongs to the
  shadow memory.
\<close>

definition vts_tab__do_GC_begin :: "vts_state \<Rightarrow> vts_state option" where
  "vts_tab__do_GC_begin st =
     do { tl_assert (vts_tab_freelist st = VtsID_INVALID); Some (VtsID__invalidate_caches st) }"

definition vts_tab__do_GC_sweep :: "vts_state \<Rightarrow> vts_state option" where
  "vts_tab__do_GC_sweep st =
     do {
       let nTab = length (vts_tab st);
       (nFreed, st) \<leftarrow> gc_loop [0..<nTab] 0 st;
       tl_assert (nFreed \<le> nTab);
       let nLive = nTab - nFreed;
       let next = 2 * int nLive;
       Some (st\<lparr>vts_next_GC_at := (if next < int nTab then int nTab else next)\<rparr>)
     }"

section \<open>Operations on identifiers\<close>

definition ROL32 :: "UInt \<Rightarrow> nat \<Rightarrow> UInt" where
  "ROL32 w n = (push_bit n w) OR (drop_bit (32 - n) w)"

definition hash_VtsIDs :: "VtsID \<Rightarrow> VtsID \<Rightarrow> UInt \<Rightarrow> UInt" where
  "hash_VtsIDs vi1 vi2 nTab = (ROL32 vi1 19 XOR ROL32 vi2 13) mod nTab"

definition VtsID__to_VTS :: "VtsID \<Rightarrow> vts_state \<Rightarrow> VTS_ptr option" where
  "VtsID__to_VTS vi st = do { te \<leftarrow> index_opt (vts_tab st) (unat vi); te_vts te }"

definition VtsID__getOrdering_WRK :: "VtsID \<Rightarrow> VtsID \<Rightarrow> vts_state \<Rightarrow> (POrd \<times> vts_state) option" where
  "VtsID__getOrdering_WRK vi1 vi2 st =
     do {
       tl_assert (vi1 \<noteq> vi2);
       let hash = unat (hash_VtsIDs vi1 vi2 (of_nat N_GETORDERING_CACHE));
       (c1, c2, cord) \<leftarrow> index_opt (getOrdering_cache st) hash;
       if c1 = vi1 \<and> c2 = vi2 then do { ord \<leftarrow> cord; Some (ord, st) }
       else
         do {
           v1 \<leftarrow> VtsID__to_VTS vi1 st;
           v2 \<leftarrow> VtsID__to_VTS vi2 st;
           let ord = VTS__cmp (vp_ts v1) (vp_ts v2);
           Some (ord, st\<lparr>getOrdering_cache := (getOrdering_cache st)[hash := (vi1, vi2, Some ord)]\<rparr>)
         }
     }"

definition VtsID__getOrdering :: "VtsID \<Rightarrow> VtsID \<Rightarrow> vts_state \<Rightarrow> (POrd \<times> vts_state) option" where
  "VtsID__getOrdering vi1 vi2 st =
     (if vi1 = vi2 then Some (POrd_EQ, st) else VtsID__getOrdering_WRK vi1 vi2 st)"

definition VtsID__join2_WRK :: "VtsID \<Rightarrow> VtsID \<Rightarrow> vts_state \<Rightarrow> (VtsID \<times> vts_state) option" where
  "VtsID__join2_WRK vi1 vi2 st =
     do {
       tl_assert (vi1 \<noteq> vi2);
       let hash = unat (hash_VtsIDs vi1 vi2 (of_nat N_JOIN2_CACHE));
       (c1, c2, cres) \<leftarrow> index_opt (join2_cache st) hash;
       if c1 = vi1 \<and> c2 = vi2 then Some (cres, st)
       else
         do {
           vts1 \<leftarrow> VtsID__to_VTS vi1 st;
           vts2 \<leftarrow> VtsID__to_VTS vi2 st;
           ts \<leftarrow> VTS__join (vp_ts vts1) (vp_ts vts2);
           let (nyu, st) = alloc_VTS ts st;
           (res, st) \<leftarrow> vts_tab__find_and_dealloc__or_add nyu st;
           Some (res, st\<lparr>join2_cache := (join2_cache st)[hash := (vi1, vi2, res)]\<rparr>)
         }
     }"

definition VtsID__join2 :: "VtsID \<Rightarrow> VtsID \<Rightarrow> vts_state \<Rightarrow> (VtsID \<times> vts_state) option" where
  "VtsID__join2 vi1 vi2 st = (if vi1 = vi2 then Some (vi1, st) else VtsID__join2_WRK vi1 vi2 st)"

definition VtsID__mk_Singleton :: "Thr_ptr \<Rightarrow> ULong \<Rightarrow> vts_state \<Rightarrow> (VtsID \<times> vts_state) option" where
  "VtsID__mk_Singleton t n st =
     do {
       ts \<leftarrow> VTS__singleton t n;
       let (nyu, st) = alloc_VTS ts st;
       vts_tab__find_and_dealloc__or_add nyu st
     }"

definition VtsID__tick :: "VtsID \<Rightarrow> Thr_ptr \<Rightarrow> vts_state \<Rightarrow> (VtsID \<times> vts_state) option" where
  "VtsID__tick vi idx st =
     do {
       vts \<leftarrow> VtsID__to_VTS vi st;
       ts \<leftarrow> VTS__tick idx (vp_ts vts);
       let (nyu, st) = alloc_VTS ts st;
       vts_tab__find_and_dealloc__or_add nyu st
     }"

definition VtsID__indexAt :: "VtsID \<Rightarrow> Thr_ptr \<Rightarrow> vts_state \<Rightarrow> ULong option" where
  "VtsID__indexAt vi idx st = do { vts \<leftarrow> VtsID__to_VTS vi st; Some (VTS__indexAt_SLOW (vp_ts vts) idx) }"

section \<open>The table invariant\<close>

abbreviation set_rank :: "VTS_ptr \<Rightarrow> nat \<times> (ULong \<times> Thr_ptr) list" where
  "set_rank p \<equiv> structural_rank (vp_ts p)"

interpretation set_order: key_order VTS__cmp_structural_ptr set_rank
  by unfold_locales
    (simp_all add: VTS__cmp_structural_ptr_def structural.kCmp_neg structural.kCmp_pos)

lemma set_rank_eq: "set_rank p = set_rank q \<longleftrightarrow> vp_ts p = vp_ts q"
  using structural_rank_inj by auto

text \<open>The timestamp and the reference count of an identifier.\<close>

definition vts_at :: "vts_state \<Rightarrow> VtsID \<Rightarrow> ts_array option" where
  "vts_at st vi = map_option vp_ts (VtsID__to_VTS vi st)"

definition vts_rc :: "vts_state \<Rightarrow> VtsID \<Rightarrow> UWord" where
  "vts_rc st vi = (if unat vi < length (vts_tab st) then te_rc (vts_tab st ! unat vi) else 0)"

fun free_chain :: "VtsTE list \<Rightarrow> VtsID \<Rightarrow> nat list \<Rightarrow> bool" where
  "free_chain tab h [] = (h = VtsID_INVALID)"
| "free_chain tab h (i # is) =
     (h \<noteq> VtsID_INVALID \<and> unat h = i \<and> i < length tab \<and> free_chain tab (te_freelink (tab ! i)) is)"

definition free_ok :: "VtsTE list \<Rightarrow> VtsID \<Rightarrow> nat set \<Rightarrow> bool" where
  "free_ok tab h X \<longleftrightarrow> (\<exists>fl. free_chain tab h fl \<and> distinct fl \<and> set fl \<inter> X = {} \<and>
     (\<forall>i<length tab. te_vts (tab ! i) = None \<longleftrightarrow> i \<in> set fl \<union> X))"

definition entry_ok :: "vts_state \<Rightarrow> nat \<Rightarrow> VtsTE \<Rightarrow> bool" where
  "entry_ok st i te = (case te_vts te of
       None \<Rightarrow> te_rc te = 0
     | Some p \<Rightarrow> wf_ts (vp_ts p) \<and> vts_heap st (vp_addr p) = Some (word_of_nat i) \<and>
                lookupFM (vts_set st) p = Some (p, 0) \<and> te_freelink te = VtsID_INVALID)"

definition set_ok :: "vts_state \<Rightarrow> bool" where
  "set_ok st \<longleftrightarrow> fm_inv VTS__cmp_structural_ptr set_rank (vts_set st) \<and>
     (\<forall>q p v. lookupFM (vts_set st) q = Some (p, v) \<longrightarrow>
        v = 0 \<and> (\<exists>i<length (vts_tab st). te_vts (vts_tab st ! i) = Some p))"

definition ordering_entry_ok :: "(VtsID \<Rightarrow> ts_array option) \<Rightarrow> ordering_entry \<Rightarrow> bool" where
  "ordering_entry_ok at e = (case e of (a, b, ord) \<Rightarrow>
     a = VtsID_INVALID \<or> (\<exists>x y. at a = Some x \<and> at b = Some y \<and> ord = Some (VTS__cmp x y)))"

definition join_entry_ok :: "(VtsID \<Rightarrow> ts_array option) \<Rightarrow> join_entry \<Rightarrow> bool" where
  "join_entry_ok at e = (case e of (a, b, res) \<Rightarrow>
     a = VtsID_INVALID \<or>
     (\<exists>x y z. at a = Some x \<and> at b = Some y \<and> VTS__join x y = Some z \<and> at res = Some z))"

definition caches_ok :: "vts_state \<Rightarrow> bool" where
  "caches_ok st \<longleftrightarrow>
     length (getOrdering_cache st) = N_GETORDERING_CACHE \<and> length (join2_cache st) = N_JOIN2_CACHE \<and>
     (\<forall>e\<in>set (getOrdering_cache st). ordering_entry_ok (vts_at st) e) \<and>
     (\<forall>e\<in>set (join2_cache st). join_entry_ok (vts_at st) e)"

definition vts_inv :: "vts_state \<Rightarrow> bool" where
  "vts_inv st \<longleftrightarrow>
     length (vts_tab st) < 2 ^ 32 \<and>
     (\<forall>i<length (vts_tab st). entry_ok st i (vts_tab st ! i)) \<and>
     set_ok st \<and> free_ok (vts_tab st) (vts_tab_freelist st) {} \<and>
     (\<forall>a\<ge>vts_brk st. vts_heap st a = None) \<and> caches_ok st"

lemma unat_VtsID_INVALID [simp]: "unat VtsID_INVALID = 2 ^ 32 - 1"
  by (simp add: VtsID_INVALID_def)

lemma unat_of_index: "i < 2 ^ 32 \<Longrightarrow> unat (word_of_nat i :: VtsID) = i"
  by (simp add: unsigned_of_nat take_bit_nat_eq_self)

lemma vts_at_Some:
  "vts_at st vi = Some x \<longleftrightarrow>
   unat vi < length (vts_tab st) \<and> (\<exists>p. te_vts (vts_tab st ! unat vi) = Some p \<and> vp_ts p = x)"
  by (auto simp: vts_at_def VtsID__to_VTS_def bind_eq_Some_conv)

lemma to_VTS_of_vts_at:
  "vts_at st vi = Some x \<Longrightarrow> \<exists>p. VtsID__to_VTS vi st = Some p \<and> vp_ts p = x"
  by (auto simp: vts_at_def)

lemma vts_set_inv: "vts_inv st \<Longrightarrow> fm_inv VTS__cmp_structural_ptr set_rank (vts_set st)"
  by (simp add: vts_inv_def set_ok_def)

lemma live_entry:
  assumes "vts_inv st" "i < length (vts_tab st)" "te_vts (vts_tab st ! i) = Some p"
  shows "wf_ts (vp_ts p)" "vts_heap st (vp_addr p) = Some (word_of_nat i)"
    "lookupFM (vts_set st) p = Some (p, 0)" "te_freelink (vts_tab st ! i) = VtsID_INVALID"
proof -
  from assms(1,2) have "entry_ok st i (vts_tab st ! i)" by (simp add: vts_inv_def)
  with assms(3) show "wf_ts (vp_ts p)" "vts_heap st (vp_addr p) = Some (word_of_nat i)"
    "lookupFM (vts_set st) p = Some (p, 0)" "te_freelink (vts_tab st ! i) = VtsID_INVALID"
    by (simp_all add: entry_ok_def)
qed

lemma free_chain_cong:
  "(\<And>i. i \<in> set fl \<Longrightarrow> i < length tab \<Longrightarrow> i < length tab' \<and> te_freelink (tab' ! i) = te_freelink (tab ! i)) \<Longrightarrow>
   free_chain tab h fl \<Longrightarrow> free_chain tab' h fl"
  by (induction fl arbitrary: h) auto

lemma free_chain_length: "free_chain tab h fl \<Longrightarrow> i \<in> set fl \<Longrightarrow> i < length tab"
  by (induction fl arbitrary: h) auto

lemma vts_at_unique:
  assumes inv: "vts_inv st" and "vts_at st v = Some x" "vts_at st w = Some x"
  shows "v = w"
proof -
  from assms obtain p q where p: "unat v < length (vts_tab st)" "te_vts (vts_tab st ! unat v) = Some p" "vp_ts p = x"
    and q: "unat w < length (vts_tab st)" "te_vts (vts_tab st ! unat w) = Some q" "vp_ts q = x"
    by (auto simp: vts_at_Some)
  note P = live_entry [OF inv p(1,2)] and Q = live_entry [OF inv q(1,2)]
  have "lookupFM (vts_set st) p = lookupFM (vts_set st) q"
    by (rule set_order.fm.lookup_cong [OF vts_set_inv [OF inv]]) (simp only: p(3) q(3))
  then have "Some (p, 0 :: UWord) = Some (q, 0)" by (simp only: P(3) Q(3))
  then have "p = q" by blast
  with P(2) Q(2) have "Some (word_of_nat (unat v) :: VtsID) = Some (word_of_nat (unat w))" by metis
  then show ?thesis by simp
qed

lemma ordering_entry_ok_mono:
  "ordering_entry_ok at e \<Longrightarrow> (\<And>v x. at v = Some x \<Longrightarrow> at' v = Some x) \<Longrightarrow> ordering_entry_ok at' e"
  by (fastforce simp: ordering_entry_ok_def split: prod.splits)

lemma join_entry_ok_mono:
  "join_entry_ok at e \<Longrightarrow> (\<And>v x. at v = Some x \<Longrightarrow> at' v = Some x) \<Longrightarrow> join_entry_ok at' e"
  by (fastforce simp: join_entry_ok_def split: prod.splits)

lemma caches_ok_mono:
  assumes "caches_ok st" "getOrdering_cache st' = getOrdering_cache st" "join2_cache st' = join2_cache st"
    "\<And>v x. vts_at st v = Some x \<Longrightarrow> vts_at st' v = Some x"
  shows "caches_ok st'"
  using assms ordering_entry_ok_mono [of "vts_at st" _ "vts_at st'"] join_entry_ok_mono [of "vts_at st" _ "vts_at st'"]
  by (simp add: caches_ok_def)

lemma vts_inv_init: "vts_inv vts_init"
  by (auto simp: vts_inv_def vts_init_def VtsID__invalidate_caches_def set_ok_def free_ok_def caches_ok_def
      ordering_entry_ok_def join_entry_ok_def set_order.fm.inv_new set_order.fm.lookup_new
      intro: exI [of _ "[]"])

section \<open>Interning a timestamp\<close>

lemma VtsID_INVALID_index: "length tab < 2 ^ 32 \<Longrightarrow> unat vi < length tab \<Longrightarrow> vi \<noteq> VtsID_INVALID"
  by auto

lemma set_entry:
  "vts_inv st \<Longrightarrow> lookupFM (vts_set st) q = Some (p, v) \<Longrightarrow>
   v = 0 \<and> (\<exists>i<length (vts_tab st). te_vts (vts_tab st ! i) = Some p)"
  unfolding vts_inv_def set_ok_def by blast

lemma get_new_VtsID_spec:
  assumes free: "free_ok (vts_tab st) (vts_tab_freelist st) {}"
    and rc: "\<forall>i<length (vts_tab st). te_vts (vts_tab st ! i) = None \<longrightarrow> te_rc (vts_tab st ! i) = 0"
    and len: "length (vts_tab st) < 2 ^ 32 - 1"
  shows "\<exists>ii tab' h'. get_new_VtsID st = Some (ii, st\<lparr>vts_tab := tab', vts_tab_freelist := h'\<rparr>) \<and>
           unat ii < length tab' \<and> te_vts (tab' ! unat ii) = None \<and> free_ok tab' h' {unat ii} \<and>
           (tab' = vts_tab st \<or>
            tab' = vts_tab st @ [\<lparr>te_vts = None, te_rc = 0, te_freelink = VtsID_INVALID\<rparr>] \<and>
            unat ii = length (vts_tab st))"
proof -
  from free obtain fl where fl: "free_chain (vts_tab st) (vts_tab_freelist st) fl" "distinct fl"
    "\<And>i. i < length (vts_tab st) \<Longrightarrow> te_vts (vts_tab st ! i) = None \<longleftrightarrow> i \<in> set fl"
    by (auto simp: free_ok_def)
  let ?n = "length (vts_tab st)"
  let ?te = "\<lparr>te_vts = None, te_rc = 0, te_freelink = VtsID_INVALID\<rparr> :: VtsTE"
  show ?thesis
  proof (cases fl)
    case Nil
    have u: "unat (word_of_nat ?n :: VtsID) = ?n" using len by (simp add: unat_of_index)
    have "free_ok (vts_tab st @ [?te]) VtsID_INVALID {?n}"
      unfolding free_ok_def using fl(3) Nil by (intro exI [of _ "[]"]) (auto simp: nth_append)
    with Nil fl(1) u show ?thesis
      by (intro exI [of _ "word_of_nat ?n"] exI [of _ "vts_tab st @ [?te]"] exI [of _ VtsID_INVALID])
        (simp add: get_new_VtsID_def get_from_free_list_def Let_def)
  next
    case (Cons i js)
    let ?h = "vts_tab_freelist st"
    from fl(1) Cons have i: "?h \<noteq> VtsID_INVALID" "unat ?h = i" "i < ?n"
      "free_chain (vts_tab st) (te_freelink (vts_tab st ! i)) js" by auto
    have none: "te_vts (vts_tab st ! i) = None" using fl(3) [OF i(3)] Cons by simp
    have "free_ok (vts_tab st) (te_freelink (vts_tab st ! i)) {i}"
      unfolding free_ok_def using i fl Cons by (intro exI [of _ js]) auto
    with none i rc show ?thesis
      by (intro exI [of _ ?h] exI [of _ "vts_tab st"] exI [of _ "te_freelink (vts_tab st ! i)"])
        (simp add: get_new_VtsID_def get_from_free_list_def)
  qed
qed

lemma free_ok_fill:
  assumes "free_ok tab h {i}" "i < length tab"
  shows "free_ok (tab[i := te\<lparr>te_vts := Some p, te_rc := 0, te_freelink := VtsID_INVALID\<rparr>]) h {}"
proof -
  from assms(1) obtain fl where "free_chain tab h fl" "distinct fl" "i \<notin> set fl"
    "\<forall>j<length tab. te_vts (tab ! j) = None \<longleftrightarrow> j \<in> set fl \<union> {i}" by (auto simp: free_ok_def)
  moreover from this have "free_chain (tab[i := te\<lparr>te_vts := Some p, te_rc := 0, te_freelink := VtsID_INVALID\<rparr>]) h fl"
    by (elim free_chain_cong [rotated]) (auto simp: nth_list_update assms(2))
  ultimately show ?thesis using assms(2)
    by (auto simp: free_ok_def nth_list_update intro!: exI [of _ fl])
qed

text \<open>What the callers of \<^verbatim>\<open>vts_tab__find_and_dealloc__or_add\<close> get for a newly built timestamp.\<close>

definition interned :: "vts_state \<Rightarrow> ts_array \<Rightarrow> VtsID \<Rightarrow> vts_state \<Rightarrow> bool" where
  "interned st ts vi st' \<longleftrightarrow>
     vts_at st' = (vts_at st)(vi \<mapsto> ts) \<and> (vts_at st vi = None \<or> vts_at st vi = Some ts) \<and>
     vts_rc st' = vts_rc st \<and> length (vts_tab st') \<le> Suc (length (vts_tab st)) \<and>
     getOrdering_cache st' = getOrdering_cache st \<and> join2_cache st' = join2_cache st"

lemma find_existing:
  assumes inv: "vts_inv st" and "lookupFM (vts_set st) \<lparr>vp_addr = vts_brk st, vp_ts = ts\<rparr> = Some (k, v)"
  shows "\<exists>vi st'. vts_tab__find_and_dealloc__or_add (fst (alloc_VTS ts st)) (snd (alloc_VTS ts st)) = Some (vi, st') \<and>
           vts_inv st' \<and> interned st ts vi st'"
proof -
  let ?c = "\<lparr>vp_addr = vts_brk st, vp_ts = ts\<rparr>"
  from assms obtain i where v: "v = 0" and i: "i < length (vts_tab st)" "te_vts (vts_tab st ! i) = Some k"
    using set_entry by blast
  note k = live_entry [OF inv i]
  have len: "length (vts_tab st) < 2 ^ 32" and fresh: "vts_heap st (vts_brk st) = None"
    using inv by (simp_all add: vts_inv_def)
  have u: "unat (word_of_nat i :: VtsID) = i" using i len by (simp add: unat_of_index)
  have ne: "vp_addr k \<noteq> vts_brk st" using k(2) fresh by auto
  have ts: "vp_ts k = ts"
    using set_order.fm.lookup_same [OF vts_set_inv [OF inv] assms(2)] set_rank_eq [of k ?c] by simp
  have "word_of_nat i \<noteq> VtsID_INVALID" using u i(1) len VtsID_INVALID_index by metis
  moreover have "(vts_heap st)(vts_brk st := None) = vts_heap st" using fresh by auto
  ultimately have eq: "vts_tab__find_and_dealloc__or_add (fst (alloc_VTS ts st)) (snd (alloc_VTS ts st)) =
      Some (word_of_nat i, st\<lparr>vts_brk := Suc (vts_brk st)\<rparr>)"
    using assms(2) v i k(2) ne u
    by (simp add: vts_tab__find_and_dealloc__or_add_def alloc_VTS_def vts_set__find_and_dealloc__or_add_def
        VTS__delete_def)
  have at: "vts_at (st\<lparr>vts_brk := b\<rparr>) = vts_at st" for b
    by (rule ext) (simp add: vts_at_def VtsID__to_VTS_def)
  have "vts_at st (word_of_nat i) = Some ts" using i u ts by (auto simp: vts_at_Some)
  then have "interned st ts (word_of_nat i) (st\<lparr>vts_brk := Suc (vts_brk st)\<rparr>)"
    by (auto simp: interned_def at vts_rc_def)
  moreover have "entry_ok (st\<lparr>vts_brk := b\<rparr>) = entry_ok st" for b
    by (intro ext) (simp add: entry_ok_def split: option.split)
  then have "vts_inv (st\<lparr>vts_brk := Suc (vts_brk st)\<rparr>)"
    using inv by (simp add: vts_inv_def set_ok_def caches_ok_def at)
  ultimately show ?thesis using eq by blast
qed

text \<open>The state after a fresh timestamp has been stored in the entry \<open>ii\<close> that \<^verbatim>\<open>get_new_VtsID\<close> chose.\<close>

definition cand_of :: "vts_state \<Rightarrow> ts_array \<Rightarrow> VTS_ptr" where
  "cand_of st ts = \<lparr>vp_addr = vts_brk st, vp_ts = ts\<rparr>"

definition filled :: "vts_state \<Rightarrow> ts_array \<Rightarrow> (VTS_ptr, UWord) WordFM \<Rightarrow> VtsID \<Rightarrow> VtsTE list \<Rightarrow> VtsID \<Rightarrow> vts_state" where
  "filled st ts fm ii tab' h' =
     st\<lparr>vts_heap := (vts_heap st)(vts_brk st \<mapsto> ii), vts_brk := Suc (vts_brk st), vts_set := fm,
        vts_tab := tab'[unat ii := (tab' ! unat ii)\<lparr>te_vts := Some (cand_of st ts), te_rc := 0, te_freelink := VtsID_INVALID\<rparr>],
        vts_tab_freelist := h'\<rparr>"

definition fill_pre :: "vts_state \<Rightarrow> ts_array \<Rightarrow> (VTS_ptr, UWord) WordFM \<Rightarrow> VtsID \<Rightarrow> VtsTE list \<Rightarrow> VtsID \<Rightarrow> bool" where
  "fill_pre st ts fm ii tab' h' \<longleftrightarrow>
     vts_inv st \<and> wf_ts ts \<and> length (vts_tab st) < 2 ^ 32 - 1 \<and> lookupFM (vts_set st) (cand_of st ts) = None \<and>
     fm_inv VTS__cmp_structural_ptr set_rank fm \<and>
     (\<forall>j. lookupFM fm j = (if vp_ts j = ts then Some (cand_of st ts, 0) else lookupFM (vts_set st) j)) \<and>
     unat ii < length tab' \<and> te_vts (tab' ! unat ii) = None \<and> free_ok tab' h' {unat ii} \<and>
     (tab' = vts_tab st \<or>
      tab' = vts_tab st @ [\<lparr>te_vts = None, te_rc = 0, te_freelink = VtsID_INVALID\<rparr>] \<and> unat ii = length (vts_tab st))"

lemma dead_entry:
  "vts_inv st \<Longrightarrow> i < length (vts_tab st) \<Longrightarrow> te_vts (vts_tab st ! i) = None \<Longrightarrow> te_rc (vts_tab st ! i) = 0"
  by (auto simp: vts_inv_def entry_ok_def)

lemma heap_fresh: "vts_inv st \<Longrightarrow> vts_brk st \<le> a \<Longrightarrow> vts_heap st a = None"
  by (simp add: vts_inv_def)

lemma fill_old_entry:
  assumes "fill_pre st ts fm ii tab' h'" "i < length (vts_tab (filled st ts fm ii tab' h'))" "i \<noteq> unat ii"
  shows "i < length (vts_tab st)" "vts_tab (filled st ts fm ii tab' h') ! i = vts_tab st ! i"
  using assms by (auto simp: fill_pre_def filled_def nth_append)

lemma fill_new_entry:
  assumes "fill_pre st ts fm ii tab' h'"
  shows "unat ii < length (vts_tab (filled st ts fm ii tab' h'))"
    and "te_vts (vts_tab (filled st ts fm ii tab' h') ! unat ii) = Some (cand_of st ts)"
    and "te_rc (vts_tab (filled st ts fm ii tab' h') ! unat ii) = 0"
    and "te_freelink (vts_tab (filled st ts fm ii tab' h') ! unat ii) = VtsID_INVALID"
  using assms by (simp_all add: fill_pre_def filled_def)

lemma fill_index_dead:
  assumes "fill_pre st ts fm ii tab' h'" "unat ii < length (vts_tab st)"
  shows "te_vts (vts_tab st ! unat ii) = None" "te_rc (vts_tab st ! unat ii) = 0"
  using assms dead_entry [of st "unat ii"] by (auto simp: fill_pre_def nth_append)

lemma fill_length:
  assumes "fill_pre st ts fm ii tab' h'"
  shows "length (vts_tab st) \<le> length (vts_tab (filled st ts fm ii tab' h'))"
    and "length (vts_tab (filled st ts fm ii tab' h')) \<le> Suc (length (vts_tab st))"
  using assms by (auto simp: fill_pre_def filled_def)

lemma fill_live_differs:
  assumes pre: "fill_pre st ts fm ii tab' h'" and p: "i < length (vts_tab st)" "te_vts (vts_tab st ! i) = Some p"
  shows "vp_ts p \<noteq> ts" "vp_addr p \<noteq> vts_brk st"
proof -
  from pre have inv: "vts_inv st" by (simp add: fill_pre_def)
  show "vp_ts p \<noteq> ts"
  proof
    assume "vp_ts p = ts"
    then have "lookupFM (vts_set st) p = lookupFM (vts_set st) (cand_of st ts)"
      by (intro set_order.fm.lookup_cong [OF vts_set_inv [OF inv]]) (simp add: cand_of_def)
    with live_entry(3) [OF inv p] pre show False by (simp add: fill_pre_def)
  qed
  show "vp_addr p \<noteq> vts_brk st" using live_entry(2) [OF inv p] heap_fresh [OF inv, of "vp_addr p"] by auto
qed

lemma fill_entry_ok:
  assumes pre: "fill_pre st ts fm ii tab' h'" and i: "i < length (vts_tab (filled st ts fm ii tab' h'))"
  shows "entry_ok (filled st ts fm ii tab' h') i (vts_tab (filled st ts fm ii tab' h') ! i)"
proof (cases "i = unat ii")
  case True
  with fill_new_entry [OF pre] pre show ?thesis
    by (simp add: entry_ok_def) (simp add: fill_pre_def filled_def cand_of_def)
next
  case False
  note old = fill_old_entry [OF pre i False]
  from pre have inv: "vts_inv st" by (simp add: fill_pre_def)
  show ?thesis
  proof (cases "te_vts (vts_tab st ! i)")
    case None
    with old dead_entry [OF inv old(1)] show ?thesis by (simp add: entry_ok_def)
  next
    case (Some p)
    with live_entry [OF inv old(1) Some] fill_live_differs [OF pre old(1) Some] old(2) pre show ?thesis
      by (simp add: entry_ok_def) (simp add: fill_pre_def filled_def)
  qed
qed

lemma fill_at:
  assumes pre: "fill_pre st ts fm ii tab' h'"
  shows "vts_at (filled st ts fm ii tab' h') = (vts_at st)(ii \<mapsto> ts)"
proof
  fix v
  let ?s = "filled st ts fm ii tab' h'"
  show "vts_at ?s v = ((vts_at st)(ii \<mapsto> ts)) v"
  proof (cases "v = ii")
    case True
    with fill_new_entry [OF pre] show ?thesis by (simp add: vts_at_Some cand_of_def)
  next
    case False
    then have ne: "unat v \<noteq> unat ii" by (metis word_unat_eq_iff)
    show ?thesis
    proof (cases "unat v < length (vts_tab ?s)")
      case True
      with fill_old_entry [OF pre True ne] False show ?thesis
        by (simp add: vts_at_def VtsID__to_VTS_def)
    next
      case out: False
      with fill_length [OF pre] have "\<not> unat v < length (vts_tab st)" by simp
      with out False show ?thesis by (simp add: vts_at_def VtsID__to_VTS_def index_opt_def)
    qed
  qed
qed

lemma fill_rc:
  assumes pre: "fill_pre st ts fm ii tab' h'"
  shows "vts_rc (filled st ts fm ii tab' h') = vts_rc st"
proof
  fix v
  show "vts_rc (filled st ts fm ii tab' h') v = vts_rc st v"
  proof (cases "unat v = unat ii")
    case True
    with fill_new_entry [OF pre] fill_index_dead [OF pre] show ?thesis by (simp add: vts_rc_def)
  next
    case False
    with fill_old_entry [OF pre _ False] fill_length [OF pre] show ?thesis by (auto simp: vts_rc_def)
  qed
qed

lemma fill_set_ok:
  assumes pre: "fill_pre st ts fm ii tab' h'"
  shows "set_ok (filled st ts fm ii tab' h')"
proof -
  let ?s = "filled st ts fm ii tab' h'"
  have look: "lookupFM (vts_set ?s) q = (if vp_ts q = ts then Some (cand_of st ts, 0) else lookupFM (vts_set st) q)" for q
    using pre by (simp add: fill_pre_def filled_def)
  have "v = 0 \<and> (\<exists>i<length (vts_tab ?s). te_vts (vts_tab ?s ! i) = Some p)"
    if "lookupFM (vts_set ?s) q = Some (p, v)" for q p v
  proof (cases "vp_ts q = ts")
    case True
    with that look fill_new_entry [OF pre] show ?thesis by auto
  next
    case False
    with that look have "lookupFM (vts_set st) q = Some (p, v)" by simp
    moreover have "vts_inv st" using pre by (simp add: fill_pre_def)
    ultimately obtain i where i: "v = 0" "i < length (vts_tab st)" "te_vts (vts_tab st ! i) = Some p"
      using set_entry by blast
    then have "i \<noteq> unat ii" using fill_index_dead(1) [OF pre] by auto
    moreover have "i < length (vts_tab ?s)" using i(2) fill_length(1) [OF pre] by (rule order_less_le_trans)
    ultimately have "te_vts (vts_tab ?s ! i) = Some p" using fill_old_entry(2) [OF pre] i(3) by presburger
    with \<open>i < length (vts_tab ?s)\<close> i(1) show ?thesis by blast
  qed
  moreover have "fm_inv VTS__cmp_structural_ptr set_rank (vts_set ?s)"
    using pre by (simp add: fill_pre_def filled_def)
  ultimately show ?thesis by (simp add: set_ok_def)
qed

lemma fill_at_none: "fill_pre st ts fm ii tab' h' \<Longrightarrow> vts_at st ii = None"
  using fill_index_dead(1) by (auto simp: vts_at_def VtsID__to_VTS_def index_opt_def)

lemma fill_inv:
  assumes pre: "fill_pre st ts fm ii tab' h'"
  shows "vts_inv (filled st ts fm ii tab' h')"
proof -
  let ?s = "filled st ts fm ii tab' h'"
  have "free_ok tab' h' {unat ii}" "unat ii < length tab'" using pre by (simp_all add: fill_pre_def)
  from free_ok_fill [OF this] have "free_ok (vts_tab ?s) (vts_tab_freelist ?s) {}" by (simp add: filled_def)
  moreover have "\<forall>a\<ge>vts_brk ?s. vts_heap ?s a = None"
    using pre heap_fresh [of st] by (auto simp: fill_pre_def filled_def)
  moreover have "caches_ok ?s"
  proof (rule caches_ok_mono [of st])
    show "caches_ok st" using pre by (simp add: fill_pre_def vts_inv_def)
    show "\<And>v x. vts_at st v = Some x \<Longrightarrow> vts_at ?s v = Some x"
      using fill_at_none [OF pre] by (auto simp: fill_at [OF pre])
  qed (simp_all add: filled_def)
  moreover have "length (vts_tab ?s) < 2 ^ 32" using fill_length(2) [OF pre] pre by (simp add: fill_pre_def)
  ultimately show ?thesis using fill_entry_ok [OF pre] fill_set_ok [OF pre] by (simp add: vts_inv_def)
qed

lemma add_fresh:
  assumes inv: "vts_inv st" and wf: "wf_ts ts" and len: "length (vts_tab st) < 2 ^ 32 - 1"
    and none: "lookupFM (vts_set st) (cand_of st ts) = None"
  shows "\<exists>vi st'. vts_tab__find_and_dealloc__or_add (fst (alloc_VTS ts st)) (snd (alloc_VTS ts st)) = Some (vi, st') \<and>
           vts_inv st' \<and> interned st ts vi st'"
proof -
  let ?c = "cand_of st ts"
  obtain fm where fm: "addToFM (vts_set st) ?c 0 = Some (False, fm)"
      "fm_inv VTS__cmp_structural_ptr set_rank fm"
      "\<And>j. lookupFM fm j = (if set_rank j = set_rank ?c then Some (?c, 0) else lookupFM (vts_set st) j)"
    using set_order.addToFM_lookup [OF vts_set_inv [OF inv], of ?c 0] none by auto
  let ?s = "st\<lparr>vts_heap := (vts_heap st)(vts_brk st \<mapsto> VtsID_INVALID), vts_brk := Suc (vts_brk st), vts_set := fm\<rparr>"
  have "free_ok (vts_tab ?s) (vts_tab_freelist ?s) {}" using inv by (simp add: vts_inv_def)
  from get_new_VtsID_spec [OF this] dead_entry [OF inv] len obtain ii tab' h' where
    new: "get_new_VtsID ?s = Some (ii, ?s\<lparr>vts_tab := tab', vts_tab_freelist := h'\<rparr>)"
    and ii: "unat ii < length tab'" "te_vts (tab' ! unat ii) = None" "free_ok tab' h' {unat ii}"
    and tab': "tab' = vts_tab st \<or> tab' = vts_tab st @ [\<lparr>te_vts = None, te_rc = 0, te_freelink = VtsID_INVALID\<rparr>] \<and>
                unat ii = length (vts_tab st)"
    by auto
  have pre: "fill_pre st ts fm ii tab' h'"
    using assms fm(2,3) ii tab' set_rank_eq [of _ ?c] by (simp add: fill_pre_def) (simp add: cand_of_def)
  have "vts_tab__find_and_dealloc__or_add (fst (alloc_VTS ts st)) (snd (alloc_VTS ts st)) =
      Some (ii, filled st ts fm ii tab' h')"
    using none fm(1) new ii(1)
    by (simp add: vts_tab__find_and_dealloc__or_add_def alloc_VTS_def vts_set__find_and_dealloc__or_add_def
        filled_def cand_of_def)
  moreover have "interned st ts ii (filled st ts fm ii tab' h')"
    using fill_at [OF pre] fill_at_none [OF pre] fill_rc [OF pre] fill_length(2) [OF pre]
    by (simp add: interned_def) (simp add: filled_def)
  ultimately show ?thesis using fill_inv [OF pre] by blast
qed

theorem intern_spec:
  assumes "vts_inv st" "wf_ts ts" "length (vts_tab st) < 2 ^ 32 - 1"
  shows "\<exists>vi st'. vts_tab__find_and_dealloc__or_add (fst (alloc_VTS ts st)) (snd (alloc_VTS ts st)) = Some (vi, st') \<and>
           vts_inv st' \<and> interned st ts vi st'"
  using find_existing [OF assms(1)] add_fresh [OF assms]
  by (cases "lookupFM (vts_set st) (cand_of st ts)") (auto simp: cand_of_def)

section \<open>Comparison and join of identifiers\<close>

definition grown :: "vts_state \<Rightarrow> ts_array \<Rightarrow> VtsID \<Rightarrow> vts_state \<Rightarrow> bool" where
  "grown st ts vi st' \<longleftrightarrow>
     vts_inv st' \<and> vts_at st' = (vts_at st)(vi \<mapsto> ts) \<and> (vts_at st vi = None \<or> vts_at st vi = Some ts) \<and>
     vts_rc st' = vts_rc st \<and> length (vts_tab st') \<le> Suc (length (vts_tab st))"

lemma grown_mono: "grown st ts vi st' \<Longrightarrow> vts_at st v = Some x \<Longrightarrow> vts_at st' v = Some x"
  by (auto simp: grown_def)

lemma vts_at_wf: "vts_inv st \<Longrightarrow> vts_at st v = Some x \<Longrightarrow> wf_ts x"
  using live_entry(1) by (auto simp: vts_at_Some)

lemma vts_at_INVALID: "vts_inv st \<Longrightarrow> vts_at st VtsID_INVALID = None"
  by (simp add: vts_at_def VtsID__to_VTS_def index_opt_def vts_inv_def)

lemma vts_at_cong: "vts_tab st' = vts_tab st \<Longrightarrow> vts_at st' = vts_at st"
  by (rule ext) (simp add: vts_at_def VtsID__to_VTS_def)

lemma vts_rc_cong: "vts_tab st' = vts_tab st \<Longrightarrow> vts_rc st' = vts_rc st"
  by (rule ext) (simp add: vts_rc_def)

lemma hash_index: "unat (hash_VtsIDs a b (of_nat 1023)) < 1023"
  by (simp add: hash_VtsIDs_def unat_mod)

text \<open>Replacing the caches by valid ones keeps the invariant.\<close>

lemma vts_inv_caches:
  assumes "vts_inv st" "caches_ok st'" "vts_tab st' = vts_tab st" "vts_heap st' = vts_heap st"
    "vts_set st' = vts_set st" "vts_brk st' = vts_brk st" "vts_tab_freelist st' = vts_tab_freelist st"
  shows "vts_inv st'"
proof -
  have "entry_ok st' = entry_ok st"
    by (intro ext) (simp add: entry_ok_def assms split: option.split)
  with assms show ?thesis by (simp add: vts_inv_def set_ok_def)
qed

lemma set_list_update_Ball: "Ball (set xs) P \<Longrightarrow> P x \<Longrightarrow> Ball (set (xs[i := x])) P"
  using set_update_subset_insert [of xs i x] by blast

lemma getOrdering_spec:
  assumes inv: "vts_inv st" and a: "vts_at st a = Some x" and b: "vts_at st b = Some y"
  shows "\<exists>st'. VtsID__getOrdering a b st = Some (VTS__cmp x y, st') \<and> vts_inv st' \<and> vts_tab st' = vts_tab st"
proof (cases "a = b")
  case True
  with a b vts_at_wf [OF inv a] inv show ?thesis
    by (auto simp: VtsID__getOrdering_def VTS__cmp_spec)
next
  case False
  let ?h = "unat (hash_VtsIDs a b (of_nat N_GETORDERING_CACHE))"
  have co: "caches_ok st" using inv by (simp add: vts_inv_def)
  then have h: "?h < length (getOrdering_cache st)"
    using hash_index [of a b] by (simp add: caches_ok_def N_GETORDERING_CACHE_def)
  obtain c1 c2 cord where e: "getOrdering_cache st ! ?h = (c1, c2, cord)" by (cases "getOrdering_cache st ! ?h") auto
  with h co have e_ok: "ordering_entry_ok (vts_at st) (c1, c2, cord)"
    by (metis caches_ok_def nth_mem)
  from to_VTS_of_vts_at [OF a] to_VTS_of_vts_at [OF b] obtain p q where
    pq: "VtsID__to_VTS a st = Some p" "VtsID__to_VTS b st = Some q" "vp_ts p = x" "vp_ts q = y" by blast
  show ?thesis
  proof (cases "c1 = a \<and> c2 = b")
    case True
    moreover have "a \<noteq> VtsID_INVALID" using vts_at_INVALID [OF inv] a by auto
    ultimately have "cord = Some (VTS__cmp x y)" using e_ok a b by (auto simp: ordering_entry_ok_def)
    with True h e False inv show ?thesis
      by (simp add: VtsID__getOrdering_def VtsID__getOrdering_WRK_def)
  next
    case miss: False
    let ?st = "st\<lparr>getOrdering_cache := (getOrdering_cache st)[?h := (a, b, Some (VTS__cmp x y))]\<rparr>"
    have idx: "index_opt (getOrdering_cache st) ?h = Some (c1, c2, cord)" using e h by simp
    have "ordering_entry_ok (vts_at st) (a, b, Some (VTS__cmp x y))"
      using a b by (simp add: ordering_entry_ok_def)
    moreover have "vts_at ?st = vts_at st" by (rule vts_at_cong) simp
    ultimately have "caches_ok ?st"
      using co set_list_update_Ball [of "getOrdering_cache st" "ordering_entry_ok (vts_at st)"]
      unfolding caches_ok_def by simp
    then have "vts_inv ?st" by (rule vts_inv_caches [OF inv]) simp_all
    moreover have "VtsID__getOrdering a b st = Some (VTS__cmp x y, ?st)"
      using False miss pq by (simp add: VtsID__getOrdering_def VtsID__getOrdering_WRK_def Let_def idx) blast
    ultimately show ?thesis by simp
  qed
qed

lemma VTS__join_idem:
  assumes "wf_ts x" shows "VTS__join x x = Some x"
proof -
  from VTS__join_spec [OF assms assms] obtain r where r: "VTS__join x x = Some r" "wf_ts r"
    "\<forall>t. VTS__indexAt_SLOW r t = max (VTS__indexAt_SLOW x t) (VTS__indexAt_SLOW x t)" by blast
  then have "r = x" using assms by (intro wf_ts_ext) auto
  with r show ?thesis by simp
qed

lemma grown_refl: "vts_inv st \<Longrightarrow> vts_at st vi = Some ts \<Longrightarrow> grown st ts vi st"
  by (auto simp: grown_def)

lemma grown_interned: "vts_inv st' \<Longrightarrow> interned st ts vi st' \<Longrightarrow> grown st ts vi st'"
  by (simp add: interned_def grown_def)

lemma join2_spec:
  assumes inv: "vts_inv st" and a: "vts_at st a = Some x" and b: "vts_at st b = Some y"
    and len: "length (vts_tab st) < 2 ^ 32 - 1"
  shows "\<exists>vi z st'. VtsID__join2 a b st = Some (vi, st') \<and> VTS__join x y = Some z \<and> grown st z vi st'"
proof (cases "a = b")
  case True
  with a b vts_at_wf [OF inv a] inv show ?thesis
    by (auto simp: VtsID__join2_def VTS__join_idem intro: grown_refl)
next
  case False
  let ?h = "unat (hash_VtsIDs a b (of_nat N_JOIN2_CACHE))"
  have co: "caches_ok st" using inv by (simp add: vts_inv_def)
  then have h: "?h < length (join2_cache st)"
    using hash_index [of a b] by (simp add: caches_ok_def N_JOIN2_CACHE_def)
  obtain c1 c2 cres where e: "join2_cache st ! ?h = (c1, c2, cres)" by (cases "join2_cache st ! ?h") auto
  with h co have e_ok: "join_entry_ok (vts_at st) (c1, c2, cres)"
    by (metis caches_ok_def nth_mem)
  from to_VTS_of_vts_at [OF a] to_VTS_of_vts_at [OF b] obtain p q where
    pq: "VtsID__to_VTS a st = Some p" "VtsID__to_VTS b st = Some q" "vp_ts p = x" "vp_ts q = y" by blast
  from VTS__join_spec vts_at_wf [OF inv a] vts_at_wf [OF inv b] obtain z where
    z: "VTS__join x y = Some z" "wf_ts z" by blast
  show ?thesis
  proof (cases "c1 = a \<and> c2 = b")
    case True
    moreover have "a \<noteq> VtsID_INVALID" using vts_at_INVALID [OF inv] a by auto
    ultimately have "vts_at st cres = Some z" using e_ok a b z by (auto simp: join_entry_ok_def)
    with True h e False z grown_refl [OF inv] show ?thesis
      by (simp add: VtsID__join2_def VtsID__join2_WRK_def)
  next
    case miss: False
    from intern_spec [OF inv z(2) len] obtain vi st1 where
      st1: "vts_tab__find_and_dealloc__or_add (fst (alloc_VTS z st)) (snd (alloc_VTS z st)) = Some (vi, st1)"
        "vts_inv st1" "interned st z vi st1" by blast
    have idx: "index_opt (join2_cache st) ?h = Some (c1, c2, cres)" using e h by simp
    let ?st = "st1\<lparr>join2_cache := (join2_cache st1)[?h := (a, b, vi)]\<rparr>"
    have at: "vts_at ?st = vts_at st1" by (rule vts_at_cong) simp
    have "join_entry_ok (vts_at st1) (a, b, vi)"
      using a b z grown_mono [OF grown_interned [OF st1(2,3)]] st1(3)
      by (simp add: join_entry_ok_def interned_def)
    moreover have "caches_ok st1" using st1(2) by (simp add: vts_inv_def)
    ultimately have "caches_ok ?st"
      using set_list_update_Ball [of "join2_cache st1" "join_entry_ok (vts_at st1)"]
      unfolding caches_ok_def at by simp
    then have "vts_inv ?st" by (rule vts_inv_caches [OF st1(2)]) simp_all
    moreover have "vts_rc ?st = vts_rc st1" "vts_tab ?st = vts_tab st1" by (rule vts_rc_cong) simp_all
    ultimately have "grown st z vi ?st"
      using st1(3) at unfolding grown_def interned_def by (simp only:)
    moreover have "VtsID__join2 a b st = Some (vi, ?st)"
      using False miss pq z st1(1)
      by (simp add: VtsID__join2_def VtsID__join2_WRK_def Let_def idx case_prod_beta) blast
    ultimately show ?thesis using z by blast
  qed
qed

lemma mk_Singleton_spec:
  assumes "vts_inv st" "t \<noteq> 0" "n \<noteq> 0" "length (vts_tab st) < 2 ^ 32 - 1"
  shows "\<exists>vi st'. VtsID__mk_Singleton t n st = Some (vi, st') \<and> grown st [\<lparr>thr = t, tym = n\<rparr>] vi st'"
proof -
  have "1 \<le> n" using assms(3) by (simp add: word_le_nat_alt unat_eq_zero Suc_le_eq unat_gt_0)
  with intern_spec [OF assms(1) _ assms(4), of "[\<lparr>thr = t, tym = n\<rparr>]"] assms show ?thesis
    by (auto simp: VtsID__mk_Singleton_def VTS__singleton_def VTS__new_def wf_ts_Cons case_prod_beta
        intro: grown_interned)
qed

lemma tick_spec:
  assumes "vts_inv st" "vts_at st vi = Some x" "idx \<noteq> 0" "VTS__indexAt_SLOW x idx \<noteq> - 1"
    "length (vts_tab st) < 2 ^ 32 - 1"
  shows "\<exists>vi' y st'. VtsID__tick vi idx st = Some (vi', st') \<and> VTS__tick idx x = Some y \<and> grown st y vi' st'"
proof -
  from VTS__tick_spec [OF vts_at_wf [OF assms(1,2)] assms(3,4)] obtain y where
    y: "VTS__tick idx x = Some y" "wf_ts y" by blast
  from to_VTS_of_vts_at [OF assms(2)] y intern_spec [OF assms(1) y(2) assms(5)] show ?thesis
    by (auto simp: VtsID__tick_def case_prod_beta intro: grown_interned)
qed

section \<open>Reference counting\<close>

lemma free_ok_cong:
  assumes "free_ok tab h X" "length tab' = length tab"
    "\<And>i. i < length tab \<Longrightarrow> te_vts (tab' ! i) = te_vts (tab ! i) \<and> te_freelink (tab' ! i) = te_freelink (tab ! i)"
  shows "free_ok tab' h X"
proof -
  from assms(1) obtain fl where fl: "free_chain tab h fl" "distinct fl" "set fl \<inter> X = {}"
    "\<forall>i<length tab. te_vts (tab ! i) = None \<longleftrightarrow> i \<in> set fl \<union> X" by (auto simp: free_ok_def)
  moreover have "free_chain tab' h fl" using fl(1) assms(2,3) by (intro free_chain_cong [OF _ fl(1)]) auto
  ultimately show ?thesis using assms(2,3) by (auto simp: free_ok_def)
qed

definition set_rc :: "vts_state \<Rightarrow> VtsID \<Rightarrow> UWord \<Rightarrow> vts_state" where
  "set_rc st vi n = st\<lparr>vts_tab := (vts_tab st)[unat vi := (vts_tab st ! unat vi)\<lparr>te_rc := n\<rparr>]\<rparr>"

lemma set_rc_entry:
  assumes "i < length (vts_tab st)"
  shows "te_vts (vts_tab (set_rc st vi n) ! i) = te_vts (vts_tab st ! i)"
    "te_freelink (vts_tab (set_rc st vi n) ! i) = te_freelink (vts_tab st ! i)"
    "te_rc (vts_tab (set_rc st vi n) ! i) = (if i = unat vi then n else te_rc (vts_tab st ! i))"
  using assms by (cases "i = unat vi"; simp add: set_rc_def)+

lemma set_rc_length [simp]: "length (vts_tab (set_rc st vi n)) = length (vts_tab st)"
  by (simp add: set_rc_def)

lemma set_rc_at: "vts_at (set_rc st vi n) = vts_at st"
  by (rule ext) (auto simp: vts_at_def VtsID__to_VTS_def index_opt_def set_rc_entry)

lemma set_rc_rc: "vts_at st vi \<noteq> None \<Longrightarrow> vts_rc (set_rc st vi n) = (vts_rc st)(vi := n)"
  by (rule ext) (auto simp: vts_rc_def set_rc_entry vts_at_Some word_unat_eq_iff)

lemma set_ok_cong:
  assumes "set_ok st" "vts_set st' = vts_set st" "length (vts_tab st') = length (vts_tab st)"
    "\<And>i. i < length (vts_tab st) \<Longrightarrow> te_vts (vts_tab st' ! i) = te_vts (vts_tab st ! i)"
  shows "set_ok st'"
  unfolding set_ok_def assms(2,3)
proof (intro conjI allI impI)
  show "fm_inv VTS__cmp_structural_ptr set_rank (vts_set st)" using assms(1) by (simp add: set_ok_def)
  fix q p v assume "lookupFM (vts_set st) q = Some (p, v)"
  with assms(1) have v: "v = 0 \<and> (\<exists>i<length (vts_tab st). te_vts (vts_tab st ! i) = Some p)"
    unfolding set_ok_def by blast
  then show "v = 0" by blast
  from v assms(4) show "\<exists>i<length (vts_tab st). te_vts (vts_tab st' ! i) = Some p" by metis
qed

lemma set_rc_inv:
  assumes inv: "vts_inv st" and live: "vts_at st vi \<noteq> None"
  shows "vts_inv (set_rc st vi n)"
proof -
  let ?s = "set_rc st vi n"
  have f: "vts_heap ?s = vts_heap st" "vts_set ?s = vts_set st" "vts_brk ?s = vts_brk st"
    "vts_tab_freelist ?s = vts_tab_freelist st" "getOrdering_cache ?s = getOrdering_cache st"
    "join2_cache ?s = join2_cache st" by (simp_all add: set_rc_def)
  have "entry_ok ?s i (vts_tab ?s ! i)" if i: "i < length (vts_tab st)" for i
  proof (cases "te_vts (vts_tab st ! i)")
    case None
    with live have "i \<noteq> unat vi" by (auto simp: vts_at_Some)
    with None dead_entry [OF inv i None] show ?thesis by (simp add: entry_ok_def set_rc_entry [OF i])
  next
    case (Some p)
    with live_entry [OF inv i Some] show ?thesis by (simp add: entry_ok_def set_rc_entry [OF i] f)
  qed
  moreover have "free_ok (vts_tab ?s) (vts_tab_freelist ?s) {}"
    unfolding f by (rule free_ok_cong [of "vts_tab st"])
      (use inv in \<open>simp add: vts_inv_def\<close>, simp_all add: set_rc_entry)
  moreover have "set_ok ?s"
    by (rule set_ok_cong [of st]) (use inv in \<open>simp add: vts_inv_def\<close>, simp_all add: set_rc_entry f)
  ultimately show ?thesis using inv by (simp add: vts_inv_def caches_ok_def f set_rc_at)
qed

lemma live_id: "vts_inv st \<Longrightarrow> vts_at st vi = Some x \<Longrightarrow>
  \<exists>p. te_vts (vts_tab st ! unat vi) = Some p \<and> vts_heap st (vp_addr p) = Some vi \<and> unat vi < length (vts_tab st)"
  using live_entry(2) by (fastforce simp: vts_at_Some)

lemma rcinc_spec:
  assumes "vts_inv st" "vts_at st vi = Some x" "vts_rc st vi \<noteq> - 1"
  shows "\<exists>st'. VtsID__rcinc vi st = Some st' \<and> vts_inv st' \<and> vts_at st' = vts_at st \<and>
           vts_rc st' = (vts_rc st)(vi := vts_rc st vi + 1)"
proof -
  from live_id [OF assms(1,2)] obtain p where p: "te_vts (vts_tab st ! unat vi) = Some p"
    "vts_heap st (vp_addr p) = Some vi" "unat vi < length (vts_tab st)" by blast
  have "te_rc (vts_tab st ! unat vi) \<noteq> - 1" using assms(3) p by (simp add: vts_rc_def)
  then have "te_rc (vts_tab st ! unat vi) < 0xFFFFFFFFFFFFFFFF"
    by (rule max_ULong_less)
  with p have "VtsID__rcinc vi st = Some (set_rc st vi (vts_rc st vi + 1))"
    by (simp add: VtsID__rcinc_def set_rc_def vts_rc_def)
  with assms set_rc_inv [of st vi] set_rc_at set_rc_rc [of st vi] show ?thesis by auto
qed

lemma rcdec_spec:
  assumes "vts_inv st" "vts_at st vi = Some x" "vts_rc st vi \<noteq> 0"
  shows "\<exists>st'. VtsID__rcdec vi st = Some st' \<and> vts_inv st' \<and> vts_at st' = vts_at st \<and>
           vts_rc st' = (vts_rc st)(vi := vts_rc st vi - 1)"
proof -
  from live_id [OF assms(1,2)] obtain p where p: "te_vts (vts_tab st ! unat vi) = Some p"
    "vts_heap st (vp_addr p) = Some vi" "unat vi < length (vts_tab st)" by blast
  with assms(3) have "0 < te_rc (vts_tab st ! unat vi)" by (simp add: vts_rc_def word_gt_0)
  with p have "VtsID__rcdec vi st = Some (set_rc st vi (vts_rc st vi - 1))"
    by (simp add: VtsID__rcdec_def set_rc_def vts_rc_def)
  with assms set_rc_inv [of st vi] set_rc_at set_rc_rc [of st vi] show ?thesis by auto
qed

end
