(* ===== verification/VtsGC.thy ===== *)
theory VtsGC
  imports VtsTable
begin

text \<open>
  Garbage collection of the table of vector timestamps (\<^verbatim>\<open>vts_tab__do_GC\<close>), and the properties of
  the table as a whole: interning, the cached comparison and join, collection.
\<close>

section \<open>Garbage collection\<close>

text \<open>The state after the entry \<open>i\<close>, holding \<open>p\<close>, has been freed.\<close>

definition freed :: "nat \<Rightarrow> VTS_ptr \<Rightarrow> (VTS_ptr, UWord) WordFM \<Rightarrow> vts_state \<Rightarrow> vts_state" where
  "freed i p fm st =
     st\<lparr>vts_set := fm, vts_heap := (vts_heap st)(vp_addr p := None),
        vts_tab := (vts_tab st)[i := (vts_tab st ! i)\<lparr>te_vts := None, te_freelink := vts_tab_freelist st\<rparr>],
        vts_tab_freelist := word_of_nat i\<rparr>"

definition no_caches :: "vts_state \<Rightarrow> bool" where
  "no_caches st \<longleftrightarrow>
     getOrdering_cache st = replicate N_GETORDERING_CACHE (VtsID_INVALID, VtsID_INVALID, None) \<and>
     join2_cache st = replicate N_JOIN2_CACHE (VtsID_INVALID, VtsID_INVALID, VtsID_INVALID)"

lemma no_caches_ok: "no_caches st \<Longrightarrow> caches_ok st"
  by (simp add: no_caches_def caches_ok_def ordering_entry_ok_def join_entry_ok_def)

definition gc_pre :: "nat \<Rightarrow> VTS_ptr \<Rightarrow> (VTS_ptr, UWord) WordFM \<Rightarrow> vts_state \<Rightarrow> bool" where
  "gc_pre i p fm st \<longleftrightarrow> vts_inv st \<and> no_caches st \<and> i < length (vts_tab st) \<and>
     te_vts (vts_tab st ! i) = Some p \<and> te_rc (vts_tab st ! i) = 0 \<and>
     fm_inv VTS__cmp_structural_ptr set_rank fm \<and>
     (\<forall>j. lookupFM fm j = (if vp_ts j = vp_ts p then None else lookupFM (vts_set st) j))"

lemma freed_entry:
  assumes "gc_pre i p fm st" "j < length (vts_tab st)"
  shows "te_vts (vts_tab (freed i p fm st) ! j) = (if j = i then None else te_vts (vts_tab st ! j))"
    "te_rc (vts_tab (freed i p fm st) ! j) = te_rc (vts_tab st ! j)"
    "te_freelink (vts_tab (freed i p fm st) ! j) =
       (if j = i then vts_tab_freelist st else te_freelink (vts_tab st ! j))"
  using assms by (simp_all add: gc_pre_def freed_def nth_list_update)

lemma freed_length [simp]: "length (vts_tab (freed i p fm st)) = length (vts_tab st)"
  by (simp add: freed_def)

text \<open>Different live entries hold different timestamps at different addresses.\<close>

lemma live_distinct:
  assumes inv: "vts_inv st" and i: "i < length (vts_tab st)" "te_vts (vts_tab st ! i) = Some p"
    and j: "j < length (vts_tab st)" "te_vts (vts_tab st ! j) = Some q" and ne: "i \<noteq> j"
  shows "vp_ts p \<noteq> vp_ts q" "vp_addr p \<noteq> vp_addr q"
proof -
  have len: "length (vts_tab st) < 2 ^ 32" using inv by (simp add: vts_inv_def)
  then have u: "unat (word_of_nat i :: VtsID) = i" "unat (word_of_nat j :: VtsID) = j"
    using i(1) j(1) by (auto intro: unat_of_index)
  then have w: "(word_of_nat i :: VtsID) \<noteq> word_of_nat j" using ne by metis
  show "vp_ts p \<noteq> vp_ts q"
  proof
    assume eq: "vp_ts p = vp_ts q"
    have "vts_at st (word_of_nat i) = Some (vp_ts p)" "vts_at st (word_of_nat j) = Some (vp_ts q)"
      using i j u by (auto simp: vts_at_Some)
    with vts_at_unique [OF inv] eq w show False by metis
  qed
  show "vp_addr p \<noteq> vp_addr q" using live_entry(2) [OF inv i] live_entry(2) [OF inv j] w by auto
qed

lemma freed_free_ok:
  assumes pre: "gc_pre i p fm st"
  shows "free_ok (vts_tab (freed i p fm st)) (vts_tab_freelist (freed i p fm st)) {}"
proof -
  let ?s = "freed i p fm st"
  from pre have inv: "vts_inv st" and i: "i < length (vts_tab st)" "te_vts (vts_tab st ! i) = Some p"
    by (simp_all add: gc_pre_def)
  from inv obtain fl where fl: "free_chain (vts_tab st) (vts_tab_freelist st) fl" "distinct fl"
    "\<forall>j<length (vts_tab st). te_vts (vts_tab st ! j) = None \<longleftrightarrow> j \<in> set fl"
    by (auto simp: vts_inv_def free_ok_def)
  then have notin: "i \<notin> set fl" using i by auto
  have len: "length (vts_tab st) < 2 ^ 32" using inv by (simp add: vts_inv_def)
  then have u: "unat (word_of_nat i :: VtsID) = i" using i(1) by (auto intro: unat_of_index)
  then have "(word_of_nat i :: VtsID) \<noteq> VtsID_INVALID" using i(1) len by (metis VtsID_INVALID_index)
  moreover have "free_chain (vts_tab ?s) (vts_tab_freelist st) fl"
    using fl(1) by (rule free_chain_cong [rotated]) (use notin freed_entry(3) [OF pre] in auto)
  ultimately have "free_chain (vts_tab ?s) (word_of_nat i) (i # fl)"
    using u i(1) freed_entry(3) [OF pre i(1)] by simp
  then show ?thesis unfolding free_ok_def
    using fl(2,3) notin i freed_entry(1) [OF pre] by (intro exI [of _ "i # fl"]) (auto simp: freed_def)
qed

lemma freed_inv:
  assumes pre: "gc_pre i p fm st"
  shows "vts_inv (freed i p fm st)"
proof -
  let ?s = "freed i p fm st"
  from pre have inv: "vts_inv st" and i: "i < length (vts_tab st)" "te_vts (vts_tab st ! i) = Some p"
    and fm: "fm_inv VTS__cmp_structural_ptr set_rank fm"
      "\<And>j. lookupFM fm j = (if vp_ts j = vp_ts p then None else lookupFM (vts_set st) j)"
    by (simp_all add: gc_pre_def)
  have "entry_ok ?s j (vts_tab ?s ! j)" if j: "j < length (vts_tab st)" for j
  proof (cases "j = i \<or> te_vts (vts_tab st ! j) = None")
    case True
    with pre dead_entry [OF inv j] freed_entry [OF pre j] show ?thesis by (auto simp: entry_ok_def gc_pre_def)
  next
    case False
    then obtain q where q: "te_vts (vts_tab st ! j) = Some q" and ne: "i \<noteq> j" by auto
    from live_distinct [OF inv i j q ne] live_entry [OF inv j q] freed_entry [OF pre j] ne q show ?thesis
      by (auto simp: entry_ok_def) (simp_all add: freed_def fm(2))
  qed
  moreover have "set_ok ?s"
  proof -
    have "v = 0 \<and> (\<exists>j<length (vts_tab ?s). te_vts (vts_tab ?s ! j) = Some q)"
      if "lookupFM fm k = Some (q, v)" for k q v
    proof -
      from that fm(2) have k: "lookupFM (vts_set st) k = Some (q, v)" "vp_ts k \<noteq> vp_ts p"
        by (auto split: if_splits)
      with set_entry [OF inv k(1)] obtain j where j: "v = 0" "j < length (vts_tab st)" "te_vts (vts_tab st ! j) = Some q"
        by blast
      have "set_rank q = set_rank k" by (rule set_order.fm.lookup_same [OF vts_set_inv [OF inv] k(1)])
      with k(2) have "j \<noteq> i" using j i structural_rank_inj by auto
      with j freed_entry(1) [OF pre j(2)] show ?thesis by auto
    qed
    moreover have s: "vts_set ?s = fm" by (simp add: freed_def)
    ultimately show ?thesis unfolding set_ok_def s using fm(1) by blast
  qed
  moreover have "\<forall>a\<ge>vts_brk ?s. vts_heap ?s a = None" using heap_fresh [OF inv] by (simp add: freed_def)
  moreover have "no_caches ?s" using pre by (simp add: gc_pre_def no_caches_def freed_def)
  moreover have "length (vts_tab st) < 2 ^ 32" using inv by (simp add: vts_inv_def)
  ultimately show ?thesis using freed_free_ok [OF pre] no_caches_ok [of ?s] by (simp add: vts_inv_def)
qed

lemma gc_entry_frees:
  assumes inv: "vts_inv st" and nc: "no_caches st" and i: "i < length (vts_tab st)"
    and p: "te_vts (vts_tab st ! i) = Some p" and rc: "te_rc (vts_tab st ! i) = 0"
  shows "\<exists>fm. gc_pre i p fm st \<and> gc_entry i st = Some (True, freed i p fm st)"
proof -
  note e = live_entry [OF inv i p]
  from set_order.delFromFM_lookup [OF vts_set_inv [OF inv], of p] e(3) obtain fm where
    fm: "delFromFM (vts_set st) p = Some (Some (p, 0), fm)" "fm_inv VTS__cmp_structural_ptr set_rank fm"
      "\<And>j. lookupFM fm j = (if set_rank j = set_rank p then None else lookupFM (vts_set st) j)" by auto
  have pre: "gc_pre i p fm st"
    using inv nc i p rc fm(2,3) set_rank_eq [of _ p] by (simp add: gc_pre_def)
  have "length (vts_tab st) < 2 ^ 32" using inv by (simp add: vts_inv_def)
  then have u: "unat (word_of_nat i :: VtsID) = i" using i by (auto intro: unat_of_index)
  have "gc_entry i st = Some (True, freed i p fm st)"
    using i p rc e(2,4) fm(1) u
    by (simp add: gc_entry_def VTS__delete_def add_to_free_list_def freed_def Let_def)
  with pre show ?thesis by blast
qed

text \<open>The effect of one round, and of all rounds, on the identifiers.\<close>

definition swept :: "nat set \<Rightarrow> vts_state \<Rightarrow> vts_state \<Rightarrow> bool" where
  "swept I st st' \<longleftrightarrow> vts_inv st' \<and> no_caches st' \<and> length (vts_tab st') = length (vts_tab st) \<and>
     vts_rc st' = vts_rc st \<and>
     vts_at st' = (\<lambda>v. if unat v \<in> I \<and> vts_rc st v = 0 then None else vts_at st v)"

lemma gc_entry_spec:
  assumes inv: "vts_inv st" and nc: "no_caches st" and i: "i < length (vts_tab st)"
  shows "\<exists>b st'. gc_entry i st = Some (b, st') \<and> swept {i} st st'"
proof (cases "te_vts (vts_tab st ! i)")
  case None
  have "swept {i} st st"
    using inv nc None by (auto simp: swept_def vts_at_def VtsID__to_VTS_def index_opt_def)
  with None dead_entry [OF inv i None] i show ?thesis by (auto simp: gc_entry_def)
next
  case (Some p)
  show ?thesis
  proof (cases "te_rc (vts_tab st ! i) = 0")
    case False
    then have "swept {i} st st" using inv nc i by (auto simp: swept_def vts_rc_def)
    with False Some i show ?thesis by (auto simp: gc_entry_def word_gt_0)
  next
    case True
    from gc_entry_frees [OF inv nc i Some True] obtain fm where
      pre: "gc_pre i p fm st" and eq: "gc_entry i st = Some (True, freed i p fm st)" by blast
    let ?s = "freed i p fm st"
    have "vts_rc ?s = vts_rc st" by (rule ext) (simp add: vts_rc_def freed_entry(2) [OF pre])
    moreover have "vts_at ?s v = (if unat v \<in> {i} \<and> vts_rc st v = 0 then None else vts_at st v)" for v
      using freed_entry(1) [OF pre] True i by (auto simp: vts_at_def VtsID__to_VTS_def index_opt_def vts_rc_def)
    moreover have "no_caches ?s" using nc by (simp add: no_caches_def freed_def)
    ultimately have "swept {i} st ?s" using freed_inv [OF pre] by (auto simp: swept_def)
    with eq show ?thesis by blast
  qed
qed

lemma swept_trans: "swept I st st1 \<Longrightarrow> swept J st1 st2 \<Longrightarrow> swept (I \<union> J) st st2"
  by (auto simp: swept_def)

lemma gc_loop_spec:
  assumes "vts_inv st" "no_caches st" "\<forall>i\<in>set js. i < length (vts_tab st)"
  shows "\<exists>n st'. gc_loop js m st = Some (n, st') \<and> n \<le> m + length js \<and> swept (set js) st st'"
  using assms
proof (induction js arbitrary: m st)
  case Nil
  then show ?case by (simp add: swept_def)
next
  case (Cons j js)
  from gc_entry_spec [of st j] Cons.prems obtain b st1 where
    st1: "gc_entry j st = Some (b, st1)" "swept {j} st st1" by auto
  then have ok: "vts_inv st1" "no_caches st1" "\<forall>i\<in>set js. i < length (vts_tab st1)"
    using Cons.prems(3) by (auto simp: swept_def)
  from Cons.IH [OF this, of "if b then Suc m else m"] obtain n st' where
    st': "gc_loop js (if b then Suc m else m) st1 = Some (n, st')"
      "n \<le> (if b then Suc m else m) + length js" "swept (set js) st1 st'" by blast
  have "swept (set (j # js)) st st'" using swept_trans [OF st1(2) st'(3)] by simp
  moreover have "n \<le> m + length (j # js)" using st'(2) by (auto split: if_splits)
  ultimately show ?case using st1(1) st'(1) by simp
qed

lemma do_GC_sweep_spec:
  assumes inv: "vts_inv st" and nc: "no_caches st"
  shows "\<exists>st'. vts_tab__do_GC_sweep st = Some st' \<and> vts_inv st' \<and>
           vts_rc st' = vts_rc st \<and> int (length (vts_tab st')) \<le> vts_next_GC_at st' \<and>
           vts_at st' = (\<lambda>v. if vts_rc st v = 0 then None else vts_at st v)"
proof -
  let ?n = "length (vts_tab st)"
  from gc_loop_spec [OF assms, of "[0..<?n]" 0] obtain k st1 where
    st1: "gc_loop [0..<?n] 0 st = Some (k, st1)" "k \<le> ?n" "swept {0..<?n} st st1" by auto
  let ?next = "let next = 2 * int (?n - k) in if next < int ?n then int ?n else next"
  let ?st = "st1\<lparr>vts_next_GC_at := ?next\<rparr>"
  from st1(3) have s: "vts_inv st1" "no_caches st1" "length (vts_tab st1) = ?n" "vts_rc st1 = vts_rc st"
    "vts_at st1 = (\<lambda>v. if unat v \<in> {0..<?n} \<and> vts_rc st v = 0 then None else vts_at st v)"
    by (simp_all add: swept_def)
  have "vts_at st1 v = (if vts_rc st v = 0 then None else vts_at st v)" for v
    unfolding s(5) by (auto simp: vts_at_def VtsID__to_VTS_def index_opt_def)
  then have "vts_at ?st = (\<lambda>v. if vts_rc st v = 0 then None else vts_at st v)"
    using vts_at_cong [of ?st st1] by auto
  moreover have "no_caches ?st" using s(2) by (simp add: no_caches_def)
  then have "vts_inv ?st" by (intro vts_inv_caches [OF s(1)] no_caches_ok) simp_all
  moreover have "vts_rc ?st = vts_rc st" using vts_rc_cong [of ?st st1] s(4) by simp
  moreover have "vts_tab__do_GC_sweep st = Some ?st"
    using st1(1,2) by (simp add: vts_tab__do_GC_sweep_def Let_def)
  ultimately show ?thesis using s(3) by (auto simp: Let_def)
qed
section \<open>What the table guarantees\<close>

text \<open>
  C13.  \<^verbatim>\<open>vts_tab__find_and_dealloc__or_add\<close> on a newly built timestamp never fails an
  assertion while the table has fewer than \<^verbatim>\<open>2^32 - 1\<close> entries: the identifier it returns stands for
  exactly that timestamp, every identifier that was in use still stands for the same timestamp with
  the same reference count, and the invariant of the table is kept, so that equal timestamps always
  have equal identifiers.
\<close>

theorem find_or_add_correct:
  assumes "vts_inv st" "wf_ts ts" "length (vts_tab st) < 2 ^ 32 - 1"
  shows "\<exists>vi st'. vts_tab__find_and_dealloc__or_add (fst (alloc_VTS ts st)) (snd (alloc_VTS ts st)) = Some (vi, st') \<and>
           vts_inv st' \<and> vts_at st' = (vts_at st)(vi \<mapsto> ts) \<and> vts_at st vi \<in> {None, Some ts} \<and>
           vts_rc st' = vts_rc st \<and>
           (\<forall>v w x. vts_at st' v = Some x \<and> vts_at st' w = Some x \<longrightarrow> v = w)"
proof -
  from intern_spec [OF assms] obtain vi st' where
    st': "vts_tab__find_and_dealloc__or_add (fst (alloc_VTS ts st)) (snd (alloc_VTS ts st)) = Some (vi, st')"
      "vts_inv st'" "interned st ts vi st'" by blast
  have "\<forall>v w x. vts_at st' v = Some x \<and> vts_at st' w = Some x \<longrightarrow> v = w"
    using vts_at_unique [OF st'(2)] by blast
  then show ?thesis using st'
    by (intro exI [of _ vi] exI [of _ st'] conjI) (simp_all add: interned_def del: fun_upd_apply)
qed

theorem find_or_add_correct_witness:
  "\<exists>vi st'. vts_tab__find_and_dealloc__or_add (fst (alloc_VTS [\<lparr>thr = 8, tym = 1\<rparr>] vts_init))
        (snd (alloc_VTS [\<lparr>thr = 8, tym = 1\<rparr>] vts_init)) = Some (vi, st') \<and>
     vts_at st' vi = Some [\<lparr>thr = 8, tym = 1\<rparr>]"
proof -
  have "length (vts_tab vts_init) < 2 ^ 32 - 1" by (simp add: vts_init_def VtsID__invalidate_caches_def)
  moreover have "wf_ts [\<lparr>thr = 8, tym = 1\<rparr>]" by (simp add: wf_ts_Cons)
  ultimately show ?thesis using find_or_add_correct [OF vts_inv_init, of "[\<lparr>thr = 8, tym = 1\<rparr>]"]
    by (metis fun_upd_same)
qed

lemma two_timestamps:
  "\<exists>st a b. vts_inv st \<and> vts_at st a = Some [\<lparr>thr = 8, tym = 1\<rparr>] \<and> vts_at st b = Some [\<lparr>thr = 16, tym = 1\<rparr>] \<and>
     length (vts_tab st) < 2 ^ 32 - 1"
proof -
  have len: "length (vts_tab vts_init) = 0" by (simp add: vts_init_def VtsID__invalidate_caches_def)
  with mk_Singleton_spec [OF vts_inv_init, of 8 1] obtain a s where
    s: "grown vts_init [\<lparr>thr = 8, tym = 1\<rparr>] a s" by auto
  then have "vts_inv s" "length (vts_tab s) < 2 ^ 32 - 1" using len by (auto simp: grown_def)
  with mk_Singleton_spec [of s 16 1] obtain b s' where s': "grown s [\<lparr>thr = 16, tym = 1\<rparr>] b s'" by auto
  have "vts_at s' a = Some [\<lparr>thr = 8, tym = 1\<rparr>]"
    using s by (intro grown_mono [OF s']) (simp add: grown_def)
  with s s' len show ?thesis by (intro exI [of _ s'] exI [of _ a] exI [of _ b]) (auto simp: grown_def)
qed

text \<open>
  C15.  The cached \<^verbatim>\<open>VtsID__getOrdering\<close> on identifiers in use is \<^verbatim>\<open>VTS__cmp\<close> of their timestamps,
  whatever the cache holds, and changes nothing but the cache.
\<close>

theorem getOrdering_correct:
  assumes "vts_inv st" "vts_at st a = Some x" "vts_at st b = Some y"
  shows "\<exists>st'. VtsID__getOrdering a b st = Some (VTS__cmp x y, st') \<and> vts_inv st' \<and> vts_tab st' = vts_tab st"
  using assms by (rule getOrdering_spec)

theorem getOrdering_correct_witness:
  "\<exists>st a b st'. VtsID__getOrdering a b st = Some (POrd_UN, st') \<and> vts_inv st'"
proof -
  have "VTS__cmp [\<lparr>thr = 8, tym = 1\<rparr>] [\<lparr>thr = 16, tym = 1\<rparr>] = POrd_UN"
    by (simp add: VTS__cmp_def)
  with two_timestamps getOrdering_correct show ?thesis by metis
qed

text \<open>
  C14.  The cached \<^verbatim>\<open>VtsID__join2\<close> returns an identifier of the join of the two timestamps; no
  identifier in use changes its meaning and no reference count changes.
\<close>

theorem join2_correct:
  assumes "vts_inv st" "vts_at st a = Some x" "vts_at st b = Some y" "length (vts_tab st) < 2 ^ 32 - 1"
  shows "\<exists>vi z st'. VtsID__join2 a b st = Some (vi, st') \<and> VTS__join x y = Some z \<and> vts_inv st' \<and>
           vts_at st' = (vts_at st)(vi \<mapsto> z) \<and> vts_at st vi \<in> {None, Some z} \<and> vts_rc st' = vts_rc st"
  using join2_spec [OF assms] unfolding grown_def by blast

theorem join2_correct_witness:
  "\<exists>st a b vi st'. VtsID__join2 a b st = Some (vi, st') \<and>
     vts_at st' vi = Some [\<lparr>thr = 8, tym = 1\<rparr>, \<lparr>thr = 16, tym = 1\<rparr>]"
proof -
  have "VTS__join [\<lparr>thr = 8, tym = 1\<rparr>] [\<lparr>thr = 16, tym = 1\<rparr>] = Some [\<lparr>thr = 8, tym = 1\<rparr>, \<lparr>thr = 16, tym = 1\<rparr>]"
    by (simp add: VTS__join_def join_emit_def)
  moreover obtain st a b where st: "vts_inv st" "vts_at st a = Some [\<lparr>thr = 8, tym = 1\<rparr>]"
    "vts_at st b = Some [\<lparr>thr = 16, tym = 1\<rparr>]" "length (vts_tab st) < 2 ^ 32 - 1"
    using two_timestamps by blast
  ultimately show ?thesis using join2_correct [OF st] by fastforce
qed

end
