(* ===== verification/SVal.thy ===== *)
theory SVal
  imports VtsTable
begin

text \<open>
  Shadow values of \<^verbatim>\<open>helgrind/libhb_core.c\<close> (section "Shadow Values"): a 64-bit word whose top two
  bits are a tag, with two identifiers of vector timestamps in a constrained value \<^verbatim>\<open>C(Rmin,Wmin)\<close>.
\<close>

section \<open>Encoding\<close>

type_synonym SVal = ULong

definition SVAL_TAGMASK :: SVal where
  "SVAL_TAGMASK = push_bit 62 3"

definition SVal_INVALID :: SVal where
  "SVal_INVALID = push_bit 62 3"

definition SVal_NOACCESS :: SVal where
  "SVal_NOACCESS = push_bit 62 2"

definition SVal__isC :: "SVal \<Rightarrow> bool" where
  "SVal__isC s \<longleftrightarrow> push_bit 62 0 = s AND SVAL_TAGMASK"

definition SVal__mkC :: "VtsID \<Rightarrow> VtsID \<Rightarrow> SVal" where
  "SVal__mkC rmini wmini = push_bit 32 (ucast rmini) OR ucast wmini"

definition SVal__unC_Rmin :: "SVal \<Rightarrow> VtsID option" where
  "SVal__unC_Rmin s = do { tl_assert (SVal__isC s); Some (ucast (drop_bit 32 s)) }"

definition SVal__unC_Wmin :: "SVal \<Rightarrow> VtsID option" where
  "SVal__unC_Wmin s = do { tl_assert (SVal__isC s); Some (ucast (s AND 0xFFFFFFFF)) }"

definition SVal__isE :: "SVal \<Rightarrow> bool" where
  "SVal__isE s \<longleftrightarrow> push_bit 62 1 = s AND SVAL_TAGMASK"

definition SVal__mkE :: SVal where
  "SVal__mkE = push_bit 62 1"

definition SVal__isA :: "SVal \<Rightarrow> bool" where
  "SVal__isA s \<longleftrightarrow> push_bit 62 2 = s AND SVAL_TAGMASK"

definition SVal__mkA :: SVal where
  "SVal__mkA = push_bit 62 2"

definition SVal__rcinc :: "SVal \<Rightarrow> vts_state \<Rightarrow> vts_state option" where
  "SVal__rcinc s st =
     (if SVal__isC s then
        do {
          r \<leftarrow> SVal__unC_Rmin s;
          st \<leftarrow> VtsID__rcinc r st;
          w \<leftarrow> SVal__unC_Wmin s;
          VtsID__rcinc w st
        }
      else Some st)"

definition SVal__rcdec :: "SVal \<Rightarrow> vts_state \<Rightarrow> vts_state option" where
  "SVal__rcdec s st =
     (if SVal__isC s then
        do {
          r \<leftarrow> SVal__unC_Rmin s;
          st \<leftarrow> VtsID__rcdec r st;
          w \<leftarrow> SVal__unC_Wmin s;
          VtsID__rcdec w st
        }
      else Some st)"

section \<open>Round trips\<close>

lemma bit_SVAL_TAGMASK: "bit SVAL_TAGMASK n \<longleftrightarrow> n = 62 \<or> n = 63"
proof -
  have three: "(3 :: ULong) = mask 2" by (simp add: mask_eq_exp_minus_1)
  show ?thesis unfolding SVAL_TAGMASK_def three by (auto simp: bit_push_bit_iff bit_mask_iff)
qed

lemma bit_beyond_VtsID: "(r :: VtsID) < 2 ^ 30 \<Longrightarrow> 30 \<le> n \<Longrightarrow> \<not> bit r n"
proof -
  assume "r < 2 ^ 30" and n: "30 \<le> n"
  then have "unat r < 2 ^ 30" by (simp add: word_less_nat_alt)
  then have "unat r < 2 ^ n" using n by (meson less_le_trans one_le_numeral power_increasing)
  then have "\<not> bit (unat r) n" by (simp add: bit_iff_odd)
  then show ?thesis by (simp add: bit_unsigned_iff)
qed

lemma bit_mkC: "bit (SVal__mkC r w) n \<longleftrightarrow> (if n < 32 then bit w n else bit r (n - 32))"
  by (auto simp: SVal__mkC_def bit_or_iff bit_push_bit_iff bit_unsigned_iff dest: bit_imp_le_length)

lemma isC_mkC: "r < 2 ^ 30 \<Longrightarrow> SVal__isC (SVal__mkC r w)"
  unfolding SVal__isC_def
  by (rule bit_word_eqI) (auto simp: bit_and_iff bit_SVAL_TAGMASK bit_mkC bit_beyond_VtsID)

lemma unC_Rmin_mkC: "r < 2 ^ 30 \<Longrightarrow> SVal__unC_Rmin (SVal__mkC r w) = Some r"
  by (auto simp: SVal__unC_Rmin_def isC_mkC intro!: bit_word_eqI simp: bit_ucast_iff bit_drop_bit_eq bit_mkC)

lemma unC_Wmin_mkC: "r < 2 ^ 30 \<Longrightarrow> SVal__unC_Wmin (SVal__mkC r w) = Some w"
proof -
  have m: "(0xFFFFFFFF :: ULong) = mask 32" by (simp add: mask_eq_exp_minus_1)
  have "ucast (SVal__mkC r w AND 0xFFFFFFFF) = w"
    unfolding m by (rule bit_word_eqI) (auto simp: bit_ucast_iff bit_and_iff bit_mkC bit_mask_iff)
  then show "r < 2 ^ 30 \<Longrightarrow> ?thesis" by (simp add: SVal__unC_Wmin_def isC_mkC)
qed

lemma mkC_unC: "SVal__isC s \<Longrightarrow> SVal__mkC (ucast (drop_bit 32 s)) (ucast (s AND 0xFFFFFFFF)) = s"
proof -
  have m: "(0xFFFFFFFF :: ULong) = mask 32" by (simp add: mask_eq_exp_minus_1)
  show ?thesis unfolding m
    by (rule bit_word_eqI) (auto simp: bit_mkC bit_ucast_iff bit_and_iff bit_mask_iff bit_drop_bit_eq)
qed

lemma isC_tag_bits: "SVal__isC s \<longleftrightarrow> \<not> bit s 62 \<and> \<not> bit s 63"
proof
  assume "SVal__isC s"
  then have "bit (s AND SVAL_TAGMASK) n \<longleftrightarrow> False" for n by (simp add: SVal__isC_def)
  then show "\<not> bit s 62 \<and> \<not> bit s 63" by (auto simp: bit_and_iff bit_SVAL_TAGMASK)
next
  assume "\<not> bit s 62 \<and> \<not> bit s 63"
  then show "SVal__isC s" unfolding SVal__isC_def
    by (intro bit_word_eqI) (auto simp: bit_and_iff bit_SVAL_TAGMASK)
qed

lemma not_isC_special [simp]:
  "\<not> SVal__isC SVal_INVALID" "\<not> SVal__isC SVal_NOACCESS" "\<not> SVal__isC SVal__mkE"
  by (simp_all add: SVal__isC_def SVal_INVALID_def SVal_NOACCESS_def SVal__mkE_def SVAL_TAGMASK_def)

lemma isA_isE_special [simp]:
  "SVal__isA SVal_NOACCESS" "\<not> SVal__isE SVal_NOACCESS" "SVal__isE SVal__mkE" "\<not> SVal__isA SVal__mkE"
  "\<not> SVal__isA SVal_INVALID" "\<not> SVal__isE SVal_INVALID"
  by (simp_all add: SVal__isA_def SVal__isE_def SVal_INVALID_def SVal_NOACCESS_def SVal__mkE_def SVAL_TAGMASK_def)

lemma mkC_not_special [simp]:
  "r < 2 ^ 30 \<Longrightarrow> SVal__mkC r w \<noteq> SVal_INVALID" "r < 2 ^ 30 \<Longrightarrow> SVal__mkC r w \<noteq> SVal_NOACCESS"
  using isC_mkC [of r w] by auto

text \<open>
  C32.  The encoding of constrained shadow values is a bijection: packing two identifiers of at
  most 30 bits gives a word with the tag of a constrained value from which both are read back, it is
  neither \<^verbatim>\<open>SVal_INVALID\<close> nor \<^verbatim>\<open>SVal_NOACCESS\<close>, and packing the two halves of a constrained value gives
  it back.
\<close>

theorem SVal_C_roundtrip:
  "(r < 2 ^ 30 \<longrightarrow> SVal__isC (SVal__mkC r w) \<and> SVal__unC_Rmin (SVal__mkC r w) = Some r \<and>
      SVal__unC_Wmin (SVal__mkC r w) = Some w \<and> SVal__mkC r w \<notin> {SVal_INVALID, SVal_NOACCESS}) \<and>
   (SVal__unC_Rmin s = Some r \<and> SVal__unC_Wmin s = Some w \<longrightarrow> SVal__mkC r w = s)"
  using isC_mkC unC_Rmin_mkC unC_Wmin_mkC mkC_unC [of s]
  by (auto simp: SVal__unC_Rmin_def SVal__unC_Wmin_def split: if_splits)

theorem SVal_C_roundtrip_witness:
  "SVal__unC_Rmin (SVal__mkC 5 7) = Some 5 \<and> SVal__unC_Wmin (SVal__mkC 5 7) = Some 7"
  using SVal_C_roundtrip [of 5 7] by (simp add: word_less_nat_alt)

end
