(* ===== verification/MSM.thy ===== *)
theory MSM
  imports SVal
begin

text \<open>
  The memory state machine of \<^verbatim>\<open>helgrind/libhb_core.c\<close> (section "Core MSM"): how the shadow value of
  a location changes on a read and on a write, and when a race is reported.  The debugging switch
  \<^verbatim>\<open>CHECK_MSM\<close> is off and \<^verbatim>\<open>MSM_RACE2ERR\<close> is zero, as in the source.

  Calls that leave the library or feed the conflicting-access map are events: \<open>RecordRace\<close> for
  \<^verbatim>\<open>HG_(record_error_Race)\<close> and \<open>EventMapBind\<close> for \<^verbatim>\<open>event_map_bind\<close>.
\<close>

section \<open>State machine\<close>

record Thr =
  viR :: VtsID
  viW :: VtsID
  opaque :: UWord

datatype hb_event =
    RecordRace (ev_thr: Thr_ptr) (ev_addr: Addr) (ev_szB: nat) (ev_isW: bool)
  | EventMapBind (ev_addr: Addr) (ev_szB: nat) (ev_isW: bool) (ev_thr: Thr_ptr)

fun is_race :: "hb_event \<Rightarrow> bool" where
  "is_race (RecordRace t a sz w) = True"
| "is_race (EventMapBind a sz w t) = False"

definition record_race_info :: "Thr_ptr \<Rightarrow> Thr \<Rightarrow> Addr \<Rightarrow> nat \<Rightarrow> bool \<Rightarrow> hb_event option" where
  "record_race_info p acc_thr a szB isWrite = do { tl_assert (opaque acc_thr \<noteq> 0); Some (RecordRace p a szB isWrite) }"

definition is_sane_SVal_C :: "SVal \<Rightarrow> vts_state \<Rightarrow> (bool \<times> vts_state) option" where
  "is_sane_SVal_C sv st =
     (if \<not> SVal__isC sv then Some (True, st)
      else
        do {
          r \<leftarrow> SVal__unC_Rmin sv;
          w \<leftarrow> SVal__unC_Wmin sv;
          (ord, st) \<leftarrow> VtsID__getOrdering r w st;
          Some (ord = POrd_EQ \<or> ord = POrd_LT, st)
        })"

text \<open>The label \<^verbatim>\<open>out\<close> of both functions.\<close>

definition msm_out ::
  "bool \<Rightarrow> SVal \<Rightarrow> SVal \<Rightarrow> Thr_ptr \<Rightarrow> Addr \<Rightarrow> nat \<Rightarrow> bool \<Rightarrow> hb_event list \<Rightarrow> vts_state \<Rightarrow>
   (SVal \<times> hb_event list \<times> vts_state) option" where
  "msm_out show_conflicts svOld svNew p a szB isWrite evs st =
     do {
       tl_assert (svNew \<noteq> SVal_INVALID);
       Some (svNew,
             evs @ (if svNew \<noteq> svOld \<and> show_conflicts \<and> SVal__isC svOld \<and> SVal__isC svNew
                    then [EventMapBind a szB isWrite p] else []),
             st)
     }"

definition msm_read ::
  "bool \<Rightarrow> SVal \<Rightarrow> Thr_ptr \<Rightarrow> Thr \<Rightarrow> Addr \<Rightarrow> nat \<Rightarrow> vts_state \<Rightarrow> (SVal \<times> hb_event list \<times> vts_state) option" where
  "msm_read show_conflicts svOld p acc_thr acc_addr szB st =
     (if SVal__isC svOld then
        do {
          let tviR = viR acc_thr;
          let tviW = viW acc_thr;
          rmini \<leftarrow> SVal__unC_Rmin svOld;
          wmini \<leftarrow> SVal__unC_Wmin svOld;
          (ord, st) \<leftarrow> VtsID__getOrdering rmini tviR st;
          if ord = POrd_EQ \<or> ord = POrd_LT then
            do {
              (w', st) \<leftarrow> VtsID__join2 wmini tviW st;
              msm_out show_conflicts svOld (SVal__mkC rmini w') p acc_addr szB False [] st
            }
          else
            do {
              (ordxx, st) \<leftarrow> VtsID__getOrdering rmini wmini st;
              tl_assert (ordxx = POrd_EQ \<or> ordxx = POrd_LT);
              (r', st) \<leftarrow> VtsID__join2 rmini tviR st;
              (w', st) \<leftarrow> VtsID__join2 wmini tviW st;
              ev \<leftarrow> record_race_info p acc_thr acc_addr szB False;
              msm_out show_conflicts svOld (SVal__mkC r' w') p acc_addr szB False [ev] st
            }
        }
      else if SVal__isA svOld then
        do {
          tl_assert (svOld = SVal_NOACCESS);
          msm_out show_conflicts svOld SVal_NOACCESS p acc_addr szB False [] st
        }
      else if SVal__isE svOld then msm_out show_conflicts svOld SVal__mkE p acc_addr szB False [] st
      else None)"

definition msm_write ::
  "bool \<Rightarrow> SVal \<Rightarrow> Thr_ptr \<Rightarrow> Thr \<Rightarrow> Addr \<Rightarrow> nat \<Rightarrow> vts_state \<Rightarrow> (SVal \<times> hb_event list \<times> vts_state) option" where
  "msm_write show_conflicts svOld p acc_thr acc_addr szB st =
     (if SVal__isC svOld then
        do {
          let tviW = viW acc_thr;
          wmini \<leftarrow> SVal__unC_Wmin svOld;
          (ord, st) \<leftarrow> VtsID__getOrdering wmini tviW st;
          if ord = POrd_EQ \<or> ord = POrd_LT then
            msm_out show_conflicts svOld (SVal__mkC tviW tviW) p acc_addr szB True [] st
          else
            do {
              let tviR = viR acc_thr;
              rmini \<leftarrow> SVal__unC_Rmin svOld;
              (ordxx, st) \<leftarrow> VtsID__getOrdering rmini wmini st;
              tl_assert (ordxx = POrd_EQ \<or> ordxx = POrd_LT);
              (r', st) \<leftarrow> VtsID__join2 rmini tviR st;
              (w', st) \<leftarrow> VtsID__join2 wmini tviW st;
              ev \<leftarrow> record_race_info p acc_thr acc_addr szB True;
              msm_out show_conflicts svOld (SVal__mkC r' w') p acc_addr szB True [ev] st
            }
        }
      else if SVal__isA svOld then
        do {
          tl_assert (svOld = SVal_NOACCESS);
          msm_out show_conflicts svOld SVal_NOACCESS p acc_addr szB True [] st
        }
      else if SVal__isE svOld then msm_out show_conflicts svOld SVal__mkE p acc_addr szB True [] st
      else None)"

section \<open>Least upper bounds of sets of timestamps\<close>

definition lub_of :: "ts_array \<Rightarrow> ts_array set \<Rightarrow> bool" where
  "lub_of x S \<longleftrightarrow> wf_ts x \<and> (\<forall>c. wf_ts c \<longrightarrow> (vts_leq x c \<longleftrightarrow> (\<forall>s\<in>S. vts_leq s c)))"

lemma lub_of_single: "wf_ts x \<Longrightarrow> lub_of x {x}"
  by (simp add: lub_of_def)

lemma lub_of_insert:
  assumes "lub_of x S" "wf_ts y" "VTS__join x y = Some z"
  shows "lub_of z (insert y S)"
proof -
  have x: "wf_ts x" using assms(1) by (simp add: lub_of_def)
  from VTS__join_spec [OF x assms(2)] assms(3) have z: "wf_ts z"
    "\<forall>t. VTS__indexAt_SLOW z t = max (VTS__indexAt_SLOW x t) (VTS__indexAt_SLOW y t)" by auto
  then have "wf_ts c \<Longrightarrow> vts_leq z c \<longleftrightarrow> vts_leq x c \<and> vts_leq y c" for c
    using x assms(2) by (auto simp: vts_leq_iff)
  with assms(1) z(1) show ?thesis by (auto simp: lub_of_def)
qed

lemma lub_of_leq: "lub_of x S \<Longrightarrow> wf_ts c \<Longrightarrow> vts_leq x c \<longleftrightarrow> (\<forall>s\<in>S. vts_leq s c)"
  by (simp add: lub_of_def)

lemma vts_leq_refl: "wf_ts x \<Longrightarrow> vts_leq x x"
  by (simp add: vts_leq_iff)

lemma vts_leq_trans: "wf_ts x \<Longrightarrow> wf_ts y \<Longrightarrow> wf_ts z \<Longrightarrow> vts_leq x y \<Longrightarrow> vts_leq y z \<Longrightarrow> vts_leq x z"
  by (auto simp: vts_leq_iff intro: order_trans)

section \<open>One access\<close>

text \<open>Identifiers in use keep their timestamps and counts; the table grows by at most \<open>n\<close> entries.\<close>

definition extends :: "nat \<Rightarrow> vts_state \<Rightarrow> vts_state \<Rightarrow> bool" where
  "extends n st st' \<longleftrightarrow> vts_inv st' \<and> (\<forall>v x. vts_at st v = Some x \<longrightarrow> vts_at st' v = Some x) \<and>
     vts_rc st' = vts_rc st \<and> length (vts_tab st') \<le> length (vts_tab st) + n"

lemma extends_trans: "extends m st st1 \<Longrightarrow> extends n st1 st2 \<Longrightarrow> extends (m + n) st st2"
  by (auto simp: extends_def)

lemma extends_at: "extends n st st' \<Longrightarrow> vts_at st v = Some x \<Longrightarrow> vts_at st' v = Some x"
  by (simp add: extends_def)

lemma extends_inv: "extends n st st' \<Longrightarrow> vts_inv st'"
  by (simp add: extends_def)

lemma extends_mono: "extends m st st' \<Longrightarrow> m \<le> n \<Longrightarrow> extends n st st'"
  by (auto simp: extends_def)

lemma getOrdering_ext:
  assumes "vts_inv st" "vts_at st a = Some x" "vts_at st b = Some y"
  shows "\<exists>st'. VtsID__getOrdering a b st = Some (VTS__cmp x y, st') \<and> extends 0 st st'"
proof -
  from getOrdering_spec [OF assms] obtain st' where
    st': "VtsID__getOrdering a b st = Some (VTS__cmp x y, st')" "vts_inv st'" "vts_tab st' = vts_tab st" by blast
  then have "extends 0 st st'" using vts_at_cong [OF st'(3)] vts_rc_cong [OF st'(3)] by (simp add: extends_def)
  with st'(1) show ?thesis by blast
qed

lemma join2_ext:
  assumes "vts_inv st" "vts_at st a = Some x" "vts_at st b = Some y" "length (vts_tab st) < 2 ^ 30"
  shows "\<exists>v z st'. VtsID__join2 a b st = Some (v, st') \<and> VTS__join x y = Some z \<and> extends 1 st st' \<and>
           vts_at st' v = Some z"
proof -
  have "length (vts_tab st) < 2 ^ 32 - 1" using assms(4) by simp
  from join2_spec [OF assms(1-3) this] obtain v z st' where
    st': "VtsID__join2 a b st = Some (v, st')" "VTS__join x y = Some z" "grown st z v st'" by blast
  then have "extends 1 st st'" "vts_at st' v = Some z" using grown_mono [OF st'(3)] by (auto simp: grown_def extends_def)
  with st' show ?thesis by blast
qed

lemma live_small: "vts_at st v = Some x \<Longrightarrow> length (vts_tab st) \<le> 2 ^ 30 \<Longrightarrow> v < 2 ^ 30"
  by (auto simp: vts_at_Some word_less_nat_alt)

text \<open>
  The constraint a shadow value stands for, as two sets of timestamps: a read must come after all
  of the first, a write after all of the second.
\<close>

definition sval_rep :: "vts_state \<Rightarrow> SVal \<Rightarrow> ts_array set \<Rightarrow> ts_array set \<Rightarrow> bool" where
  "sval_rep st s Rs Ws \<longleftrightarrow> (\<exists>r w xr xw. s = SVal__mkC r w \<and> r < 2 ^ 30 \<and>
     vts_at st r = Some xr \<and> vts_at st w = Some xw \<and> lub_of xr Rs \<and> lub_of xw Ws)"

lemma sval_rep_mkC:
  "vts_at st r = Some xr \<Longrightarrow> vts_at st w = Some xw \<Longrightarrow> lub_of xr Rs \<Longrightarrow> lub_of xw Ws \<Longrightarrow>
   length (vts_tab st) \<le> 2 ^ 30 \<Longrightarrow> sval_rep st (SVal__mkC r w) Rs Ws"
  unfolding sval_rep_def using live_small by blast

text \<open>The clocks of a thread.\<close>

definition thr_rep :: "vts_state \<Rightarrow> Thr \<Rightarrow> ts_array \<Rightarrow> ts_array \<Rightarrow> bool" where
  "thr_rep st t R W \<longleftrightarrow> vts_at st (viR t) = Some R \<and> vts_at st (viW t) = Some W \<and> opaque t \<noteq> 0"

text \<open>Both functions leave through the label \<^verbatim>\<open>out\<close>, which adds no race report.\<close>

lemma msm_out_mkC:
  assumes "vts_at st r = Some x" "length (vts_tab st) \<le> 2 ^ 30"
  shows "\<exists>evs'. msm_out sc svOld (SVal__mkC r w) p a szB isW evs st = Some (SVal__mkC r w, evs', st) \<and>
           filter is_race evs' = filter is_race evs"
  using live_small [OF assms] by (auto simp: msm_out_def)

definition sane :: "ts_array set \<Rightarrow> ts_array set \<Rightarrow> bool" where
  "sane Rs Ws \<longleftrightarrow> (\<forall>c. wf_ts c \<and> (\<forall>s\<in>Ws. vts_leq s c) \<longrightarrow> (\<forall>s\<in>Rs. vts_leq s c))"

lemma sane_leq: "lub_of x Rs \<Longrightarrow> lub_of y Ws \<Longrightarrow> sane Rs Ws \<longleftrightarrow> vts_leq x y"
  unfolding sane_def lub_of_def
  by (metis vts_leq_refl vts_leq_trans)

text \<open>The specification of one access: the new constraint, and whether the access is a race.\<close>

definition abs_read :: "ts_array \<Rightarrow> ts_array \<Rightarrow> ts_array set \<times> ts_array set \<Rightarrow> bool \<times> ts_array set \<times> ts_array set" where
  "abs_read R W c = (case c of (Rs, Ws) \<Rightarrow>
     if \<forall>s\<in>Rs. vts_leq s R then (False, Rs, insert W Ws) else (True, insert R Rs, insert W Ws))"

definition abs_write :: "ts_array \<Rightarrow> ts_array \<Rightarrow> ts_array set \<times> ts_array set \<Rightarrow> bool \<times> ts_array set \<times> ts_array set" where
  "abs_write R W c = (case c of (Rs, Ws) \<Rightarrow>
     if \<forall>s\<in>Ws. vts_leq s W then (False, {W}, {W}) else (True, insert R Rs, insert W Ws))"

text \<open>What it means for the machine to make the step that the specification makes.\<close>

definition step_ok ::
  "vts_state \<Rightarrow> hb_event list \<Rightarrow> bool \<times> ts_array set \<times> ts_array set \<Rightarrow>
   (SVal \<times> hb_event list \<times> vts_state) option \<Rightarrow> bool" where
  "step_ok st race spec res \<longleftrightarrow> (\<exists>s' evs st'. res = Some (s', evs, st') \<and> extends 2 st st' \<and>
     sval_rep st' s' (fst (snd spec)) (snd (snd spec)) \<and>
     filter is_race evs = (if fst spec then race else []))"

lemma extends_trans_0: "extends 0 st st1 \<Longrightarrow> extends n st1 st2 \<Longrightarrow> extends n st st2"
  using extends_trans [of 0 st st1 n st2] by simp

lemma vts_leq_cmp: "(VTS__cmp x y = POrd_EQ \<or> VTS__cmp x y = POrd_LT) \<longleftrightarrow> vts_leq x y"
  by (auto simp: vts_leq_def)

text \<open>The racing branch is the same for reads and writes.\<close>

lemma race_branch:
  assumes inv: "vts_inv st" and len: "length (vts_tab st) + 2 \<le> 2 ^ 30"
    and s: "vts_at st r = Some xr" "vts_at st w = Some xw" "lub_of xr Rs" "lub_of xw Ws"
    and t: "thr_rep st t R W" and sane: "sane Rs Ws"
  shows "\<exists>st1 st2 st3 r' w' evs.
     VtsID__getOrdering r w st = Some (VTS__cmp xr xw, st1) \<and>
     (VTS__cmp xr xw = POrd_EQ \<or> VTS__cmp xr xw = POrd_LT) \<and>
     VtsID__join2 r (viR t) st1 = Some (r', st2) \<and> VtsID__join2 w (viW t) st2 = Some (w', st3) \<and>
     record_race_info p t a szB isW = Some (RecordRace p a szB isW) \<and>
     msm_out sc svOld (SVal__mkC r' w') p a szB isW [RecordRace p a szB isW] st3 = Some (SVal__mkC r' w', evs, st3) \<and>
     extends 2 st st3 \<and> sval_rep st3 (SVal__mkC r' w') (insert R Rs) (insert W Ws) \<and>
     filter is_race evs = [RecordRace p a szB isW]"
proof -
  from t have T: "vts_at st (viR t) = Some R" "vts_at st (viW t) = Some W" "opaque t \<noteq> 0"
    by (simp_all add: thr_rep_def)
  from getOrdering_ext [OF inv s(1,2)] obtain st1 where
    1: "VtsID__getOrdering r w st = Some (VTS__cmp xr xw, st1)" "extends 0 st st1" by blast
  have "length (vts_tab st1) < 2 ^ 30" using 1(2) len by (simp add: extends_def)
  from join2_ext [OF extends_inv [OF 1(2)] extends_at [OF 1(2) s(1)] extends_at [OF 1(2) T(1)] this]
  obtain r' xr' st2 where 2: "VtsID__join2 r (viR t) st1 = Some (r', st2)" "VTS__join xr R = Some xr'"
    "extends 1 st1 st2" "vts_at st2 r' = Some xr'" by blast
  have e2: "extends 1 st st2" using extends_trans [OF 1(2) 2(3)] by simp
  have "length (vts_tab st2) < 2 ^ 30" using e2 len by (simp add: extends_def)
  from join2_ext [OF extends_inv [OF e2] extends_at [OF e2 s(2)] extends_at [OF e2 T(2)] this]
  obtain w' xw' st3 where 3: "VtsID__join2 w (viW t) st2 = Some (w', st3)" "VTS__join xw W = Some xw'"
    "extends 1 st2 st3" "vts_at st3 w' = Some xw'" by blast
  have e3: "extends 2 st st3" using extends_trans [OF e2 3(3)] by (simp add: numeral_2_eq_2)
  have small: "length (vts_tab st3) \<le> 2 ^ 30" using e3 len by (simp add: extends_def)
  have r': "vts_at st3 r' = Some xr'" using 3(3) 2(4) by (rule extends_at)
  have wf: "wf_ts R" "wf_ts W" using vts_at_wf [OF inv] T by blast+
  have "lub_of xr' (insert R Rs)" "lub_of xw' (insert W Ws)"
    using lub_of_insert [OF s(3) wf(1) 2(2)] lub_of_insert [OF s(4) wf(2) 3(2)] by auto
  then have rep: "sval_rep st3 (SVal__mkC r' w') (insert R Rs) (insert W Ws)"
    using r' 3(4) small by (intro sval_rep_mkC)
  have "vts_leq xr xw" using sane sane_leq [OF s(3,4)] by blast
  then show ?thesis
    using 1 2 3 e3 rep T(3) msm_out_mkC [OF r' small, of sc svOld w' p a szB isW "[RecordRace p a szB isW]"]
    by (auto simp: record_race_info_def vts_leq_cmp)
qed

lemma msm_read_spec:
  assumes inv: "vts_inv st" and len: "length (vts_tab st) + 2 \<le> 2 ^ 30"
    and rep: "sval_rep st s Rs Ws" and t: "thr_rep st t R W" and sane: "sane Rs Ws"
  shows "step_ok st [RecordRace p a szB False] (abs_read R W (Rs, Ws)) (msm_read sc s p t a szB st)"
proof -
  from rep obtain r w xr xw where s: "s = SVal__mkC r w" "r < 2 ^ 30" "vts_at st r = Some xr" "vts_at st w = Some xw"
    "lub_of xr Rs" "lub_of xw Ws" by (auto simp: sval_rep_def)
  note unC = isC_mkC [OF s(2)] unC_Rmin_mkC [OF s(2)] unC_Wmin_mkC [OF s(2)]
  from t have T: "vts_at st (viR t) = Some R" "vts_at st (viW t) = Some W" by (simp_all add: thr_rep_def)
  have wf: "wf_ts R" "wf_ts W" using vts_at_wf [OF inv] T by blast+
  from getOrdering_ext [OF inv s(3) T(1)] obtain st1 where
    1: "VtsID__getOrdering r (viR t) st = Some (VTS__cmp xr R, st1)" "extends 0 st st1" by blast
  have inv1: "vts_inv st1" and len1: "length (vts_tab st1) + 2 \<le> 2 ^ 30"
    using 1(2) len by (auto simp: extends_def)
  have race: "(\<forall>x\<in>Rs. vts_leq x R) \<longleftrightarrow> vts_leq xr R" using lub_of_leq [OF s(5) wf(1)] by blast
  show ?thesis
  proof (cases "vts_leq xr R")
    case True
    from join2_ext [OF inv1 extends_at [OF 1(2) s(4)] extends_at [OF 1(2) T(2)]] len1 obtain w' xw' st2 where
      2: "VtsID__join2 w (viW t) st1 = Some (w', st2)" "VTS__join xw W = Some xw'" "extends 1 st1 st2"
        "vts_at st2 w' = Some xw'" by auto
    have e2: "extends 1 st st2" using extends_trans [OF 1(2) 2(3)] by simp
    have small: "length (vts_tab st2) \<le> 2 ^ 30" using e2 len by (simp add: extends_def)
    have r: "vts_at st2 r = Some xr" using e2 s(3) by (rule extends_at)
    have "sval_rep st2 (SVal__mkC r w') Rs (insert W Ws)"
      using r 2(4) s(5) lub_of_insert [OF s(6) wf(2) 2(2)] small by (rule sval_rep_mkC)
    with msm_out_mkC [OF r small, of sc s w' p a szB False "[]"] 1(1) 2(1) True race extends_mono [OF e2, of 2]
    show ?thesis
      by (auto simp: step_ok_def abs_read_def msm_read_def s(1) unC vts_leq_cmp)
  next
    case False
    have t1: "thr_rep st1 t R W" using t extends_at [OF 1(2)] by (simp add: thr_rep_def)
    from race_branch [OF inv1 len1 extends_at [OF 1(2) s(3)] extends_at [OF 1(2) s(4)] s(5,6) t1 sane,
        where p = p and a = a and szB = szB and isW = False and sc = sc and svOld = s]
    show ?thesis using 1(1) False race extends_trans_0 [OF 1(2)]
      by (auto simp: step_ok_def abs_read_def msm_read_def s(1) unC vts_leq_cmp)
  qed
qed

lemma msm_write_spec:
  assumes inv: "vts_inv st" and len: "length (vts_tab st) + 2 \<le> 2 ^ 30"
    and rep: "sval_rep st s Rs Ws" and t: "thr_rep st t R W" and sane: "sane Rs Ws"
  shows "step_ok st [RecordRace p a szB True] (abs_write R W (Rs, Ws)) (msm_write sc s p t a szB st)"
proof -
  from rep obtain r w xr xw where s: "s = SVal__mkC r w" "r < 2 ^ 30" "vts_at st r = Some xr" "vts_at st w = Some xw"
    "lub_of xr Rs" "lub_of xw Ws" by (auto simp: sval_rep_def)
  note unC = isC_mkC [OF s(2)] unC_Rmin_mkC [OF s(2)] unC_Wmin_mkC [OF s(2)]
  from t have T: "vts_at st (viR t) = Some R" "vts_at st (viW t) = Some W" by (simp_all add: thr_rep_def)
  have wf: "wf_ts R" "wf_ts W" using vts_at_wf [OF inv] T by blast+
  from getOrdering_ext [OF inv s(4) T(2)] obtain st1 where
    1: "VtsID__getOrdering w (viW t) st = Some (VTS__cmp xw W, st1)" "extends 0 st st1" by blast
  have inv1: "vts_inv st1" and len1: "length (vts_tab st1) + 2 \<le> 2 ^ 30"
    using 1(2) len by (auto simp: extends_def)
  have race: "(\<forall>x\<in>Ws. vts_leq x W) \<longleftrightarrow> vts_leq xw W" using lub_of_leq [OF s(6) wf(2)] by blast
  show ?thesis
  proof (cases "vts_leq xw W")
    case True
    have w: "vts_at st1 (viW t) = Some W" using 1(2) T(2) by (rule extends_at)
    have small: "length (vts_tab st1) \<le> 2 ^ 30" using len1 by simp
    have "sval_rep st1 (SVal__mkC (viW t) (viW t)) {W} {W}"
      using w w lub_of_single [OF wf(2)] lub_of_single [OF wf(2)] small by (rule sval_rep_mkC)
    with msm_out_mkC [OF w small, of sc s "viW t" p a szB True "[]"] 1(1) True race extends_mono [OF 1(2), of 2]
    show ?thesis
      by (auto simp: step_ok_def abs_write_def msm_write_def s(1) unC vts_leq_cmp Let_def)
  next
    case False
    have t1: "thr_rep st1 t R W" using t extends_at [OF 1(2)] by (simp add: thr_rep_def)
    from race_branch [OF inv1 len1 extends_at [OF 1(2) s(3)] extends_at [OF 1(2) s(4)] s(5,6) t1 sane,
        where p = p and a = a and szB = szB and isW = True and sc = sc and svOld = s]
    show ?thesis using 1(1) False race extends_trans_0 [OF 1(2)]
      by (auto simp: step_ok_def abs_write_def msm_write_def s(1) unC vts_leq_cmp Let_def)
  qed
qed
section \<open>Histories of one location\<close>

record access =
  acc_isW :: bool
  acc_ptr :: Thr_ptr
  acc_thr :: Thr
  acc_addr :: Addr
  acc_szB :: nat

definition msm_access ::
  "bool \<Rightarrow> access \<Rightarrow> SVal \<Rightarrow> vts_state \<Rightarrow> (SVal \<times> hb_event list \<times> vts_state) option" where
  "msm_access sc x s st =
     (if acc_isW x then msm_write sc s (acc_ptr x) (acc_thr x) (acc_addr x) (acc_szB x) st
      else msm_read sc s (acc_ptr x) (acc_thr x) (acc_addr x) (acc_szB x) st)"

fun msm_run ::
  "bool \<Rightarrow> access list \<Rightarrow> SVal \<Rightarrow> vts_state \<Rightarrow> (SVal \<times> hb_event list \<times> vts_state) option" where
  "msm_run sc [] s st = Some (s, [], st)"
| "msm_run sc (x # xs) s st =
     do {
       (s, ev, st) \<leftarrow> msm_access sc x s st;
       (s, evs, st) \<leftarrow> msm_run sc xs s st;
       Some (s, ev @ evs, st)
     }"

text \<open>
  The clocks of an access: whether it is a write, the read clock and the write clock of the thread.
  Two accesses conflict when one of them is a write; the earlier one is ordered before the later
  one when its write clock is below the clock with which the later one is checked.
\<close>

record clocks =
  cl_isW :: bool
  cl_R :: ts_array
  cl_W :: ts_array

definition ordered :: "clocks \<Rightarrow> clocks \<Rightarrow> bool" where
  "ordered c d \<longleftrightarrow> (cl_isW c \<or> cl_isW d \<longrightarrow> vts_leq (cl_W c) (if cl_isW d then cl_W d else cl_R d))"

definition access_rep :: "vts_state \<Rightarrow> access \<Rightarrow> clocks \<Rightarrow> bool" where
  "access_rep st x c \<longleftrightarrow> acc_isW x = cl_isW c \<and> thr_rep st (acc_thr x) (cl_R c) (cl_W c)"

definition abs_access :: "clocks \<Rightarrow> ts_array set \<times> ts_array set \<Rightarrow> bool \<times> ts_array set \<times> ts_array set" where
  "abs_access c cs = (if cl_isW c then abs_write (cl_R c) (cl_W c) cs else abs_read (cl_R c) (cl_W c) cs)"

definition wf_clocks :: "clocks \<Rightarrow> bool" where
  "wf_clocks c \<longleftrightarrow> wf_ts (cl_R c) \<and> wf_ts (cl_W c)"

text \<open>What the constraint of a location knows of a race-free history.\<close>

definition covers :: "clocks list \<Rightarrow> ts_array set \<Rightarrow> ts_array set \<Rightarrow> bool" where
  "covers h Rs Ws \<longleftrightarrow> Rs \<subseteq> Ws \<and> (\<forall>d\<in>set h. wf_clocks d) \<and>
     Rs \<subseteq> cl_W ` {d \<in> set h. cl_isW d} \<and> Ws \<subseteq> cl_W ` set h \<and>
     (\<forall>d\<in>set h. cl_isW d \<longrightarrow> (\<exists>s\<in>Rs. vts_leq (cl_W d) s)) \<and> (\<forall>d\<in>set h. \<exists>s\<in>Ws. vts_leq (cl_W d) s)"

text \<open>A bound on the constraint is a bound on every access it stands for.\<close>

lemma covered_bound:
  assumes S: "S \<subseteq> cl_W ` D" "\<forall>d\<in>D. wf_clocks d" "\<forall>d\<in>D. \<exists>s\<in>S. vts_leq (cl_W d) s" and wf: "wf_ts b"
  shows "(\<forall>s\<in>S. vts_leq s b) \<longleftrightarrow> (\<forall>d\<in>D. vts_leq (cl_W d) b)"
proof
  assume l: "\<forall>s\<in>S. vts_leq s b"
  show "\<forall>d\<in>D. vts_leq (cl_W d) b"
  proof
    fix d assume d: "d \<in> D"
    with S(3) obtain s where s: "s \<in> S" "vts_leq (cl_W d) s" by blast
    then have "wf_ts s" "wf_ts (cl_W d)" using S(1,2) d by (auto simp: wf_clocks_def)
    with l s wf show "vts_leq (cl_W d) b" using vts_leq_trans by blast
  qed
next
  assume "\<forall>d\<in>D. vts_leq (cl_W d) b"
  with S(1) show "\<forall>s\<in>S. vts_leq s b" by auto
qed

lemma covers_race:
  assumes c: "covers h Rs Ws" and wf: "wf_clocks x"
  shows "fst (abs_access x (Rs, Ws)) \<longleftrightarrow> (\<exists>d\<in>set h. \<not> ordered d x)"
proof (cases "cl_isW x")
  case True
  have "(\<forall>s\<in>Ws. vts_leq s (cl_W x)) \<longleftrightarrow> (\<forall>d\<in>set h. vts_leq (cl_W d) (cl_W x))"
    using c wf by (intro covered_bound) (auto simp: covers_def wf_clocks_def)
  with True show ?thesis by (auto simp: abs_access_def abs_write_def ordered_def)
next
  case False
  have "(\<forall>s\<in>Rs. vts_leq s (cl_R x)) \<longleftrightarrow> (\<forall>d\<in>{d \<in> set h. cl_isW d}. vts_leq (cl_W d) (cl_R x))"
    using c wf by (intro covered_bound) (auto simp: covers_def wf_clocks_def)
  with False show ?thesis by (auto simp: abs_access_def abs_read_def ordered_def)
qed

lemma covers_step:
  assumes c: "covers h Rs Ws" and wf: "wf_clocks x"
    and nr: "abs_access x (Rs, Ws) = (False, Rs', Ws')"
  shows "covers (h @ [x]) Rs' Ws'"
proof -
  have refl: "vts_leq (cl_W x) (cl_W x)" using wf vts_leq_refl by (simp add: wf_clocks_def)
  show ?thesis
  proof (cases "cl_isW x")
    case True
    with nr have s: "Rs' = {cl_W x}" "Ws' = {cl_W x}"
      by (auto simp: abs_access_def abs_write_def split: if_splits)
    have "\<forall>d\<in>set h. ordered d x" using covers_race [OF c wf] nr by auto
    then have "\<forall>d\<in>set h. vts_leq (cl_W d) (cl_W x)" using True by (auto simp: ordered_def)
    then show ?thesis using c wf refl True unfolding s covers_def by auto
  next
    case False
    with nr have s: "Rs' = Rs" "Ws' = insert (cl_W x) Ws"
      by (auto simp: abs_access_def abs_read_def split: if_splits)
    show ?thesis using c wf refl False unfolding s covers_def by auto
  qed
qed

lemma covers_init: "wf_clocks c \<Longrightarrow> cl_isW c \<Longrightarrow> covers [c] {cl_W c} {cl_W c}"
  using vts_leq_refl by (auto simp: covers_def wf_clocks_def)

lemma covers_sane: "covers h Rs Ws \<Longrightarrow> sane Rs Ws"
  by (auto simp: covers_def sane_def)

lemma msm_access_spec:
  assumes "vts_inv st" "length (vts_tab st) + 2 \<le> 2 ^ 30" "sval_rep st s Rs Ws" "access_rep st x c" "sane Rs Ws"
  shows "step_ok st [RecordRace (acc_ptr x) (acc_addr x) (acc_szB x) (acc_isW x)] (abs_access c (Rs, Ws))
           (msm_access sc x s st)"
  using assms(4) msm_read_spec [OF assms(1-3) _ assms(5)] msm_write_spec [OF assms(1-3) _ assms(5)]
  by (auto simp: access_rep_def abs_access_def msm_access_def)

lemma access_rep_extends: "extends n st st' \<Longrightarrow> access_rep st x c \<Longrightarrow> access_rep st' x c"
  by (auto simp: access_rep_def thr_rep_def extends_def)

lemma access_rep_wf: "vts_inv st \<Longrightarrow> access_rep st x c \<Longrightarrow> wf_clocks c"
  using vts_at_wf by (auto simp: access_rep_def thr_rep_def wf_clocks_def)

lemma msm_run_race_free:
  assumes "vts_inv st" "length (vts_tab st) + 2 * length xs \<le> 2 ^ 30" "sval_rep st s Rs Ws"
    "covers h Rs Ws" "list_all2 (access_rep st) xs cs" "sorted_wrt ordered (h @ cs)"
  shows "\<exists>s' evs st' Rs' Ws'. msm_run sc xs s st = Some (s', evs, st') \<and> filter is_race evs = [] \<and>
           extends (2 * length xs) st st' \<and> sval_rep st' s' Rs' Ws' \<and> covers (h @ cs) Rs' Ws'"
  using assms
proof (induction xs arbitrary: st s Rs Ws h cs)
  case Nil
  then show ?case by (auto simp: extends_def)
next
  case (Cons x xs)
  then obtain c cs' where cs: "cs = c # cs'" "access_rep st x c" "list_all2 (access_rep st) xs cs'"
    by (auto simp: list_all2_Cons1)
  note wf = access_rep_wf [OF Cons.prems(1) cs(2)]
  have "\<forall>d\<in>set h. ordered d c" using Cons.prems(6) cs(1) by (auto simp: sorted_wrt_append)
  then have "\<not> fst (abs_access c (Rs, Ws))" using covers_race [OF Cons.prems(4) wf] by auto
  then obtain Rs' Ws' where a: "abs_access c (Rs, Ws) = (False, Rs', Ws')"
    by (cases "abs_access c (Rs, Ws)") auto
  have "length (vts_tab st) + 2 \<le> 2 ^ 30" using Cons.prems(2) by simp
  from msm_access_spec [OF Cons.prems(1) this Cons.prems(3) cs(2) covers_sane [OF Cons.prems(4)], of sc]
  obtain s1 ev st1 where 1: "msm_access sc x s st = Some (s1, ev, st1)" "extends 2 st st1"
    "sval_rep st1 s1 Rs' Ws'" "filter is_race ev = []" by (auto simp: step_ok_def a)
  have cov: "covers (h @ [c]) Rs' Ws'" using covers_step [OF Cons.prems(4) wf a] .
  have "list_all2 (access_rep st1) xs cs'"
    using cs(3) access_rep_extends [OF 1(2)] by (rule list_all2_mono)
  with Cons.IH [OF extends_inv [OF 1(2)] _ 1(3) cov this] 1(2) Cons.prems(2,6) cs(1)
  obtain s' evs st' Rs2 Ws2 where "msm_run sc xs s1 st1 = Some (s', evs, st')" "filter is_race evs = []"
    "extends (2 * length xs) st1 st'" "sval_rep st' s' Rs2 Ws2" "covers (h @ cs) Rs2 Ws2"
    by (auto simp: extends_def)
  with 1 extends_trans [OF 1(2), of "2 * length xs" st'] show ?case by simp blast
qed

section \<open>Main results\<close>

lemma intern_all:
  assumes "\<forall>x\<in>set xs. wf_ts x" "length xs < 2 ^ 30"
  shows "\<exists>st vs. vts_inv st \<and> list_all2 (\<lambda>v x. vts_at st v = Some x) vs xs \<and> length (vts_tab st) \<le> length xs"
  using assms
proof (induction xs)
  case Nil
  then show ?case using vts_inv_init
    by (intro exI [of _ vts_init] exI [of _ "[]"]) (simp add: vts_init_def VtsID__invalidate_caches_def)
next
  case (Cons x xs)
  then obtain st vs where st: "vts_inv st" "list_all2 (\<lambda>v x. vts_at st v = Some x) vs xs"
    "length (vts_tab st) \<le> length xs" by auto
  have "wf_ts x" "length (vts_tab st) < 2 ^ 32 - 1" using Cons.prems st(3) by auto
  from intern_spec [OF st(1) this] obtain v st' where st': "vts_inv st'" "interned st x v st'" by blast
  then have g: "grown st x v st'" by (rule grown_interned)
  have "list_all2 (\<lambda>v x. vts_at st' v = Some x) vs xs"
    using st(2) grown_mono [OF g] by (rule list_all2_mono)
  with st' st(3) show ?case by (intro exI [of _ st'] exI [of _ "v # vs"]) (auto simp: interned_def)
qed

text \<open>
  C1.  The state machine reports the first race of a location exactly.  Start from the shadow
  value that \<^verbatim>\<open>libhb_range_new\<close> stores on allocation and apply a list of reads and writes in which
  every conflicting pair (the allocation counts as a write) is ordered by happens-before: nothing
  is reported.  Any further access is then reported as a race if and only if it conflicts with, and
  is not ordered after, some access of that history.
\<close>

theorem msm_reports_first_race:
  assumes "vts_inv st" "length (vts_tab st) + 2 * length xs + 2 \<le> 2 ^ 30"
    and "vts_at st v0 = Some W0" "list_all2 (access_rep st) xs cs" "access_rep st y cy"
    and "sorted_wrt ordered (\<lparr>cl_isW = True, cl_R = W0, cl_W = W0\<rparr> # cs)"
  shows "\<exists>s evs st' s' ev st''.
     msm_run sc xs (SVal__mkC v0 v0) st = Some (s, evs, st') \<and> filter is_race evs = [] \<and>
     msm_access sc y s st' = Some (s', ev, st'') \<and>
     filter is_race ev =
       (if \<exists>d\<in>set (\<lparr>cl_isW = True, cl_R = W0, cl_W = W0\<rparr> # cs). \<not> ordered d cy
        then [RecordRace (acc_ptr y) (acc_addr y) (acc_szB y) (acc_isW y)] else [])"
proof -
  let ?c0 = "\<lparr>cl_isW = True, cl_R = W0, cl_W = W0\<rparr>"
  have wf: "wf_ts W0" using vts_at_wf [OF assms(1,3)] .
  have "covers [?c0] {W0} {W0}" using covers_init [of ?c0] wf by (simp add: wf_clocks_def)
  moreover have "sval_rep st (SVal__mkC v0 v0) {W0} {W0}"
    using assms(3,3) lub_of_single [OF wf] lub_of_single [OF wf] by (rule sval_rep_mkC) (use assms(2) in simp)
  moreover have "list_all2 (access_rep st) xs cs" "sorted_wrt ordered ([?c0] @ cs)"
    "length (vts_tab st) + 2 * length xs \<le> 2 ^ 30" using assms(2,4,6) by simp_all
  ultimately obtain s evs st' Rs Ws where run: "msm_run sc xs (SVal__mkC v0 v0) st = Some (s, evs, st')"
    "filter is_race evs = []" "extends (2 * length xs) st st'" "sval_rep st' s Rs Ws" "covers ([?c0] @ cs) Rs Ws"
    using msm_run_race_free [OF assms(1), of xs "SVal__mkC v0 v0" "{W0}" "{W0}" "[?c0]" cs sc] by blast
  have y: "access_rep st' y cy" using access_rep_extends [OF run(3) assms(5)] .
  have "length (vts_tab st') + 2 \<le> 2 ^ 30" using run(3) assms(2) by (simp add: extends_def)
  from msm_access_spec [OF extends_inv [OF run(3)] this run(4) y covers_sane [OF run(5)], of sc]
  obtain s' ev st'' where step: "msm_access sc y s st' = Some (s', ev, st'')"
    "filter is_race ev = (if fst (abs_access cy (Rs, Ws))
       then [RecordRace (acc_ptr y) (acc_addr y) (acc_szB y) (acc_isW y)] else [])"
    unfolding step_ok_def by blast
  have "fst (abs_access cy (Rs, Ws)) \<longleftrightarrow> (\<exists>d\<in>set (?c0 # cs). \<not> ordered d cy)"
    using covers_race [OF run(5) access_rep_wf [OF extends_inv [OF run(3)] y]] by simp
  with run(1,2) step show ?thesis by (simp only:) blast
qed

theorem msm_reports_first_race_witness:
  "\<exists>st v x y s evs st' s' ev st''.
     msm_run False [x] (SVal__mkC v v) st = Some (s, evs, st') \<and> filter is_race evs = [] \<and> \<not> acc_isW x \<and>
     msm_access False y s st' = Some (s', ev, st'') \<and> filter is_race ev = [RecordRace 16 0x1000 4 True]"
proof -
  let ?A = "[\<lparr>thr = 8, tym = 1\<rparr>]" and ?B = "[\<lparr>thr = 8, tym = 1\<rparr>, \<lparr>thr = 16, tym = 1\<rparr>]"
  have wf: "\<forall>x\<in>set [[\<lparr>thr = 8, tym = 2\<rparr>], ?B, ?A]. wf_ts x" by (simp add: wf_ts_Cons)
  obtain st vs where st: "vts_inv st" "list_all2 (\<lambda>v x. vts_at st v = Some x) vs [[\<lparr>thr = 8, tym = 2\<rparr>], ?B, ?A]"
    "length (vts_tab st) \<le> 3" using intern_all [OF wf] by auto
  then obtain v2 vB vA where v: "vts_at st v2 = Some [\<lparr>thr = 8, tym = 2\<rparr>]" "vts_at st vB = Some ?B"
    "vts_at st vA = Some ?A" by (auto simp: list_all2_Cons2)
  let ?x = "\<lparr>acc_isW = False, acc_ptr = 8, acc_thr = \<lparr>viR = v2, viW = v2, opaque = 1\<rparr>, acc_addr = 0x1000, acc_szB = 4\<rparr>"
  let ?y = "\<lparr>acc_isW = True, acc_ptr = 16, acc_thr = \<lparr>viR = vB, viW = vB, opaque = 1\<rparr>, acc_addr = 0x1000, acc_szB = 4\<rparr>"
  let ?cx = "\<lparr>cl_isW = False, cl_R = [\<lparr>thr = 8, tym = 2\<rparr>], cl_W = [\<lparr>thr = 8, tym = 2\<rparr>]\<rparr>"
  let ?cy = "\<lparr>cl_isW = True, cl_R = ?B, cl_W = ?B\<rparr>"
  have "list_all2 (access_rep st) [?x] [?cx]" "access_rep st ?y ?cy"
    using v by (simp_all add: access_rep_def thr_rep_def)
  moreover have "sorted_wrt ordered (\<lparr>cl_isW = True, cl_R = ?A, cl_W = ?A\<rparr> # [?cx])" "\<not> ordered ?cx ?cy"
    by (simp_all add: ordered_def vts_leq_def VTS__cmp_def)
  moreover have "length (vts_tab st) + 2 * length [?x] + 2 \<le> 2 ^ 30" using st(3) by simp
  ultimately have "\<exists>s evs st' s' ev st''. msm_run False [?x] (SVal__mkC vA vA) st = Some (s, evs, st') \<and>
      filter is_race evs = [] \<and> msm_access False ?y s st' = Some (s', ev, st'') \<and>
      filter is_race ev = [RecordRace 16 0x1000 4 True]"
    using msm_reports_first_race [OF st(1) _ v(3), of "[?x]" "[?cx]" ?y ?cy False] by simp
  then show ?thesis by (intro exI [of _ st] exI [of _ vA] exI [of _ ?x] exI [of _ ?y]) simp
qed

text \<open>
  C2.  One step of the state machine refines its specification on sets of timestamps: a read
  is a race iff some timestamp of the read constraint is not below the thread's read clock, and a
  write iff some timestamp of the write constraint is not below its write clock.  Without a race a
  read adds the thread's write clock to the write constraint and a write replaces both constraints;
  with a race both clocks are joined in.  No assertion fails as long as the constraint is sane, no
  identifier in use changes, and no reference count changes.
\<close>

theorem msm_access_refines:
  assumes "vts_inv st" "length (vts_tab st) + 2 \<le> 2 ^ 30" "sval_rep st s Rs Ws" "access_rep st x c" "sane Rs Ws"
  shows "step_ok st [RecordRace (acc_ptr x) (acc_addr x) (acc_szB x) (acc_isW x)] (abs_access c (Rs, Ws))
           (msm_access sc x s st)"
  using assms by (rule msm_access_spec)

theorem msm_access_refines_witness:
  "\<exists>st v s' evs st'. msm_access False \<lparr>acc_isW = True, acc_ptr = 8, acc_thr = \<lparr>viR = v, viW = v, opaque = 1\<rparr>,
       acc_addr = 0x1000, acc_szB = 4\<rparr> (SVal__mkC v v) st = Some (s', evs, st') \<and> filter is_race evs = []"
proof -
  let ?A = "[\<lparr>thr = 8, tym = 1\<rparr>]"
  have wf: "wf_ts ?A" by (simp add: wf_ts_Cons)
  obtain st vs where st: "vts_inv st" "list_all2 (\<lambda>v x. vts_at st v = Some x) vs [?A]" "length (vts_tab st) \<le> 1"
    using intern_all [of "[?A]"] wf by auto
  then obtain v where v: "vts_at st v = Some ?A" by (auto simp: list_all2_Cons2)
  let ?x = "\<lparr>acc_isW = True, acc_ptr = 8, acc_thr = \<lparr>viR = v, viW = v, opaque = 1\<rparr>, acc_addr = 0x1000, acc_szB = 4\<rparr>"
  let ?c = "\<lparr>cl_isW = True, cl_R = ?A, cl_W = ?A\<rparr>"
  have "sval_rep st (SVal__mkC v v) {?A} {?A}"
    using v v lub_of_single [OF wf] lub_of_single [OF wf] by (rule sval_rep_mkC) (use st(3) in simp)
  moreover have "access_rep st ?x ?c" using v by (simp add: access_rep_def thr_rep_def)
  moreover have "sane {?A} {?A}" by (simp add: sane_def)
  ultimately have "\<exists>s' evs st'. msm_access False ?x (SVal__mkC v v) st = Some (s', evs, st') \<and> filter is_race evs = []"
    using msm_access_refines [OF st(1), of "SVal__mkC v v" "{?A}" "{?A}" ?x ?c False] st(3) vts_leq_refl [OF wf]
    by (auto simp: step_ok_def abs_access_def abs_write_def)
  then show ?thesis by (intro exI [of _ st] exI [of _ v])
qed

text \<open>
  A constraint with \<^verbatim>\<open>Rmin\<close> not below \<^verbatim>\<open>Wmin\<close> is fatal: the next access that finds a race fails the
  assertion on the sanity of the constraints.
\<close>

lemma insane_access_aborts:
  assumes inv: "vts_inv st" and r: "r < 2 ^ 30" "vts_at st r = Some xr" and w: "vts_at st w = Some xw"
    and insane: "\<not> vts_leq xr xw" and u: "thr_rep st u R W"
  shows "\<not> vts_leq xr R \<Longrightarrow> msm_read sc (SVal__mkC r w) p u a szB st = None"
    and "\<not> vts_leq xw W \<Longrightarrow> msm_write sc (SVal__mkC r w) p u a szB st = None"
proof -
  note unC = isC_mkC [OF r(1)] unC_Rmin_mkC [OF r(1)] unC_Wmin_mkC [OF r(1)]
  have at: "vts_at st (viR u) = Some R" "vts_at st (viW u) = Some W" using u by (simp_all add: thr_rep_def)
  have sanity: "\<exists>st2. VtsID__getOrdering r w st1 = Some (VTS__cmp xr xw, st2)" if "extends 0 st st1" for st1
    using getOrdering_ext [OF extends_inv [OF that] extends_at [OF that r(2)] extends_at [OF that w]] by blast
  {
    assume "\<not> vts_leq xr R"
    moreover obtain st1 where 1: "VtsID__getOrdering r (viR u) st = Some (VTS__cmp xr R, st1)" "extends 0 st st1"
      using getOrdering_ext [OF inv r(2) at(1)] by blast
    moreover obtain st2 where "VtsID__getOrdering r w st1 = Some (VTS__cmp xr xw, st2)" using sanity [OF 1(2)] by blast
    ultimately show "msm_read sc (SVal__mkC r w) p u a szB st = None"
      using insane by (simp add: msm_read_def unC Let_def vts_leq_cmp)
  }
  {
    assume "\<not> vts_leq xw W"
    moreover obtain st1 where 1: "VtsID__getOrdering w (viW u) st = Some (VTS__cmp xw W, st1)" "extends 0 st st1"
      using getOrdering_ext [OF inv w at(2)] by blast
    moreover obtain st2 where "VtsID__getOrdering r w st1 = Some (VTS__cmp xr xw, st2)" using sanity [OF 1(2)] by blast
    ultimately show "msm_write sc (SVal__mkC r w) p u a szB st = None"
      using insane by (simp add: msm_write_def unC Let_def vts_leq_cmp)
  }
qed

end
