(* ===== verification/Sync.thy ===== *)
theory Sync
  imports MSM
begin

text \<open>
  Threads and synchronisation objects of \<^verbatim>\<open>helgrind/libhb_core.c\<close> ("Threads", "Synchronisation
  objects" and the part of the "Top Level API" that works on clocks).  Objects live in stores from
  addresses to contents.  The address that \<^verbatim>\<open>HG_(zalloc)\<close> returns for a new object is an argument
  of the operation that allocates it.
\<close>

section \<open>State\<close>

record SO =
  so_viR :: VtsID
  so_viW :: VtsID
  so_magic :: UInt

definition SO_MAGIC :: UInt where
  "SO_MAGIC = 0x56b3c5b0"

type_synonym SO_ptr = "64 word"

record hb_sync =
  hb_vts :: vts_state
  hb_thrs :: "Thr_ptr \<rightharpoonup> Thr"
  hb_sos :: "SO_ptr \<rightharpoonup> SO"

text \<open>Running an operation of the table of timestamps.\<close>

definition upd_vts :: "(vts_state \<Rightarrow> vts_state option) \<Rightarrow> 'z hb_sync_scheme \<Rightarrow> 'z hb_sync_scheme option" where
  "upd_vts f st = do { V \<leftarrow> f (hb_vts st); Some (st\<lparr>hb_vts := V\<rparr>) }"

definition Thr__new :: Thr where
  "Thr__new = \<lparr>viR = VtsID_INVALID, viW = VtsID_INVALID, opaque = 0\<rparr>"

definition put_thr :: "Thr_ptr \<Rightarrow> Thr \<Rightarrow> 'z hb_sync_scheme \<Rightarrow> 'z hb_sync_scheme" where
  "put_thr p t st = st\<lparr>hb_thrs := (hb_thrs st)(p \<mapsto> t)\<rparr>"

definition put_so :: "SO_ptr \<Rightarrow> SO \<Rightarrow> 'z hb_sync_scheme \<Rightarrow> 'z hb_sync_scheme" where
  "put_so q s st = st\<lparr>hb_sos := (hb_sos st)(q \<mapsto> s)\<rparr>"

text \<open>\<^verbatim>\<open>VtsID__rcinc\<close> and \<^verbatim>\<open>VtsID__rcdec\<close> on both clocks of an object, in the order of the code.\<close>

definition rcinc_both :: "VtsID \<Rightarrow> VtsID \<Rightarrow> vts_state \<Rightarrow> vts_state option" where
  "rcinc_both a b V = do { V \<leftarrow> VtsID__rcinc a V; VtsID__rcinc b V }"

definition rcdec_both :: "VtsID \<Rightarrow> VtsID \<Rightarrow> vts_state \<Rightarrow> vts_state option" where
  "rcdec_both a b V = do { V \<leftarrow> VtsID__rcdec a V; VtsID__rcdec b V }"

section \<open>Threads\<close>

text \<open>The part of \<^verbatim>\<open>libhb_init\<close> that makes the root thread, from the initial table.\<close>

definition libhb_init :: "Thr_ptr \<Rightarrow> hb_sync option" where
  "libhb_init p =
     do {
       (vi, V) \<leftarrow> VtsID__mk_Singleton p 1 vts_init;
       let t = Thr__new\<lparr>viR := vi, viW := vi\<rparr>;
       V \<leftarrow> rcinc_both (viR t) (viW t) V;
       Some \<lparr>hb_vts = V, hb_thrs = [p \<mapsto> t], hb_sos = Map.empty\<rparr>
     }"

text \<open>Moving both clocks of a thread along one step, as at the end of \<^verbatim>\<open>libhb_create\<close> and \<^verbatim>\<open>libhb_so_send\<close>.\<close>

definition tick_both :: "Thr_ptr \<Rightarrow> Thr \<Rightarrow> vts_state \<Rightarrow> (Thr \<times> vts_state) option" where
  "tick_both p t V =
     do {
       V \<leftarrow> rcdec_both (viR t) (viW t) V;
       (r, V) \<leftarrow> VtsID__tick (viR t) p V;
       (w, V) \<leftarrow> VtsID__tick (viW t) p V;
       V \<leftarrow> rcinc_both r w V;
       Some (t\<lparr>viR := r, viW := w\<rparr>, V)
     }"

definition libhb_create :: "Thr_ptr \<Rightarrow> Thr_ptr \<Rightarrow> 'z hb_sync_scheme \<Rightarrow> 'z hb_sync_scheme option" where
  "libhb_create parent child st =
     do {
       tp \<leftarrow> hb_thrs st parent;
       (r, V) \<leftarrow> VtsID__tick (viR tp) child (hb_vts st);
       (w, V) \<leftarrow> VtsID__tick (viW tp) child V;
       V \<leftarrow> rcinc_both r w V;
       ir \<leftarrow> VtsID__indexAt r child V;
       tl_assert (ir = 1);
       iw \<leftarrow> VtsID__indexAt w child V;
       tl_assert (iw = 1);
       (tp', V) \<leftarrow> tick_both parent tp V;
       Some (put_thr parent tp' (put_thr child (Thr__new\<lparr>viR := r, viW := w\<rparr>) (st\<lparr>hb_vts := V\<rparr>)))
     }"

definition libhb_set_Thr_opaque :: "Thr_ptr \<Rightarrow> UWord \<Rightarrow> 'z hb_sync_scheme \<Rightarrow> 'z hb_sync_scheme option" where
  "libhb_set_Thr_opaque p v st = do { t \<leftarrow> hb_thrs st p; Some (put_thr p (t\<lparr>opaque := v\<rparr>) st) }"

definition libhb_get_Thr_opaque :: "Thr_ptr \<Rightarrow> 'z hb_sync_scheme \<Rightarrow> UWord option" where
  "libhb_get_Thr_opaque p st = map_option opaque (hb_thrs st p)"

section \<open>Synchronisation objects\<close>

definition SO__Alloc :: "SO_ptr \<Rightarrow> 'z hb_sync_scheme \<Rightarrow> 'z hb_sync_scheme" where
  "SO__Alloc q st = put_so q \<lparr>so_viR = VtsID_INVALID, so_viW = VtsID_INVALID, so_magic = SO_MAGIC\<rparr> st"

definition SO__Dealloc :: "SO_ptr \<Rightarrow> 'z hb_sync_scheme \<Rightarrow> 'z hb_sync_scheme option" where
  "SO__Dealloc q st =
     do {
       so \<leftarrow> hb_sos st q;
       tl_assert (so_magic so = SO_MAGIC);
       st \<leftarrow> (if so_viR so = VtsID_INVALID then do { tl_assert (so_viW so = VtsID_INVALID); Some st }
             else do { tl_assert (so_viW so \<noteq> VtsID_INVALID); upd_vts (rcdec_both (so_viR so) (so_viW so)) st });
       Some (st\<lparr>hb_sos := (hb_sos st)(q := None)\<rparr>)
     }"

definition libhb_so_alloc :: "SO_ptr \<Rightarrow> 'z hb_sync_scheme \<Rightarrow> 'z hb_sync_scheme" where
  "libhb_so_alloc q st = SO__Alloc q st"

definition libhb_so_dealloc :: "SO_ptr \<Rightarrow> 'z hb_sync_scheme \<Rightarrow> 'z hb_sync_scheme option" where
  "libhb_so_dealloc q st =
     do { so \<leftarrow> hb_sos st q; tl_assert (so_magic so = SO_MAGIC); SO__Dealloc q st }"

text \<open>The update of the object by a send: the new clocks of the object.\<close>

definition so_send_clocks :: "bool \<Rightarrow> Thr \<Rightarrow> SO \<Rightarrow> vts_state \<Rightarrow> (SO \<times> vts_state) option" where
  "so_send_clocks strong_send t so V =
     (if so_viR so = VtsID_INVALID then
        do {
          tl_assert (so_viW so = VtsID_INVALID);
          V \<leftarrow> rcinc_both (viR t) (viW t) V;
          Some (so\<lparr>so_viR := viR t, so_viW := viW t\<rparr>, V)
        }
      else
        do {
          tl_assert (so_viW so \<noteq> VtsID_INVALID);
          V \<leftarrow> rcdec_both (so_viR so) (so_viW so) V;
          (r, V) \<leftarrow> (if strong_send then Some (viR t, V) else VtsID__join2 (so_viR so) (viR t) V);
          (w, V) \<leftarrow> (if strong_send then Some (viW t, V) else VtsID__join2 (so_viW so) (viW t) V);
          V \<leftarrow> rcinc_both r w V;
          Some (so\<lparr>so_viR := r, so_viW := w\<rparr>, V)
        })"

definition libhb_so_send :: "Thr_ptr \<Rightarrow> SO_ptr \<Rightarrow> bool \<Rightarrow> 'z hb_sync_scheme \<Rightarrow> 'z hb_sync_scheme option" where
  "libhb_so_send p q strong_send st =
     do {
       t \<leftarrow> hb_thrs st p;
       so \<leftarrow> hb_sos st q;
       tl_assert (so_magic so = SO_MAGIC);
       (ord, V) \<leftarrow> VtsID__getOrdering (viW t) (viR t) (hb_vts st);
       tl_assert (ord = POrd_EQ \<or> ord = POrd_LT);
       (so', V) \<leftarrow> so_send_clocks strong_send t so V;
       (t', V) \<leftarrow> tick_both p t V;
       Some (put_thr p t' (put_so q so' (st\<lparr>hb_vts := V\<rparr>)))
     }"

text \<open>\<^verbatim>\<open>VtsID__rcdec(x); x = VtsID__join2(x, y); VtsID__rcinc(x)\<close>, as in the receive and the join.\<close>

definition join_into :: "VtsID \<Rightarrow> VtsID \<Rightarrow> vts_state \<Rightarrow> (VtsID \<times> vts_state) option" where
  "join_into x y V =
     do {
       V \<leftarrow> VtsID__rcdec x V;
       (z, V) \<leftarrow> VtsID__join2 x y V;
       V \<leftarrow> VtsID__rcinc z V;
       Some (z, V)
     }"

definition libhb_so_recv :: "Thr_ptr \<Rightarrow> SO_ptr \<Rightarrow> bool \<Rightarrow> 'z hb_sync_scheme \<Rightarrow> 'z hb_sync_scheme option" where
  "libhb_so_recv p q strong_recv st =
     do {
       t \<leftarrow> hb_thrs st p;
       so \<leftarrow> hb_sos st q;
       tl_assert (so_magic so = SO_MAGIC);
       if so_viR so \<noteq> VtsID_INVALID then
         do {
           tl_assert (so_viW so \<noteq> VtsID_INVALID);
           (r, V) \<leftarrow> join_into (viR t) (so_viR so) (hb_vts st);
           (w, V) \<leftarrow> (if strong_recv then join_into (viW t) (so_viW so) V else Some (viW t, V));
           Some (put_thr p (t\<lparr>viR := r, viW := w\<rparr>) (st\<lparr>hb_vts := V\<rparr>))
         }
       else do { tl_assert (so_viW so = VtsID_INVALID); Some st }
     }"

definition libhb_so_everSent :: "SO_ptr \<Rightarrow> 'z hb_sync_scheme \<Rightarrow> bool option" where
  "libhb_so_everSent q st =
     do {
       so \<leftarrow> hb_sos st q;
       if so_viR so = VtsID_INVALID then do { tl_assert (so_viW so = VtsID_INVALID); Some False }
       else do { tl_assert (so_viW so \<noteq> VtsID_INVALID); Some True }
     }"

definition libhb_so_join :: "SO_ptr \<Rightarrow> SO_ptr \<Rightarrow> 'z hb_sync_scheme \<Rightarrow> 'z hb_sync_scheme option" where
  "libhb_so_join q1 q2 st =
     do {
       so1 \<leftarrow> hb_sos st q1;
       tl_assert (so_magic so1 = SO_MAGIC);
       so2 \<leftarrow> hb_sos st q2;
       tl_assert (so_magic so2 = SO_MAGIC);
       if q1 = q2 then Some st
       else if so_viW so1 = so_viW so2 \<and> so_viR so1 = so_viR so2 then Some st
       else
         do {
           (w, V) \<leftarrow> join_into (so_viW so1) (so_viW so2) (hb_vts st);
           (r, V) \<leftarrow> join_into (so_viR so1) (so_viR so2) V;
           Some (put_so q1 (so1\<lparr>so_viR := r, so_viW := w\<rparr>) (st\<lparr>hb_vts := V\<rparr>))
         }
     }"

definition libhb_so_extract :: "Thr_ptr \<Rightarrow> SO_ptr \<Rightarrow> 'z hb_sync_scheme \<Rightarrow> 'z hb_sync_scheme option" where
  "libhb_so_extract p q st =
     do {
       t \<leftarrow> hb_thrs st p;
       V \<leftarrow> rcinc_both (viR t) (viW t) (hb_vts st);
       Some (put_so q \<lparr>so_viR = viR t, so_viW = viW t, so_magic = SO_MAGIC\<rparr> (st\<lparr>hb_vts := V\<rparr>))
     }"

section \<open>Steps of the table\<close>

text \<open>
  The effect of a sequence of table operations: identifiers in use keep their timestamps, the table
  grows by at most \<open>n\<close> entries, the reference counts change by \<open>d\<close>, and no new timestamp exceeds the
  bound \<open>\<beta>\<close> on the counter of each thread.
\<close>

definition bounded :: "(Thr_ptr \<Rightarrow> ULong) \<Rightarrow> vts_state \<Rightarrow> bool" where
  "bounded \<beta> V \<longleftrightarrow> (\<forall>v x. vts_at V v = Some x \<longrightarrow> VTS__indexAt_SLOW x \<le> \<beta>)"

definition vstep :: "(Thr_ptr \<Rightarrow> ULong) \<Rightarrow> nat \<Rightarrow> (VtsID \<Rightarrow> int) \<Rightarrow> vts_state \<Rightarrow> vts_state \<Rightarrow> bool" where
  "vstep \<beta> n d V V' \<longleftrightarrow> vts_inv V' \<and> (\<forall>v x. vts_at V v = Some x \<longrightarrow> vts_at V' v = Some x) \<and>
     length (vts_tab V') \<le> length (vts_tab V) + n \<and>
     (\<forall>v. uint (vts_rc V' v) = uint (vts_rc V v) + d v) \<and> (bounded \<beta> V \<longrightarrow> bounded \<beta> V')"

definition one :: "VtsID \<Rightarrow> VtsID \<Rightarrow> int" where
  "one a v = of_bool (v = a)"

lemma vstep_trans:
  "vstep \<beta> m d V V1 \<Longrightarrow> vstep \<beta> n e V1 V2 \<Longrightarrow> vstep \<beta> (m + n) (\<lambda>v. d v + e v) V V2"
  by (auto simp: vstep_def)

lemma vstep_cong: "vstep \<beta> m d V V' \<Longrightarrow> m \<le> n \<Longrightarrow> (\<And>v. d v = e v) \<Longrightarrow> vstep \<beta> n e V V'"
  by (auto simp: vstep_def)

lemma vstep_refl: "vts_inv V \<Longrightarrow> vstep \<beta> 0 (\<lambda>v. 0) V V"
  by (simp add: vstep_def)

lemma vstep_inv: "vstep \<beta> n d V V' \<Longrightarrow> vts_inv V'"
  and vstep_at: "vstep \<beta> n d V V' \<Longrightarrow> vts_at V v = Some x \<Longrightarrow> vts_at V' v = Some x"
  and vstep_len: "vstep \<beta> n d V V' \<Longrightarrow> length (vts_tab V') \<le> length (vts_tab V) + n"
  and vstep_rc: "vstep \<beta> n d V V' \<Longrightarrow> uint (vts_rc V' v) = uint (vts_rc V v) + d v"
  and vstep_bounded: "vstep \<beta> n d V V' \<Longrightarrow> bounded \<beta> V \<Longrightarrow> bounded \<beta> V'"
  by (simp_all add: vstep_def)

text \<open>A timestamp within the bound may be interned.\<close>

lemma vstep_grown:
  assumes "grown V ts v V'" "VTS__indexAt_SLOW ts \<le> \<beta>"
  shows "vstep \<beta> 1 (\<lambda>v. 0) V V'" "vts_at V' v = Some ts"
  using assms grown_mono [OF assms(1)] by (auto simp: vstep_def grown_def bounded_def split: if_splits)

lemma vstep_getOrdering:
  assumes "vts_inv V" "vts_at V a = Some x" "vts_at V b = Some y"
  shows "\<exists>V'. VtsID__getOrdering a b V = Some (VTS__cmp x y, V') \<and> vstep \<beta> 0 (\<lambda>v. 0) V V'"
proof -
  from getOrdering_spec [OF assms] obtain V' where V': "VtsID__getOrdering a b V = Some (VTS__cmp x y, V')"
    "vts_inv V'" "vts_tab V' = vts_tab V" by blast
  then have "vstep \<beta> 0 (\<lambda>v. 0) V V'"
    using vts_at_cong [OF V'(3)] vts_rc_cong [OF V'(3)] by (simp add: vstep_def bounded_def)
  with V'(1) show ?thesis by blast
qed

lemma vstep_join2:
  assumes "vts_inv V" "vts_at V a = Some x" "vts_at V b = Some y" "length (vts_tab V) < 2 ^ 32 - 1" "bounded \<beta> V"
  shows "\<exists>v z V'. VtsID__join2 a b V = Some (v, V') \<and> VTS__join x y = Some z \<and> vts_at V' v = Some z \<and>
           vstep \<beta> 1 (\<lambda>v. 0) V V'"
proof -
  from join2_spec [OF assms(1-4)] obtain v z V' where V': "VtsID__join2 a b V = Some (v, V')"
    "VTS__join x y = Some z" "grown V z v V'" by blast
  have "VTS__indexAt_SLOW x \<le> \<beta>" "VTS__indexAt_SLOW y \<le> \<beta>" using assms(2,3,5) by (auto simp: bounded_def)
  moreover have "\<forall>t. VTS__indexAt_SLOW z t = max (VTS__indexAt_SLOW x t) (VTS__indexAt_SLOW y t)"
    using VTS__join_spec [OF vts_at_wf [OF assms(1,2)] vts_at_wf [OF assms(1,3)]] V'(2) by auto
  ultimately have "VTS__indexAt_SLOW z \<le> \<beta>" by (simp add: le_fun_def)
  from vstep_grown [OF V'(3) this] V'(1,2) show ?thesis by blast
qed

lemma vstep_tick:
  assumes "vts_inv V" "vts_at V a = Some x" "p \<noteq> 0" "VTS__indexAt_SLOW x p \<noteq> - 1"
    "length (vts_tab V) < 2 ^ 32 - 1" "bounded \<beta> V" "VTS__indexAt_SLOW x p + 1 \<le> \<beta> p"
  shows "\<exists>v y V'. VtsID__tick a p V = Some (v, V') \<and> VTS__tick p x = Some y \<and> vts_at V' v = Some y \<and>
           vstep \<beta> 1 (\<lambda>v. 0) V V'"
proof -
  from tick_spec [OF assms(1-5)] obtain v y V' where V': "VtsID__tick a p V = Some (v, V')"
    "VTS__tick p x = Some y" "grown V y v V'" by blast
  have "VTS__indexAt_SLOW x \<le> \<beta>" using assms(2,6) by (auto simp: bounded_def)
  moreover have "\<forall>t. VTS__indexAt_SLOW y t = (if t = p then VTS__indexAt_SLOW x p + 1 else VTS__indexAt_SLOW x t)"
    using VTS__tick_spec [OF vts_at_wf [OF assms(1,2)] assms(3,4)] V'(2) by auto
  ultimately have "VTS__indexAt_SLOW y \<le> \<beta>" using assms(7) by (simp add: le_fun_def)
  from vstep_grown [OF V'(3) this] V'(1,2) show ?thesis by blast
qed

lemma uint_incr: "x \<noteq> - 1 \<Longrightarrow> uint (x + 1 :: UWord) = uint x + 1"
  using unat_incr [of x] by (metis of_nat_1 of_nat_add uint_nat)

lemma uint_decr: "x \<noteq> 0 \<Longrightarrow> uint (x - 1 :: UWord) = uint x - 1"
  by (metis add_diff_cancel_right' diff_add_cancel eq_iff_diff_eq_0 eq_neg_iff_add_eq_0 uint_incr)

lemma vstep_rcinc:
  assumes "vts_inv V" "vts_at V a = Some x" "uint (vts_rc V a) < 2 ^ 64 - 1"
  shows "\<exists>V'. VtsID__rcinc a V = Some V' \<and> vstep \<beta> 0 (one a) V V'"
proof -
  have m: "vts_rc V a \<noteq> - 1" using assms(3) uint_max_ULong by auto
  from rcinc_spec [OF assms(1,2) this] obtain V' where V': "VtsID__rcinc a V = Some V'" "vts_inv V'"
    "vts_at V' = vts_at V" "vts_rc V' = (vts_rc V)(a := vts_rc V a + 1)" by blast
  have "length (vts_tab V') = length (vts_tab V)"
    using V'(1) by (auto simp: VtsID__rcinc_def bind_eq_Some_conv split: if_splits)
  with V' uint_incr [OF m] have "vstep \<beta> 0 (one a) V V'" by (simp add: vstep_def one_def bounded_def)
  with V'(1) show ?thesis by blast
qed

lemma vstep_rcdec:
  assumes "vts_inv V" "vts_at V a = Some x" "0 < uint (vts_rc V a)"
  shows "\<exists>V'. VtsID__rcdec a V = Some V' \<and> vstep \<beta> 0 (\<lambda>v. - one a v) V V'"
proof -
  have m: "vts_rc V a \<noteq> 0" using assms(3) by auto
  from rcdec_spec [OF assms(1,2) this] obtain V' where V': "VtsID__rcdec a V = Some V'" "vts_inv V'"
    "vts_at V' = vts_at V" "vts_rc V' = (vts_rc V)(a := vts_rc V a - 1)" by blast
  have "length (vts_tab V') = length (vts_tab V)"
    using V'(1) by (auto simp: VtsID__rcdec_def bind_eq_Some_conv split: if_splits)
  with V' uint_decr [OF m] have "vstep \<beta> 0 (\<lambda>v. - one a v) V V'" by (simp add: vstep_def one_def bounded_def)
  with V'(1) show ?thesis by blast
qed

lemma vstep_rcinc_both:
  assumes "vts_inv V" "vts_at V a = Some x" "vts_at V b = Some y"
    "uint (vts_rc V a) < 2 ^ 64 - 2" "uint (vts_rc V b) < 2 ^ 64 - 2"
  shows "\<exists>V'. rcinc_both a b V = Some V' \<and> vstep \<beta> 0 (\<lambda>v. one a v + one b v) V V'"
proof -
  from vstep_rcinc [OF assms(1,2), of \<beta>] assms(4) obtain V1 where
    1: "VtsID__rcinc a V = Some V1" "vstep \<beta> 0 (one a) V V1" by auto
  have "uint (vts_rc V1 b) < 2 ^ 64 - 1" using vstep_rc [OF 1(2), of b] assms(5)
    by (cases "a = b") (auto simp: one_def)
  from vstep_rcinc [OF vstep_inv [OF 1(2)] vstep_at [OF 1(2) assms(3)] this, of \<beta>] obtain V2 where
    2: "VtsID__rcinc b V1 = Some V2" "vstep \<beta> 0 (one b) V1 V2" by blast
  from vstep_trans [OF 1(2) 2(2)] 1(1) 2(1) show ?thesis by (auto simp: rcinc_both_def)
qed

lemma vstep_rcdec_both:
  assumes "vts_inv V" "vts_at V a = Some x" "vts_at V b = Some y"
    "\<And>v. one a v + one b v \<le> uint (vts_rc V v)"
  shows "\<exists>V'. rcdec_both a b V = Some V' \<and> vstep \<beta> 0 (\<lambda>v. - one a v - one b v) V V'"
proof -
  have "0 < uint (vts_rc V a)" using assms(4) [of a] by (cases "a = b") (auto simp: one_def)
  from vstep_rcdec [OF assms(1,2) this, of \<beta>] obtain V1 where
    1: "VtsID__rcdec a V = Some V1" "vstep \<beta> 0 (\<lambda>v. - one a v) V V1" by auto
  have "0 < uint (vts_rc V1 b)" using vstep_rc [OF 1(2), of b] assms(4) [of b]
    by (cases "a = b") (auto simp: one_def)
  from vstep_rcdec [OF vstep_inv [OF 1(2)] vstep_at [OF 1(2) assms(3)] this, of \<beta>] obtain V2 where
    2: "VtsID__rcdec b V1 = Some V2" "vstep \<beta> 0 (\<lambda>v. - one b v) V1 V2" by blast
  from vstep_trans [OF 1(2) 2(2)] 1(1) 2(1) show ?thesis by (auto simp: rcdec_both_def)
qed

section \<open>The invariant of threads and synchronisation objects\<close>

text \<open>Sums over the contents of a store.\<close>

definition msum :: "('b \<Rightarrow> int) \<Rightarrow> ('a \<rightharpoonup> 'b) \<Rightarrow> int" where
  "msum f m = (\<Sum>k\<in>dom m. f (the (m k)))"

lemma msum_remove:
  assumes "finite (dom m)" "m p = Some y"
  shows "msum f m = f y + msum f (m(p := None))"
proof -
  have "msum f (m(p := None)) = (\<Sum>k\<in>dom m - {p}. f (the (m k)))"
    by (auto simp: msum_def intro!: sum.cong)
  with sum.remove [OF assms(1), of p "\<lambda>k. f (the (m k))"] assms(2) show ?thesis by (auto simp: msum_def)
qed

lemma msum_upd_new: "finite (dom m) \<Longrightarrow> m p = None \<Longrightarrow> msum f (m(p \<mapsto> x)) = msum f m + f x"
  using msum_remove [of "m(p \<mapsto> x)" p x f] by (simp add: fun_upd_idem)

lemma msum_upd:
  "finite (dom m) \<Longrightarrow> m p = Some y \<Longrightarrow> msum f (m(p \<mapsto> x)) = msum f m + f x - f y"
  using msum_remove [of m p y f] msum_upd_new [of "m(p := None)" p f x] by simp

lemma msum_nonneg: "(\<And>x. 0 \<le> f x) \<Longrightarrow> 0 \<le> msum f m"
  by (simp add: msum_def sum_nonneg)

lemma msum_ge:
  assumes "finite (dom m)" "m p = Some x" "\<And>x. 0 \<le> f x"
  shows "f x \<le> msum f m"
  using msum_remove [OF assms(1,2), of f] msum_nonneg [of f "m(p := None)"] assms(3) by simp

definition clock_ok :: "vts_state \<Rightarrow> VtsID \<Rightarrow> VtsID \<Rightarrow> bool" where
  "clock_ok V a b \<longleftrightarrow> (\<exists>x y. vts_at V a = Some x \<and> vts_at V b = Some y \<and> vts_leq y x)"

definition so_ok :: "vts_state \<Rightarrow> SO \<Rightarrow> bool" where
  "so_ok V s \<longleftrightarrow> so_magic s = SO_MAGIC \<and>
     (so_viR s = VtsID_INVALID \<and> so_viW s = VtsID_INVALID \<or> clock_ok V (so_viR s) (so_viW s))"

definition thr_refs :: "VtsID \<Rightarrow> Thr \<Rightarrow> int" where
  "thr_refs v t = one (viR t) v + one (viW t) v"

definition so_refs :: "VtsID \<Rightarrow> SO \<Rightarrow> int" where
  "so_refs v s = (if so_viR s = VtsID_INVALID then 0 else one (so_viR s) v + one (so_viW s) v)"

text \<open>
  The clocks of a thread agree on the thread's own counter, and no timestamp of the table is ahead
  of a thread's read clock in that thread's counter.
\<close>

definition thr_ok :: "vts_state \<Rightarrow> Thr_ptr \<Rightarrow> Thr \<Rightarrow> bool" where
  "thr_ok V p t \<longleftrightarrow> p \<noteq> 0 \<and> (\<exists>x y. vts_at V (viR t) = Some x \<and> vts_at V (viW t) = Some y \<and> vts_leq y x \<and>
     VTS__indexAt_SLOW y p = VTS__indexAt_SLOW x p)"

definition own_clock :: "'z hb_sync_scheme \<Rightarrow> Thr_ptr \<Rightarrow> ULong" where
  "own_clock st p = (case hb_thrs st p of None \<Rightarrow> 0
     | Some t \<Rightarrow> (case vts_at (hb_vts st) (viR t) of None \<Rightarrow> 0 | Some x \<Rightarrow> VTS__indexAt_SLOW x p))"

text \<open>
  \<open>E v\<close> is the number of references to \<open>v\<close> from elsewhere, that is, from the shadow memory.  Every
  thread's write clock is the same as, or lags behind, its read clock, and every reference is counted.
\<close>

definition hb_inv :: "(VtsID \<Rightarrow> int) \<Rightarrow> 'z hb_sync_scheme \<Rightarrow> bool" where
  "hb_inv E st \<longleftrightarrow>
     vts_inv (hb_vts st) \<and> finite (dom (hb_thrs st)) \<and> finite (dom (hb_sos st)) \<and>
     bounded (own_clock st) (hb_vts st) \<and>
     (\<forall>p t. hb_thrs st p = Some t \<longrightarrow> thr_ok (hb_vts st) p t) \<and>
     (\<forall>q s. hb_sos st q = Some s \<longrightarrow> so_ok (hb_vts st) s) \<and>
     (\<forall>v. 0 \<le> E v) \<and>
     (\<forall>v. uint (vts_rc (hb_vts st) v) =
            msum (thr_refs v) (hb_thrs st) + msum (so_refs v) (hb_sos st) + E v)"

lemma one_nonneg: "0 \<le> one a v" by (simp add: one_def)

lemma thr_refs_nonneg: "0 \<le> thr_refs v t"
  using one_nonneg [of "viR t" v] one_nonneg [of "viW t" v] by (simp add: thr_refs_def)

lemma so_refs_nonneg: "0 \<le> so_refs v s"
  using one_nonneg [of "so_viR s" v] one_nonneg [of "so_viW s" v] by (simp add: so_refs_def)

lemma clock_ok_step: "clock_ok V a b \<Longrightarrow> vstep \<beta> n d V V' \<Longrightarrow> clock_ok V' a b"
  using vstep_at by (fastforce simp: clock_ok_def)

lemma thr_ok_step: "thr_ok V p t \<Longrightarrow> vstep \<beta> n d V V' \<Longrightarrow> thr_ok V' p t"
  using vstep_at by (fastforce simp: thr_ok_def)

lemma so_ok_step: "so_ok V s \<Longrightarrow> vstep \<beta> n d V V' \<Longrightarrow> so_ok V' s"
  using clock_ok_step by (auto simp: so_ok_def)

lemma hb_inv_vts: "hb_inv E st \<Longrightarrow> vts_inv (hb_vts st)"
  by (simp add: hb_inv_def)

lemma hb_inv_bounded: "hb_inv E st \<Longrightarrow> bounded (own_clock st) (hb_vts st)"
  by (simp add: hb_inv_def)

lemma hb_inv_thr: "hb_inv E st \<Longrightarrow> hb_thrs st p = Some t \<Longrightarrow> thr_ok (hb_vts st) p t"
  by (simp add: hb_inv_def)

lemma hb_inv_so: "hb_inv E st \<Longrightarrow> hb_sos st q = Some s \<Longrightarrow> so_ok (hb_vts st) s"
  by (simp add: hb_inv_def)

lemma hb_inv_rc:
  "hb_inv E st \<Longrightarrow> uint (vts_rc (hb_vts st) v) =
     msum (thr_refs v) (hb_thrs st) + msum (so_refs v) (hb_sos st) + E v"
  by (simp add: hb_inv_def)

lemma hb_inv_basic: "hb_inv E st \<Longrightarrow> finite (dom (hb_thrs st)) \<and> finite (dom (hb_sos st)) \<and> 0 \<le> E v"
  by (simp add: hb_inv_def)

lemma refs_counted:
  assumes "hb_inv E st"
  shows "hb_thrs st p = Some t \<Longrightarrow> thr_refs v t \<le> uint (vts_rc (hb_vts st) v)"
    and "hb_sos st q = Some s \<Longrightarrow> so_refs v s \<le> uint (vts_rc (hb_vts st) v)"
proof -
  note e = hb_inv_rc [OF assms, of v] and b = hb_inv_basic [OF assms, of v]
  have n: "0 \<le> msum (thr_refs v) (hb_thrs st)" "0 \<le> msum (so_refs v) (hb_sos st)"
    by (simp_all add: msum_nonneg thr_refs_nonneg so_refs_nonneg)
  show "thr_refs v t \<le> uint (vts_rc (hb_vts st) v)" if "hb_thrs st p = Some t"
    using msum_ge [of "hb_thrs st" p t "thr_refs v"] that thr_refs_nonneg e b n by force
  show "so_refs v s \<le> uint (vts_rc (hb_vts st) v)" if "hb_sos st q = Some s"
    using msum_ge [of "hb_sos st" q s "so_refs v"] that so_refs_nonneg e b n by force
qed

text \<open>The one preservation lemma all operations use.\<close>

lemma hb_inv_update:
  assumes inv: "hb_inv E st" and step: "vstep \<beta> n d (hb_vts st) V'"
    and \<beta>: "bounded \<beta> (hb_vts st)" "\<beta> \<le> own_clock st'" and V': "hb_vts st' = V'"
    and fin: "finite (dom (hb_thrs st'))" "finite (dom (hb_sos st'))"
    and thrs: "\<And>p t. hb_thrs st' p = Some t \<Longrightarrow> hb_thrs st p = Some t \<or> thr_ok V' p t"
    and sos: "\<And>q s. hb_sos st' q = Some s \<Longrightarrow> hb_sos st q = Some s \<or> so_ok V' s"
    and refs: "\<And>v. msum (thr_refs v) (hb_thrs st') + msum (so_refs v) (hb_sos st') =
        msum (thr_refs v) (hb_thrs st) + msum (so_refs v) (hb_sos st) + d v"
  shows "hb_inv E st'"
proof -
  have "bounded \<beta> V'" using vstep_bounded [OF step \<beta>(1)] .
  then have "bounded (own_clock st') V'" using \<beta>(2) by (auto simp: bounded_def intro: order_trans)
  moreover have "thr_ok V' p t" if "hb_thrs st' p = Some t" for p t
    using thrs [OF that] hb_inv_thr [OF inv] thr_ok_step [OF _ step] by blast
  moreover have "so_ok V' s" if "hb_sos st' q = Some s" for q s
    using sos [OF that] hb_inv_so [OF inv] so_ok_step [OF _ step] by blast
  moreover have "uint (vts_rc V' v) = msum (thr_refs v) (hb_thrs st') + msum (so_refs v) (hb_sos st') + E v" for v
    using vstep_rc [OF step, of v] refs [of v] inv by (simp add: hb_inv_def)
  ultimately show ?thesis using vstep_inv [OF step] fin inv unfolding hb_inv_def V' by simp
qed

section \<open>Clocks of one object\<close>

text \<open>Room for the operations: no count near its limit, and the table not near its limit.\<close>

definition room :: "vts_state \<Rightarrow> bool" where
  "room V \<longleftrightarrow> length (vts_tab V) < 2 ^ 30 \<and> (\<forall>v. uint (vts_rc V v) < 2 ^ 63)"

definition room_n :: "nat \<Rightarrow> vts_state \<Rightarrow> bool" where
  "room_n n V \<longleftrightarrow> length (vts_tab V) < 2 ^ 30 + n \<and> n \<le> 16 \<and> (\<forall>v. uint (vts_rc V v) < 2 ^ 63 + int n)"

lemma room_0: "room V \<Longrightarrow> room_n 0 V"
  by (simp add: room_def room_n_def)

lemma room_step:
  "room_n n V \<Longrightarrow> vstep \<beta> m d V V' \<Longrightarrow> m \<le> k \<Longrightarrow> (\<And>v. d v \<le> int k) \<Longrightarrow> n + k \<le> 16 \<Longrightarrow> room_n (n + k) V'"
  unfolding room_n_def
proof (intro conjI allI)
  fix v
  assume a: "length (vts_tab V) < 2 ^ 30 + n \<and> n \<le> 16 \<and> (\<forall>v. uint (vts_rc V v) < 2 ^ 63 + int n)"
    and s: "vstep \<beta> m d V V'" and k: "m \<le> k" "\<And>v. d v \<le> int k" "n + k \<le> 16"
  from vstep_len [OF s] a k(1) show "length (vts_tab V') < 2 ^ 30 + (n + k)" by linarith
  from a have "uint (vts_rc V v) < 2 ^ 63 + int n" by blast
  with vstep_rc [OF s, of v] k(2) [of v] show "uint (vts_rc V' v) < 2 ^ 63 + int (n + k)" by simp
  from k(3) show "n + k \<le> 16" .
qed

lemma vts_leq_tick:
  assumes "wf_ts x" "wf_ts y" "p \<noteq> 0" "VTS__indexAt_SLOW x p \<noteq> - 1" "vts_leq y x"
    "VTS__tick p x = Some x'" "VTS__tick p y = Some y'"
  shows "vts_leq y' x'" "vts_leq x x'" "VTS__indexAt_SLOW y p \<noteq> - 1"
proof -
  have le: "VTS__indexAt_SLOW y t \<le> VTS__indexAt_SLOW x t" for t using assms(1,2,5) by (simp add: vts_leq_iff)
  show ny: "VTS__indexAt_SLOW y p \<noteq> - 1" using le [of p] assms(4) by (metis word_order.extremum_uniqueI)
  from VTS__tick_spec [OF assms(1,3,4)] assms(6) have x': "wf_ts x'"
    "\<forall>t. VTS__indexAt_SLOW x' t = (if t = p then VTS__indexAt_SLOW x p + 1 else VTS__indexAt_SLOW x t)" by auto
  from VTS__tick_spec [OF assms(2,3) ny] assms(7) have y': "wf_ts y'"
    "\<forall>t. VTS__indexAt_SLOW y' t = (if t = p then VTS__indexAt_SLOW y p + 1 else VTS__indexAt_SLOW y t)" by auto
  have "VTS__indexAt_SLOW y p + 1 \<le> VTS__indexAt_SLOW x p + 1"
    using le [of p] unat_incr [OF assms(4)] unat_incr [OF ny] by (simp add: word_le_nat_alt)
  then show "vts_leq y' x'" using x' y' le by (simp add: vts_leq_iff)
  have "VTS__indexAt_SLOW x p \<le> VTS__indexAt_SLOW x p + 1" using incr_no_wrap [OF assms(4)] by (blast intro: less_imp_le)
  then show "vts_leq x x'" using x' assms(1) by (simp add: vts_leq_iff)
qed

lemma room_n_len: "room_n n V \<Longrightarrow> length (vts_tab V) < 2 ^ 32 - 1"
  and room_n_rc: "room_n n V \<Longrightarrow> uint (vts_rc V v) < 2 ^ 64 - 2"
  and room_n_rc1: "room_n n V \<Longrightarrow> uint (vts_rc V v) < 2 ^ 64 - 1"
  unfolding room_n_def by (auto dest: spec [of _ v])

lemma tick_both_spec:
  assumes inv: "vts_inv V" and R: "vts_at V (viR t) = Some R" and W: "vts_at V (viW t) = Some W"
    and le: "vts_leq W R" and p: "p \<noteq> 0" "VTS__indexAt_SLOW R p \<noteq> - 1" "VTS__indexAt_SLOW R p + 1 \<le> \<beta> p" and kn: "bounded \<beta> V"
    and room: "room_n n V" "n \<le> 12" and rc: "\<And>v. thr_refs v t \<le> uint (vts_rc V v)"
  shows "\<exists>t' R' W' V'. tick_both p t V = Some (t', V') \<and>
           vstep \<beta> 2 (\<lambda>v. thr_refs v t' - thr_refs v t) V V' \<and> opaque t' = opaque t \<and>
           vts_at V' (viR t') = Some R' \<and> vts_at V' (viW t') = Some W' \<and>
           VTS__tick p R = Some R' \<and> VTS__tick p W = Some W' \<and> vts_leq W' R'"
proof -
  from vstep_rcdec_both [OF inv R W, of \<beta>] rc obtain V1 where
    1: "rcdec_both (viR t) (viW t) V = Some V1" "vstep \<beta> 0 (\<lambda>v. - one (viR t) v - one (viW t) v) V V1"
    by (auto simp: thr_refs_def)
  have r1: "room_n (n + 0) V1" using room by (intro room_step [OF room(1) 1(2)]) (auto simp: one_def)
  from vstep_tick [OF vstep_inv [OF 1(2)] vstep_at [OF 1(2) R] p(1,2) room_n_len [OF r1] vstep_bounded [OF 1(2) kn] p(3)]
  obtain r R' V2 where 2: "VtsID__tick (viR t) p V1 = Some (r, V2)" "VTS__tick p R = Some R'" "vts_at V2 r = Some R'"
    "vstep \<beta> 1 (\<lambda>v. 0) V1 V2" by blast
  have s2: "vstep \<beta> 1 (\<lambda>v. - thr_refs v t) V V2"
    using vstep_trans [OF 1(2) 2(4)] by (rule vstep_cong) (auto simp: thr_refs_def)
  have r2: "room_n (n + 1) V2" using room thr_refs_nonneg [of _ t] by (intro room_step [OF room(1) s2]) (auto intro: order_trans [of _ 0])
  have wf: "wf_ts R" "wf_ts W" using vts_at_wf [OF inv] R W by auto
  have "VTS__indexAt_SLOW W p \<le> VTS__indexAt_SLOW R p" using le wf by (simp add: vts_leq_iff)
  then have nW: "VTS__indexAt_SLOW W p \<noteq> - 1" using p(2) by (metis word_order.extremum_uniqueI)
  have "VTS__indexAt_SLOW W p + 1 \<le> \<beta> p"
    using \<open>VTS__indexAt_SLOW W p \<le> VTS__indexAt_SLOW R p\<close> p(3) unat_incr [OF p(2)] unat_incr [OF nW]
    by (simp add: word_le_nat_alt)
  from vstep_tick [OF vstep_inv [OF s2] vstep_at [OF s2 W] p(1) nW room_n_len [OF r2] vstep_bounded [OF s2 kn] this]
  obtain w W' V3 where 3: "VtsID__tick (viW t) p V2 = Some (w, V3)" "VTS__tick p W = Some W'" "vts_at V3 w = Some W'"
    "vstep \<beta> 1 (\<lambda>v. 0) V2 V3" by blast
  have r3: "room_n (n + 1 + 1) V3" using room by (intro room_step [OF r2 3(4)]) auto
  from vstep_rcinc_both [OF vstep_inv [OF 3(4)] vstep_at [OF 3(4) 2(3)] 3(3) room_n_rc [OF r3] room_n_rc [OF r3], of \<beta>]
  obtain V4 where 4: "rcinc_both r w V3 = Some V4" "vstep \<beta> 0 (\<lambda>v. one r v + one w v) V3 V4" by blast
  let ?t = "t\<lparr>viR := r, viW := w\<rparr>"
  have "vstep \<beta> 2 (\<lambda>v. thr_refs v ?t - thr_refs v t) V V4"
    using vstep_trans [OF vstep_trans [OF s2 3(4)] 4(2)] by (rule vstep_cong) (auto simp: thr_refs_def)
  moreover have "vts_at V4 r = Some R'" "vts_at V4 w = Some W'"
    using vstep_at [OF 4(2)] vstep_at [OF 3(4) 2(3)] 3(3) by auto
  moreover have "vts_leq W' R'" using vts_leq_tick [OF wf p(1,2) le 2(2) 3(2)] by blast
  ultimately show ?thesis using 1(1) 2(1,2) 3(1,2) 4(1)
    by (intro exI [of _ ?t] exI [of _ R'] exI [of _ W'] exI [of _ V4]) (simp add: tick_both_def)
qed

lemma join_into_spec:
  assumes inv: "vts_inv V" and x: "vts_at V x = Some X" and y: "vts_at V y = Some Y" and kn: "bounded \<beta> V"
    and room: "room_n n V" "n \<le> 12" and rc: "0 < uint (vts_rc V x)"
  shows "\<exists>z Z V'. join_into x y V = Some (z, V') \<and> VTS__join X Y = Some Z \<and> vts_at V' z = Some Z \<and>
           vstep \<beta> 1 (\<lambda>v. one z v - one x v) V V'"
proof -
  from vstep_rcdec [OF inv x rc, of \<beta>] obtain V1 where
    1: "VtsID__rcdec x V = Some V1" "vstep \<beta> 0 (\<lambda>v. - one x v) V V1" by blast
  have r1: "room_n (n + 0) V1" using room by (intro room_step [OF room(1) 1(2)]) (auto simp: one_def)
  from vstep_join2 [OF vstep_inv [OF 1(2)] vstep_at [OF 1(2) x] vstep_at [OF 1(2) y] room_n_len [OF r1]
      vstep_bounded [OF 1(2) kn]]
  obtain z Z V2 where 2: "VtsID__join2 x y V1 = Some (z, V2)" "VTS__join X Y = Some Z" "vts_at V2 z = Some Z"
    "vstep \<beta> 1 (\<lambda>v. 0) V1 V2" by blast
  have r2: "room_n (n + 0 + 1) V2" using room by (intro room_step [OF r1 2(4)]) auto
  from vstep_rcinc [OF vstep_inv [OF 2(4)] 2(3) room_n_rc1 [OF r2], of \<beta>] obtain V3 where
    3: "VtsID__rcinc z V2 = Some V3" "vstep \<beta> 0 (one z) V2 V3" by blast
  have "vstep \<beta> 1 (\<lambda>v. one z v - one x v) V V3"
    using vstep_trans [OF vstep_trans [OF 1(2) 2(4)] 3(2)] by (rule vstep_cong) auto
  with 1(1) 2(1,2) 3(1) vstep_at [OF 3(2) 2(3)] show ?thesis by (auto simp: join_into_def)
qed

lemma vts_leq_join:
  assumes "wf_ts x" "wf_ts y" "wf_ts x'" "wf_ts y'" "vts_leq y x" "vts_leq y' x'"
    "VTS__join x x' = Some z" "VTS__join y y' = Some u"
  shows "vts_leq u z" "vts_leq x z" "vts_leq x' z"
proof -
  from VTS__join_spec [OF assms(1,3)] assms(7) have z: "wf_ts z"
    "\<forall>t. VTS__indexAt_SLOW z t = max (VTS__indexAt_SLOW x t) (VTS__indexAt_SLOW x' t)" by auto
  from VTS__join_spec [OF assms(2,4)] assms(8) have u: "wf_ts u"
    "\<forall>t. VTS__indexAt_SLOW u t = max (VTS__indexAt_SLOW y t) (VTS__indexAt_SLOW y' t)" by auto
  have "max (VTS__indexAt_SLOW y t) (VTS__indexAt_SLOW y' t) \<le> max (VTS__indexAt_SLOW x t) (VTS__indexAt_SLOW x' t)"
    for t using assms(1-6) by (intro max.mono) (simp_all add: vts_leq_iff)
  with z u show "vts_leq u z" by (simp add: vts_leq_iff)
  from assms(1,3) z show "vts_leq x z" "vts_leq x' z" by (auto simp: vts_leq_iff)
qed

lemma join_leq_right:
  "wf_ts x \<Longrightarrow> wf_ts y \<Longrightarrow> VTS__join x y = Some z \<Longrightarrow> wf_ts z \<and> vts_leq x z \<and> vts_leq y z"
  using VTS__join_spec [of x y] by (auto simp: vts_leq_iff)

text \<open>
  The clocks of the object after a send: the sender's for a strong send or a first send, the join
  with the old ones otherwise.
\<close>

definition send_clock :: "bool \<Rightarrow> ts_array option \<Rightarrow> ts_array \<Rightarrow> ts_array option" where
  "send_clock strong old new = (case old of None \<Rightarrow> Some new | Some x \<Rightarrow> if strong then Some new else VTS__join x new)"

definition so_clock :: "vts_state \<Rightarrow> VtsID \<Rightarrow> ts_array option" where
  "so_clock V a = (if a = VtsID_INVALID then None else vts_at V a)"

lemma so_send_clocks_spec:
  assumes inv: "vts_inv V" and R: "vts_at V (viR t) = Some R" and W: "vts_at V (viW t) = Some W"
    and le: "vts_leq W R" and so: "so_ok V so" and kn: "bounded \<beta> V" and room: "room_n n V" "n \<le> 10"
    and rc: "\<And>v. so_refs v so \<le> uint (vts_rc V v)"
  shows "\<exists>so' R' W' V'. so_send_clocks strong t so V = Some (so', V') \<and>
           vstep \<beta> 2 (\<lambda>v. so_refs v so' - so_refs v so) V V' \<and> so_magic so' = SO_MAGIC \<and>
           vts_at V' (so_viR so') = Some R' \<and> vts_at V' (so_viW so') = Some W' \<and> vts_leq W' R' \<and>
           send_clock strong (so_clock V (so_viR so)) R = Some R' \<and> send_clock strong (so_clock V (so_viW so)) W = Some W'"
proof (cases "so_viR so = VtsID_INVALID")
  case True
  then have w: "so_viW so = VtsID_INVALID" using so vts_at_INVALID [OF inv] by (auto simp: so_ok_def clock_ok_def)
  from vstep_rcinc_both [OF inv R W room_n_rc [OF room(1)] room_n_rc [OF room(1)], of \<beta>] obtain V1 where
    1: "rcinc_both (viR t) (viW t) V = Some V1" "vstep \<beta> 0 (\<lambda>v. one (viR t) v + one (viW t) v) V V1" by blast
  let ?so = "so\<lparr>so_viR := viR t, so_viW := viW t\<rparr>"
  have "viR t \<noteq> VtsID_INVALID" using R vts_at_INVALID [OF inv] by auto
  then have "vstep \<beta> 2 (\<lambda>v. so_refs v ?so - so_refs v so) V V1"
    using True 1(2) by (intro vstep_cong [OF 1(2)]) (auto simp: so_refs_def)
  with True w 1(1) so vstep_at [OF 1(2)] R W le show ?thesis
    by (intro exI [of _ ?so] exI [of _ R] exI [of _ W] exI [of _ V1])
      (auto simp: so_send_clocks_def send_clock_def so_clock_def so_ok_def)
next
  case False
  then obtain A B where AB: "vts_at V (so_viR so) = Some A" "vts_at V (so_viW so) = Some B" "vts_leq B A"
    using so by (auto simp: so_ok_def clock_ok_def)
  have wI: "so_viW so \<noteq> VtsID_INVALID" using AB vts_at_INVALID [OF inv] by auto
  have wf: "wf_ts A" "wf_ts B" "wf_ts R" "wf_ts W" using vts_at_wf [OF inv] AB R W by auto
  from vstep_rcdec_both [OF inv AB(1,2), of \<beta>] rc False obtain V1 where
    1: "rcdec_both (so_viR so) (so_viW so) V = Some V1" "vstep \<beta> 0 (\<lambda>v. - one (so_viR so) v - one (so_viW so) v) V V1"
    by (auto simp: so_refs_def)
  have r1: "room_n (n + 0) V1" using room by (intro room_step [OF room(1) 1(2)]) (auto simp: one_def)
  have "\<exists>r R' V2. (if strong then Some (viR t, V1) else VtsID__join2 (so_viR so) (viR t) V1) = Some (r, V2) \<and>
      vts_at V2 r = Some R' \<and> send_clock strong (Some A) R = Some R' \<and> vstep \<beta> 1 (\<lambda>v. 0) V1 V2"
    using vstep_join2 [OF vstep_inv [OF 1(2)] vstep_at [OF 1(2) AB(1)] vstep_at [OF 1(2) R] room_n_len [OF r1]
      vstep_bounded [OF 1(2) kn]] vstep_at [OF 1(2) R] vstep_cong [OF vstep_refl [OF vstep_inv [OF 1(2)]], of 1]
    by (auto simp: send_clock_def)
  then obtain r R' V2 where
    2: "(if strong then Some (viR t, V1) else VtsID__join2 (so_viR so) (viR t) V1) = Some (r, V2)"
      "vts_at V2 r = Some R'" "send_clock strong (Some A) R = Some R'" "vstep \<beta> 1 (\<lambda>v. 0) V1 V2" by blast
  have s2: "vstep \<beta> 1 (\<lambda>v. - so_refs v so) V V2"
    using vstep_trans [OF 1(2) 2(4)] by (rule vstep_cong) (auto simp: so_refs_def False)
  have r2: "room_n (n + 1) V2" using room so_refs_nonneg [of _ so] by (intro room_step [OF room(1) s2]) (auto intro: order_trans [of _ 0])
  have "\<exists>w W' V3. (if strong then Some (viW t, V2) else VtsID__join2 (so_viW so) (viW t) V2) = Some (w, V3) \<and>
      vts_at V3 w = Some W' \<and> send_clock strong (Some B) W = Some W' \<and> vstep \<beta> 1 (\<lambda>v. 0) V2 V3"
    using vstep_join2 [OF vstep_inv [OF s2] vstep_at [OF s2 AB(2)] vstep_at [OF s2 W] room_n_len [OF r2]
      vstep_bounded [OF s2 kn]] vstep_at [OF s2 W] vstep_cong [OF vstep_refl [OF vstep_inv [OF s2]], of 1]
    by (auto simp: send_clock_def)
  then obtain w W' V3 where
    3: "(if strong then Some (viW t, V2) else VtsID__join2 (so_viW so) (viW t) V2) = Some (w, V3)"
      "vts_at V3 w = Some W'" "send_clock strong (Some B) W = Some W'" "vstep \<beta> 1 (\<lambda>v. 0) V2 V3" by blast
  have r3: "room_n (n + 1 + 1) V3" using room by (intro room_step [OF r2 3(4)]) auto
  from vstep_rcinc_both [OF vstep_inv [OF 3(4)] vstep_at [OF 3(4) 2(2)] 3(2) room_n_rc [OF r3] room_n_rc [OF r3], of \<beta>]
  obtain V4 where 4: "rcinc_both r w V3 = Some V4" "vstep \<beta> 0 (\<lambda>v. one r v + one w v) V3 V4" by blast
  let ?so = "so\<lparr>so_viR := r, so_viW := w\<rparr>"
  have "r \<noteq> VtsID_INVALID" using 2(2) vts_at_INVALID [OF vstep_inv [OF 2(4)]] by auto
  then have "so_refs v ?so = one r v + one w v" for v by (simp add: so_refs_def)
  then have "vstep \<beta> 2 (\<lambda>v. so_refs v ?so - so_refs v so) V V4"
    by (intro vstep_cong [OF vstep_trans [OF vstep_trans [OF s2 3(4)] 4(2)]]) simp_all
  moreover have "vts_at V4 r = Some R'" "vts_at V4 w = Some W'"
    using vstep_at [OF 4(2)] vstep_at [OF 3(4) 2(2)] 3(2) by auto
  moreover have "vts_leq W' R'"
    using 2(3) 3(3) le vts_leq_join(1) [OF wf(1,2,3,4) AB(3) le] by (auto simp: send_clock_def split: if_splits)
  ultimately show ?thesis using 1(1) 2(1,3) 3(1,3) 4(1) False wI AB so
    by (intro exI [of _ ?so] exI [of _ R'] exI [of _ W'] exI [of _ V4])
      (simp add: so_send_clocks_def so_clock_def so_ok_def)
qed

section \<open>The operations keep the invariant\<close>

lemma put_simps [simp]:
  "hb_vts (put_thr p t st) = hb_vts st" "hb_thrs (put_thr p t st) = (hb_thrs st)(p \<mapsto> t)"
  "hb_sos (put_thr p t st) = hb_sos st" "hb_vts (put_so q s st) = hb_vts st"
  "hb_thrs (put_so q s st) = hb_thrs st" "hb_sos (put_so q s st) = (hb_sos st)(q \<mapsto> s)"
  by (simp_all add: put_thr_def put_so_def)

text \<open>What one operation may use up of the room.\<close>

definition small_step :: "vts_state \<Rightarrow> vts_state \<Rightarrow> bool" where
  "small_step V V' \<longleftrightarrow> length (vts_tab V') \<le> length (vts_tab V) + 4 \<and> (\<forall>v. uint (vts_rc V' v) \<le> uint (vts_rc V v) + 4) \<and>
     (\<forall>v x. vts_at V v = Some x \<longrightarrow> vts_at V' v = Some x)"

lemma small_step_refl [simp]: "small_step V V"
  by (simp add: small_step_def)

definition room_for :: "nat \<Rightarrow> vts_state \<Rightarrow> bool" where
  "room_for k V \<longleftrightarrow> length (vts_tab V) + 4 * k < 2 ^ 30 \<and> (\<forall>v. uint (vts_rc V v) + 4 * int k < 2 ^ 63)"

lemma room_for_step: "room_for (Suc k) V \<Longrightarrow> small_step V V' \<Longrightarrow> room_for k V'"
proof -
  assume r: "room_for (Suc k) V" and s: "small_step V V'"
  have "uint (vts_rc V' v) + 4 * int k < 2 ^ 63" for v
  proof -
    have "uint (vts_rc V v) + 4 * int (Suc k) < 2 ^ 63" "uint (vts_rc V' v) \<le> uint (vts_rc V v) + 4"
      using r s unfolding room_for_def small_step_def by blast+
    then show ?thesis by simp
  qed
  with r s show "room_for k V'" by (simp add: room_for_def small_step_def)
qed

lemma room_for_room: "room_for k V \<Longrightarrow> room V"
proof -
  assume r: "room_for k V"
  have "uint (vts_rc V v) < 2 ^ 63" for v
  proof -
    have "uint (vts_rc V v) + 4 * int k < 2 ^ 63" using r unfolding room_for_def by blast
    then show ?thesis by simp
  qed
  with r show "room V" by (simp add: room_for_def room_def)
qed

lemma small_step_vstep: "vstep \<beta> n d V V' \<Longrightarrow> n \<le> 4 \<Longrightarrow> (\<And>v. d v \<le> 4) \<Longrightarrow> small_step V V'"
  using vstep_len [of \<beta> n d V V'] vstep_rc [of \<beta> n d V V'] vstep_at [of \<beta> n d V V'] by (fastforce simp: small_step_def)

lemma refs_le_2: "thr_refs v t \<le> 2" "so_refs v s \<le> 2"
  by (simp_all add: thr_refs_def so_refs_def one_def)

lemma own_clock_upd:
  assumes inv: "hb_inv E st" and step: "vstep \<beta> n d (hb_vts st) V'"
    and st': "hb_vts st' = V'" "hb_thrs st' = (hb_thrs st)(p \<mapsto> t')" and R': "vts_at V' (viR t') = Some R'"
  shows "own_clock st' = (own_clock st)(p := VTS__indexAt_SLOW R' p)"
proof
  fix q
  show "own_clock st' q = ((own_clock st)(p := VTS__indexAt_SLOW R' p)) q"
  proof (cases "q = p")
    case False
    show ?thesis
    proof (cases "hb_thrs st q")
      case (Some t)
      then obtain x where "vts_at (hb_vts st) (viR t) = Some x" using hb_inv_thr [OF inv Some] by (auto simp: thr_ok_def)
      with Some False vstep_at [OF step] show ?thesis by (simp add: own_clock_def st')
    qed (use False in \<open>simp add: own_clock_def st'\<close>)
  qed (simp add: own_clock_def st' R')
qed

lemma own_clock_thr: "hb_thrs st p = Some t \<Longrightarrow> vts_at (hb_vts st) (viR t) = Some R \<Longrightarrow> own_clock st p = VTS__indexAt_SLOW R p"
  by (simp add: own_clock_def)

text \<open>The bound under which a thread may tick.\<close>

lemma bounded_tick:
  assumes "hb_inv E st" "hb_thrs st p = Some t" "vts_at (hb_vts st) (viR t) = Some R" "VTS__indexAt_SLOW R p \<noteq> - 1"
  shows "bounded ((own_clock st)(p := VTS__indexAt_SLOW R p + 1)) (hb_vts st)"
proof -
  have "own_clock st \<le> (own_clock st)(p := VTS__indexAt_SLOW R p + 1)"
    using incr_no_wrap [OF assms(4)] own_clock_thr [OF assms(2,3)] by (auto simp: le_fun_def intro: less_imp_le)
  with hb_inv_bounded [OF assms(1)] show ?thesis by (auto simp: bounded_def intro: order_trans)
qed

lemma so_send_spec:
  assumes inv: "hb_inv E st" and t: "hb_thrs st p = Some t" and so: "hb_sos st q = Some so"
    and R: "vts_at (hb_vts st) (viR t) = Some R" and W: "vts_at (hb_vts st) (viW t) = Some W"
    and tick: "VTS__indexAt_SLOW R p \<noteq> - 1" and room: "room (hb_vts st)"
  shows "\<exists>st' t' so' R1 W1 R' W'. libhb_so_send p q strong st = Some st' \<and> hb_inv E st' \<and>
     small_step (hb_vts st) (hb_vts st') \<and> hb_thrs st' = (hb_thrs st)(p \<mapsto> t') \<and> hb_sos st' = (hb_sos st)(q \<mapsto> so') \<and>
     (\<forall>v x. vts_at (hb_vts st) v = Some x \<longrightarrow> vts_at (hb_vts st') v = Some x) \<and>
     vts_at (hb_vts st') (viR t') = Some R1 \<and> VTS__tick p R = Some R1 \<and>
     vts_at (hb_vts st') (viW t') = Some W1 \<and> VTS__tick p W = Some W1 \<and>
     vts_at (hb_vts st') (so_viR so') = Some R' \<and> send_clock strong (so_clock (hb_vts st) (so_viR so)) R = Some R' \<and>
     vts_at (hb_vts st') (so_viW so') = Some W' \<and> send_clock strong (so_clock (hb_vts st) (so_viW so)) W = Some W'"
proof -
  let ?V = "hb_vts st" and ?T = "(own_clock st)(p := VTS__indexAt_SLOW R p + 1)"
  note V = hb_inv_vts [OF inv] and kn = bounded_tick [OF inv t R tick] and r0 = room_0 [OF room]
  have p: "p \<noteq> 0" "VTS__indexAt_SLOW R p + 1 \<le> ?T p" using hb_inv_thr [OF inv t] by (auto simp: thr_ok_def)
  have le: "vts_leq W R" "VTS__indexAt_SLOW W p = VTS__indexAt_SLOW R p"
    using hb_inv_thr [OF inv t] R W by (auto simp: thr_ok_def)
  from vstep_getOrdering [OF V W R, of ?T] obtain V1 where
    1: "VtsID__getOrdering (viW t) (viR t) ?V = Some (VTS__cmp W R, V1)" "vstep ?T 0 (\<lambda>v. 0) ?V V1" by blast
  have r1: "room_n (0 + 0) V1" by (intro room_step [OF r0 1(2)]) auto
  have rc1: "uint (vts_rc V1 v) = uint (vts_rc ?V v)" for v using vstep_rc [OF 1(2), of v] by simp
  have clR: "so_clock V1 (so_viR so) = so_clock ?V (so_viR so)" "so_clock V1 (so_viW so) = so_clock ?V (so_viW so)"
    using hb_inv_so [OF inv so] vstep_at [OF 1(2)] by (auto simp: so_clock_def so_ok_def clock_ok_def)
  from so_send_clocks_spec [OF vstep_inv [OF 1(2)] vstep_at [OF 1(2) R] vstep_at [OF 1(2) W] le(1)
      so_ok_step [OF hb_inv_so [OF inv so] 1(2)] vstep_bounded [OF 1(2) kn] r1, of strong]
    refs_counted(2) [OF inv so] obtain so' R' W' V2 where
    2: "so_send_clocks strong t so V1 = Some (so', V2)" "vstep ?T 2 (\<lambda>v. so_refs v so' - so_refs v so) V1 V2"
      "so_magic so' = SO_MAGIC" "vts_at V2 (so_viR so') = Some R'" "vts_at V2 (so_viW so') = Some W'" "vts_leq W' R'"
      "send_clock strong (so_clock ?V (so_viR so)) R = Some R'" "send_clock strong (so_clock ?V (so_viW so)) W = Some W'"
    by (auto simp: rc1 clR)
  have s2: "vstep ?T 2 (\<lambda>v. so_refs v so' - so_refs v so) ?V V2"
    using vstep_trans [OF 1(2) 2(2)] by (rule vstep_cong) auto
  have d2: "so_refs v so' - so_refs v so \<le> 2" "0 \<le> so_refs v so'" for v
    using so_refs_nonneg [of v so] so_refs_nonneg [of v so'] by (auto simp: so_refs_def one_def)
  have r2: "room_n (0 + 2) V2" using d2 by (intro room_step [OF r0 s2]) auto
  have rc2: "thr_refs v t \<le> uint (vts_rc V2 v)" for v
  proof -
    have "thr_refs v t + so_refs v so \<le> uint (vts_rc ?V v)"
      using hb_inv_rc [OF inv, of v] hb_inv_basic [OF inv, of v] thr_refs_nonneg so_refs_nonneg
        msum_ge [of "hb_thrs st" p t "thr_refs v"] msum_ge [of "hb_sos st" q so "so_refs v"] t so by force
    then show ?thesis using vstep_rc [OF s2, of v] d2(2) [of v] by linarith
  qed
  from tick_both_spec [OF vstep_inv [OF s2] vstep_at [OF s2 R] vstep_at [OF s2 W] le(1) p(1) tick p(2)
      vstep_bounded [OF s2 kn] r2 _ rc2] obtain t' R1 W1 V3 where
    3: "tick_both p t V2 = Some (t', V3)" "vstep ?T 2 (\<lambda>v. thr_refs v t' - thr_refs v t) V2 V3"
      "vts_at V3 (viR t') = Some R1" "vts_at V3 (viW t') = Some W1" "VTS__tick p R = Some R1" "VTS__tick p W = Some W1"
      "vts_leq W1 R1" by auto
  let ?st = "put_thr p t' (put_so q so' (st\<lparr>hb_vts := V3\<rparr>))"
  note s3 = vstep_trans [OF s2 3(2)]
  have "so_ok V3 so'" using 2(3-6) vstep_at [OF 3(2)] by (auto simp: so_ok_def clock_ok_def)
  moreover have own: "VTS__indexAt_SLOW R1 p = VTS__indexAt_SLOW R p + 1" "VTS__indexAt_SLOW W1 p = VTS__indexAt_SLOW R1 p"
    using VTS__tick_spec [OF vts_at_wf [OF V R] p(1) tick] VTS__tick_spec [OF vts_at_wf [OF V W] p(1)] 3(5,6) le(2) tick
    by auto
  then have "thr_ok V3 p t'" using p(1) 3(3,4,7) by (auto simp: thr_ok_def)
  moreover have "own_clock ?st = ?T" using own_clock_upd [OF inv s3 _ _ 3(3), of ?st p] own(1) by simp
  ultimately have "hb_inv E ?st"
    using hb_inv_basic [OF inv] t so kn
    by (intro hb_inv_update [OF inv s3]) (auto simp: msum_upd split: if_splits)
  moreover have "libhb_so_send p q strong st = Some ?st"
    using t so hb_inv_so [OF inv so] 1(1) le(1) 2(1) 3(1) by (simp add: libhb_so_send_def so_ok_def vts_leq_cmp)
  moreover have "small_step ?V V3"
  proof (rule small_step_vstep [OF s3])
    fix v show "so_refs v so' - so_refs v so + (thr_refs v t' - thr_refs v t) \<le> 4"
      using refs_le_2(1) [of v t'] refs_le_2(2) [of v so'] so_refs_nonneg [of v so] thr_refs_nonneg [of v t] by linarith
  qed simp
  ultimately show ?thesis using 2(4,5,7,8) 3(3-6) vstep_at [OF 3(2)] vstep_at [OF s3]
    by (intro exI [of _ ?st] exI [of _ t'] exI [of _ so'] exI [of _ R1] exI [of _ W1] exI [of _ R'] exI [of _ W']) simp
qed

lemma so_recv_spec:
  assumes inv: "hb_inv E st" and t: "hb_thrs st p = Some t" and so: "hb_sos st q = Some so"
    and R: "vts_at (hb_vts st) (viR t) = Some R" and W: "vts_at (hb_vts st) (viW t) = Some W"
    and A: "vts_at (hb_vts st) (so_viR so) = Some A" and B: "vts_at (hb_vts st) (so_viW so) = Some B"
    and room: "room (hb_vts st)"
  shows "\<exists>st' t' R' W'. libhb_so_recv p q strong st = Some st' \<and> hb_inv E st' \<and>
     small_step (hb_vts st) (hb_vts st') \<and> hb_thrs st' = (hb_thrs st)(p \<mapsto> t') \<and> hb_sos st' = hb_sos st \<and>
     (\<forall>v x. vts_at (hb_vts st) v = Some x \<longrightarrow> vts_at (hb_vts st') v = Some x) \<and>
     vts_at (hb_vts st') (viR t') = Some R' \<and> VTS__join R A = Some R' \<and>
     vts_at (hb_vts st') (viW t') = Some W' \<and> (if strong then VTS__join W B = Some W' else W' = W)"
proof -
  let ?V = "hb_vts st" and ?T = "own_clock st"
  note V = hb_inv_vts [OF inv] and kn = hb_inv_bounded [OF inv] and r0 = room_0 [OF room]
  have nI: "so_viR so \<noteq> VtsID_INVALID" "so_viW so \<noteq> VtsID_INVALID" using A B vts_at_INVALID [OF V] by auto
  have le: "vts_leq W R" "VTS__indexAt_SLOW W p = VTS__indexAt_SLOW R p" "p \<noteq> 0"
    using hb_inv_thr [OF inv t] R W by (auto simp: thr_ok_def)
  have le2: "vts_leq B A" using hb_inv_so [OF inv so] A B nI by (auto simp: so_ok_def clock_ok_def)
  have wf: "wf_ts R" "wf_ts W" "wf_ts A" "wf_ts B" using vts_at_wf [OF V] R W A B by auto
  have rc: "thr_refs v t \<le> uint (vts_rc ?V v)" for v using refs_counted(1) [OF inv t] .
  have rcR: "0 < uint (vts_rc ?V (viR t))"
    using rc [of "viR t"] by (cases "viR t = viW t") (auto simp: thr_refs_def one_def)
  from join_into_spec [OF V R A kn r0 _ rcR] obtain r R' V1 where
    1: "join_into (viR t) (so_viR so) ?V = Some (r, V1)" "VTS__join R A = Some R'" "vts_at V1 r = Some R'"
      "vstep ?T 1 (\<lambda>v. one r v - one (viR t) v) ?V V1" by auto
  have r1: "room_n (0 + 1) V1" by (intro room_step [OF r0 1(4)]) (auto simp: one_def)
  have "\<exists>w W' V2. (if strong then join_into (viW t) (so_viW so) V1 else Some (viW t, V1)) = Some (w, V2) \<and>
      (if strong then VTS__join W B = Some W' else W' = W) \<and> vts_at V2 w = Some W' \<and>
      vstep ?T 1 (\<lambda>v. one w v - one (viW t) v) V1 V2"
  proof (cases strong)
    case True
    have "0 < uint (vts_rc V1 (viW t))"
      using vstep_rc [OF 1(4), of "viW t"] rc [of "viW t"] by (auto simp: thr_refs_def one_def split: if_splits)
    from join_into_spec [OF vstep_inv [OF 1(4)] vstep_at [OF 1(4) W] vstep_at [OF 1(4) B] vstep_bounded [OF 1(4) kn] r1 _ this]
    show ?thesis using True by auto
  next
    case False
    have "vstep ?T 1 (\<lambda>v. one (viW t) v - one (viW t) v) V1 V1"
      by (rule vstep_cong [OF vstep_refl [OF vstep_inv [OF 1(4)]]]) auto
    with False vstep_at [OF 1(4) W] show ?thesis by auto
  qed
  then obtain w W' V2 where
    2: "(if strong then join_into (viW t) (so_viW so) V1 else Some (viW t, V1)) = Some (w, V2)"
      "if strong then VTS__join W B = Some W' else W' = W" "vts_at V2 w = Some W'"
      "vstep ?T 1 (\<lambda>v. one w v - one (viW t) v) V1 V2" by blast
  let ?t = "t\<lparr>viR := r, viW := w\<rparr>"
  let ?st = "put_thr p ?t (st\<lparr>hb_vts := V2\<rparr>)"
  note s2 = vstep_trans [OF 1(4) 2(4)]
  have leW: "vts_leq W' R'"
  proof (cases strong)
    case True
    with 2(2) vts_leq_join(1) [OF wf le(1) le2 1(2)] show ?thesis by simp
  next
    case False
    have "wf_ts R'" "vts_leq R R'" using join_leq_right [OF wf(1,3) 1(2)] by auto
    with False 2(2) le(1) wf show ?thesis using vts_leq_trans by metis
  qed
  have bd: "VTS__indexAt_SLOW A p \<le> VTS__indexAt_SLOW R p" "VTS__indexAt_SLOW B p \<le> VTS__indexAt_SLOW R p"
    using kn A B unfolding bounded_def le_fun_def own_clock_thr [OF t R, symmetric] by blast+
  then have own: "VTS__indexAt_SLOW R' p = VTS__indexAt_SLOW R p" "VTS__indexAt_SLOW W' p = VTS__indexAt_SLOW R p"
    using VTS__join_spec [OF wf(1,3)] VTS__join_spec [OF wf(2,4)] 1(2) 2(2) le(2)
    by (auto simp: max_absorb1 split: if_splits)
  then have "thr_ok V2 p ?t" using vstep_at [OF 2(4) 1(3)] 2(3) leW le(3) by (simp add: thr_ok_def)
  moreover have "own_clock ?st = own_clock st"
    using own_clock_upd [OF inv s2, of ?st p ?t R'] vstep_at [OF 2(4) 1(3)] own(1) own_clock_thr [OF t R] by auto
  ultimately have "hb_inv E ?st"
    using hb_inv_basic [OF inv] t kn
    by (intro hb_inv_update [OF inv s2]) (auto simp: msum_upd thr_refs_def split: if_splits)
  moreover have "libhb_so_recv p q strong st = Some ?st"
    using t so hb_inv_so [OF inv so] nI 1(1) 2(1) by (simp add: libhb_so_recv_def so_ok_def)
  moreover have "small_step ?V V2" by (rule small_step_vstep [OF s2]) (auto simp: one_def)
  ultimately show ?thesis using 1(2) 2(2,3) vstep_at [OF 2(4) 1(3)] vstep_at [OF s2]
    by (intro exI [of _ ?st] exI [of _ ?t] exI [of _ R'] exI [of _ W']) simp
qed

lemma hb_inv_no_step:
  assumes inv: "hb_inv E st" and st': "hb_vts st' = hb_vts st" "hb_thrs st' = hb_thrs st"
    and sos: "finite (dom (hb_sos st'))" "\<And>q s. hb_sos st' q = Some s \<Longrightarrow> hb_sos st q = Some s \<or> so_ok (hb_vts st) s"
    "\<And>v. msum (so_refs v) (hb_sos st') = msum (so_refs v) (hb_sos st)"
  shows "hb_inv E st'"
proof (rule hb_inv_update [OF inv vstep_refl [OF hb_inv_vts [OF inv]]])
  show "bounded (own_clock st) (hb_vts st)" using hb_inv_bounded [OF inv] .
  show "own_clock st \<le> own_clock st'" by (simp add: own_clock_def st' le_fun_def split: option.split)
qed (use hb_inv_basic [OF inv] st' sos in auto)

lemma so_alloc_inv:
  assumes "hb_inv E st" "hb_sos st q = None"
  shows "hb_inv E (libhb_so_alloc q st)"
  using assms hb_inv_basic [OF assms(1)]
  by (intro hb_inv_no_step [OF assms(1)])
    (auto simp: libhb_so_alloc_def SO__Alloc_def msum_upd_new so_refs_def so_ok_def split: if_splits)

lemma so_dealloc_spec:
  assumes inv: "hb_inv E st" and so: "hb_sos st q = Some so"
  shows "\<exists>st'. libhb_so_dealloc q st = Some st' \<and> hb_inv E st' \<and> small_step (hb_vts st) (hb_vts st') \<and> hb_thrs st' = hb_thrs st \<and>
     hb_sos st' = (hb_sos st)(q := None)"
proof (cases "so_viR so = VtsID_INVALID")
  case True
  then have w: "so_viW so = VtsID_INVALID"
    using hb_inv_so [OF inv so] vts_at_INVALID [OF hb_inv_vts [OF inv]] by (auto simp: so_ok_def clock_ok_def)
  let ?st = "st\<lparr>hb_sos := (hb_sos st)(q := None)\<rparr>"
  have "hb_inv E ?st"
    using hb_inv_basic [OF inv] so True
    by (intro hb_inv_no_step [OF inv]) (auto simp: msum_remove [of "hb_sos st" q so] so_refs_def split: if_splits)
  with True w so hb_inv_so [OF inv so] show ?thesis
    by (auto simp: libhb_so_dealloc_def SO__Dealloc_def so_ok_def)
next
  case False
  let ?V = "hb_vts st" and ?T = "own_clock st"
  from False obtain A B where AB: "vts_at ?V (so_viR so) = Some A" "vts_at ?V (so_viW so) = Some B"
    using hb_inv_so [OF inv so] by (auto simp: so_ok_def clock_ok_def)
  have w: "so_viW so \<noteq> VtsID_INVALID" using AB vts_at_INVALID [OF hb_inv_vts [OF inv]] by auto
  from vstep_rcdec_both [OF hb_inv_vts [OF inv] AB, of ?T] refs_counted(2) [OF inv so] False obtain V1 where
    1: "rcdec_both (so_viR so) (so_viW so) ?V = Some V1"
      "vstep ?T 0 (\<lambda>v. - one (so_viR so) v - one (so_viW so) v) ?V V1" by (auto simp: so_refs_def)
  let ?st = "st\<lparr>hb_vts := V1, hb_sos := (hb_sos st)(q := None)\<rparr>"
  have "own_clock st \<le> own_clock ?st"
    using hb_inv_thr [OF inv] vstep_at [OF 1(2)]
    by (fastforce simp: own_clock_def le_fun_def thr_ok_def split: option.splits)
  then have "hb_inv E ?st"
    using hb_inv_basic [OF inv] so False hb_inv_bounded [OF inv]
    by (intro hb_inv_update [OF inv 1(2)]) (auto simp: msum_remove [of "hb_sos st" q so] so_refs_def split: if_splits)
  moreover have "small_step ?V V1" by (rule small_step_vstep [OF 1(2)]) (auto simp: one_def)
  ultimately show ?thesis using False w so 1(1) hb_inv_so [OF inv so]
    by (auto simp: libhb_so_dealloc_def SO__Dealloc_def so_ok_def upd_vts_def)
qed

lemma so_extract_spec:
  assumes inv: "hb_inv E st" and t: "hb_thrs st p = Some t" and q: "hb_sos st q = None" and room: "room (hb_vts st)"
  shows "\<exists>st'. libhb_so_extract p q st = Some st' \<and> hb_inv E st' \<and> small_step (hb_vts st) (hb_vts st') \<and> hb_thrs st' = hb_thrs st \<and>
     hb_sos st' = (hb_sos st)(q \<mapsto> \<lparr>so_viR = viR t, so_viW = viW t, so_magic = SO_MAGIC\<rparr>)"
proof -
  let ?V = "hb_vts st" and ?T = "own_clock st" and ?so = "\<lparr>so_viR = viR t, so_viW = viW t, so_magic = SO_MAGIC\<rparr>"
  obtain R W where RW: "vts_at ?V (viR t) = Some R" "vts_at ?V (viW t) = Some W" "vts_leq W R"
    using hb_inv_thr [OF inv t] by (auto simp: thr_ok_def)
  have nI: "viR t \<noteq> VtsID_INVALID" using RW vts_at_INVALID [OF hb_inv_vts [OF inv]] by auto
  note r0 = room_0 [OF room]
  from vstep_rcinc_both [OF hb_inv_vts [OF inv] RW(1,2) room_n_rc [OF r0] room_n_rc [OF r0], of ?T] obtain V1 where
    1: "rcinc_both (viR t) (viW t) ?V = Some V1" "vstep ?T 0 (\<lambda>v. one (viR t) v + one (viW t) v) ?V V1" by blast
  let ?st = "put_so q ?so (st\<lparr>hb_vts := V1\<rparr>)"
  have "own_clock st \<le> own_clock ?st"
    using hb_inv_thr [OF inv] vstep_at [OF 1(2)]
    by (fastforce simp: own_clock_def le_fun_def thr_ok_def split: option.splits)
  moreover have "so_ok V1 ?so" using RW vstep_at [OF 1(2)] by (auto simp: so_ok_def clock_ok_def)
  ultimately have "hb_inv E ?st"
    using hb_inv_basic [OF inv] q hb_inv_bounded [OF inv] nI
    by (intro hb_inv_update [OF inv 1(2)]) (auto simp: msum_upd_new so_refs_def split: if_splits)
  moreover have "small_step ?V V1" by (rule small_step_vstep [OF 1(2)]) (auto simp: one_def)
  ultimately show ?thesis using t 1(1) by (auto simp: libhb_so_extract_def)
qed

section \<open>Creating threads\<close>

lemma bounded_mono: "bounded \<beta> V \<Longrightarrow> \<beta> \<le> \<gamma> \<Longrightarrow> bounded \<gamma> V"
  by (auto simp: bounded_def intro: order_trans)

lemma own_clock_put:
  "vts_at (hb_vts st) (viR t) = Some R \<Longrightarrow> own_clock (put_thr p t st) = (own_clock st)(p := VTS__indexAt_SLOW R p)"
  by (rule ext) (simp add: own_clock_def split: option.split)

lemma bounded_at: "bounded \<beta> V \<Longrightarrow> vts_at V v = Some x \<Longrightarrow> VTS__indexAt_SLOW x t \<le> \<beta> t"
  by (auto simp: bounded_def le_fun_def)

text \<open>Ticking both clocks of the parent at the index of a child nobody has seen.\<close>

lemma child_clocks:
  assumes inv: "vts_inv V" and R: "vts_at V a = Some R" and W: "vts_at V b = Some W" and le: "vts_leq W R"
    and c: "c \<noteq> 0" "VTS__indexAt_SLOW R c = 0" "VTS__indexAt_SLOW W c = 0" "1 \<le> \<beta> c"
    and bd: "bounded \<beta> V" and room: "room_n n V" "n \<le> 4"
  shows "\<exists>r w R' W' V1 V2 V3. VtsID__tick a c V = Some (r, V1) \<and> VtsID__tick b c V1 = Some (w, V2) \<and>
     rcinc_both r w V2 = Some V3 \<and> vstep \<beta> 2 (\<lambda>v. one r v + one w v) V V3 \<and>
     vts_at V3 r = Some R' \<and> vts_at V3 w = Some W' \<and> VTS__tick c R = Some R' \<and> VTS__tick c W = Some W' \<and>
     VTS__indexAt_SLOW R' c = 1 \<and> VTS__indexAt_SLOW W' c = 1 \<and> vts_leq W' R'"
proof -
  have wf: "wf_ts R" "wf_ts W" using vts_at_wf [OF inv] R W by auto
  have n1: "VTS__indexAt_SLOW R c \<noteq> - 1" "VTS__indexAt_SLOW W c \<noteq> - 1" using c(2,3) by auto
  from vstep_tick [OF inv R c(1) n1(1) room_n_len [OF room(1)] bd] c(2,4) obtain r R' V1 where
    1: "VtsID__tick a c V = Some (r, V1)" "VTS__tick c R = Some R'" "vts_at V1 r = Some R'" "vstep \<beta> 1 (\<lambda>v. 0) V V1"
    by auto
  have r1: "room_n (n + 1) V1" using room by (intro room_step [OF room(1) 1(4)]) auto
  from vstep_tick [OF vstep_inv [OF 1(4)] vstep_at [OF 1(4) W] c(1) n1(2) room_n_len [OF r1] vstep_bounded [OF 1(4) bd]]
    c(3,4) obtain w W' V2 where 2: "VtsID__tick b c V1 = Some (w, V2)" "VTS__tick c W = Some W'" "vts_at V2 w = Some W'"
      "vstep \<beta> 1 (\<lambda>v. 0) V1 V2" by auto
  have r2: "room_n (n + 1 + 1) V2" using room by (intro room_step [OF r1 2(4)]) auto
  from vstep_rcinc_both [OF vstep_inv [OF 2(4)] vstep_at [OF 2(4) 1(3)] 2(3) room_n_rc [OF r2] room_n_rc [OF r2], of \<beta>]
  obtain V3 where 3: "rcinc_both r w V2 = Some V3" "vstep \<beta> 0 (\<lambda>v. one r v + one w v) V2 V3" by blast
  have "vstep \<beta> 2 (\<lambda>v. one r v + one w v) V V3"
    using vstep_trans [OF vstep_trans [OF 1(4) 2(4)] 3(2)] by (rule vstep_cong) auto
  moreover have "VTS__indexAt_SLOW R' c = 1" "VTS__indexAt_SLOW W' c = 1"
    using VTS__tick_spec [OF wf(1) c(1) n1(1)] VTS__tick_spec [OF wf(2) c(1) n1(2)] 1(2) 2(2) c(2,3) by auto
  moreover have "vts_leq W' R'" using vts_leq_tick(1) [OF wf c(1) n1(1) le 1(2) 2(2)] .
  ultimately show ?thesis using 1 2 3 vstep_at [OF 3(2)] vstep_at [OF 2(4)] by blast
qed

lemma create_spec:
  assumes inv: "hb_inv E st" and t: "hb_thrs st p = Some t" and c: "hb_thrs st c = None" "c \<noteq> 0"
    and R: "vts_at (hb_vts st) (viR t) = Some R" and W: "vts_at (hb_vts st) (viW t) = Some W"
    and tick: "VTS__indexAt_SLOW R p \<noteq> - 1" and room: "room (hb_vts st)"
  shows "\<exists>st' tp tc Rp Wp Rc Wc. libhb_create p c st = Some st' \<and> hb_inv E st' \<and>
     small_step (hb_vts st) (hb_vts st') \<and> hb_thrs st' = (hb_thrs st)(c \<mapsto> tc, p \<mapsto> tp) \<and> hb_sos st' = hb_sos st \<and>
     vts_at (hb_vts st') (viR tp) = Some Rp \<and> VTS__tick p R = Some Rp \<and>
     vts_at (hb_vts st') (viW tp) = Some Wp \<and> VTS__tick p W = Some Wp \<and>
     vts_at (hb_vts st') (viR tc) = Some Rc \<and> VTS__tick c R = Some Rc \<and>
     vts_at (hb_vts st') (viW tc) = Some Wc \<and> VTS__tick c W = Some Wc"
proof -
  let ?V = "hb_vts st"
  let ?P = "(own_clock st)(p := VTS__indexAt_SLOW R p + 1)"
  let ?B = "?P(c := 1)"
  note V = hb_inv_vts [OF inv] and r0 = room_0 [OF room]
  have oc: "own_clock st c = 0" using c(1) by (simp add: own_clock_def)
  have pc: "p \<noteq> c" using t c by auto
  have "?P \<le> ?B" using oc pc by (simp add: le_fun_def)
  then have bd: "bounded ?B ?V" using bounded_mono [OF bounded_tick [OF inv t R tick]] by blast
  have le: "vts_leq W R" "VTS__indexAt_SLOW W p = VTS__indexAt_SLOW R p" "p \<noteq> 0"
    using hb_inv_thr [OF inv t] R W by (auto simp: thr_ok_def)
  have z: "VTS__indexAt_SLOW R c = 0" "VTS__indexAt_SLOW W c = 0"
    using bounded_at [OF hb_inv_bounded [OF inv] R, of c] bounded_at [OF hb_inv_bounded [OF inv] W, of c] oc by auto
  from child_clocks [OF V R W le(1) c(2) z _ bd r0] obtain r w Rc Wc V1 V2 V3 where
    1: "VtsID__tick (viR t) c ?V = Some (r, V1)" "VtsID__tick (viW t) c V1 = Some (w, V2)" "rcinc_both r w V2 = Some V3"
    and s3: "vstep ?B 2 (\<lambda>v. one r v + one w v) ?V V3"
    and C: "vts_at V3 r = Some Rc" "vts_at V3 w = Some Wc" "VTS__tick c R = Some Rc" "VTS__tick c W = Some Wc"
      "VTS__indexAt_SLOW Rc c = 1" "VTS__indexAt_SLOW Wc c = 1" "vts_leq Wc Rc" by auto
  have r3: "room_n (0 + 2) V3" by (intro room_step [OF r0 s3]) (auto simp: one_def)
  have rc: "thr_refs v t \<le> uint (vts_rc V3 v)" for v
    using refs_counted(1) [OF inv t, of v] vstep_rc [OF s3, of v] one_nonneg [of r v] one_nonneg [of w v] by linarith
  have B: "VTS__indexAt_SLOW R p + 1 \<le> ?B p" using pc by simp
  from tick_both_spec [OF vstep_inv [OF s3] vstep_at [OF s3 R] vstep_at [OF s3 W] le(1,3) tick B
      vstep_bounded [OF s3 bd] r3 _ rc] obtain tp Rp Wp V4 where
    4: "tick_both p t V3 = Some (tp, V4)" "vstep ?B 2 (\<lambda>v. thr_refs v tp - thr_refs v t) V3 V4"
      "vts_at V4 (viR tp) = Some Rp" "vts_at V4 (viW tp) = Some Wp" "VTS__tick p R = Some Rp" "VTS__tick p W = Some Wp"
      "vts_leq Wp Rp" by auto
  let ?tc = "Thr__new\<lparr>viR := r, viW := w\<rparr>"
  let ?s1 = "put_thr c ?tc (st\<lparr>hb_vts := V4\<rparr>)"
  let ?st = "put_thr p tp ?s1"
  note s4 = vstep_trans [OF s3 4(2)]
  have idx: "VtsID__indexAt r c V3 = Some 1" "VtsID__indexAt w c V3 = Some 1"
    using C to_VTS_of_vts_at [OF C(1)] to_VTS_of_vts_at [OF C(2)] by (auto simp: VtsID__indexAt_def)
  have own: "VTS__indexAt_SLOW Rp p = VTS__indexAt_SLOW R p + 1" "VTS__indexAt_SLOW Wp p = VTS__indexAt_SLOW Rp p"
    using VTS__tick_spec [OF vts_at_wf [OF V R] le(3) tick] VTS__tick_spec [OF vts_at_wf [OF V W] le(3)] 4(5,6) le(2) tick
    by auto
  have tok: "thr_ok V4 p tp" "thr_ok V4 c ?tc"
    using le(3) 4(3,4,7) own c(2) vstep_at [OF 4(2) C(1)] vstep_at [OF 4(2) C(2)] C(5-7) by (auto simp: thr_ok_def)
  have "own_clock ?s1 = (own_clock st)(c := 1)"
    using own_clock_upd [OF inv s4, of ?s1 c ?tc Rc] vstep_at [OF 4(2) C(1)] C(5) by simp
  then have "own_clock ?st = ?B"
    using own_clock_put [of ?s1 tp Rp p] 4(3) own(1) pc by (simp add: fun_upd_twist)
  then have "hb_inv E ?st"
    using hb_inv_basic [OF inv] t c pc bd tok
    by (intro hb_inv_update [OF inv s4]) (auto simp: msum_upd msum_upd_new thr_refs_def [of _ ?tc] split: if_splits)
  moreover have "libhb_create p c st = Some ?st" using t 1 4(1) idx by (simp add: libhb_create_def)
  moreover have "small_step ?V V4"
  proof (rule small_step_vstep [OF s4])
    fix v show "one r v + one w v + (thr_refs v tp - thr_refs v t) \<le> 4"
      using refs_le_2(1) [of v tp] thr_refs_nonneg [of v t] by (auto simp: one_def)
  qed simp
  ultimately show ?thesis using 4(3-6) C vstep_at [OF 4(2) C(1)] vstep_at [OF 4(2) C(2)]
    by (intro exI [of _ ?st] exI [of _ tp] exI [of _ ?tc] exI [of _ Rp] exI [of _ Wp] exI [of _ Rc] exI [of _ Wc]) simp
qed

lemma libhb_init_spec:
  assumes p: "p \<noteq> 0"
  shows "\<exists>st t. libhb_init p = Some st \<and> hb_inv (\<lambda>v. 0) st \<and> hb_thrs st = [p \<mapsto> t] \<and> hb_sos st = Map.empty \<and>
     vts_at (hb_vts st) (viR t) = Some [\<lparr>thr = p, tym = 1\<rparr>] \<and> viW t = viR t \<and> room_for 10 (hb_vts st)"
proof -
  have z: "vts_at vts_init v = None" "vts_rc vts_init v = 0" "vts_tab vts_init = []" for v
    by (simp_all add: vts_init_def VtsID__invalidate_caches_def vts_at_def VtsID__to_VTS_def vts_rc_def index_opt_def)
  from mk_Singleton_spec [OF vts_inv_init p, of 1] z(3) obtain vi V1 where
    1: "VtsID__mk_Singleton p 1 vts_init = Some (vi, V1)" "grown vts_init [\<lparr>thr = p, tym = 1\<rparr>] vi V1" by auto
  then have V1: "vts_inv V1" "vts_at V1 = [vi \<mapsto> [\<lparr>thr = p, tym = 1\<rparr>]]" "\<And>v. vts_rc V1 v = 0" "length (vts_tab V1) \<le> 1"
    using z by (auto simp: grown_def)
  let ?b = "(\<lambda>q. 0)(p := 1)"
  from vstep_rcinc_both [OF V1(1), of vi _ vi _ ?b] V1(2,3) obtain V2 where
    2: "rcinc_both vi vi V1 = Some V2" "vstep ?b 0 (\<lambda>v. one vi v + one vi v) V1 V2" by auto
  let ?t = "Thr__new\<lparr>viR := vi, viW := vi\<rparr>"
  let ?st = "\<lparr>hb_vts = V2, hb_thrs = [p \<mapsto> ?t], hb_sos = Map.empty\<rparr> :: hb_sync"
  have at: "vts_at V2 vi = Some [\<lparr>thr = p, tym = 1\<rparr>]" using vstep_at [OF 2(2)] V1(2) by simp
  have "bounded ?b V1" using V1(2) by (auto simp: bounded_def le_fun_def)
  from vstep_bounded [OF 2(2) this] have "bounded (own_clock ?st) V2"
    by (rule bounded_mono) (use at in \<open>auto simp: own_clock_def le_fun_def\<close>)
  moreover have "wf_ts [\<lparr>thr = p, tym = 1\<rparr>]" by (simp add: wf_ts_Cons)
  then have "thr_ok V2 p ?t" using at p vts_leq_refl by (auto simp: thr_ok_def)
  moreover have "uint (vts_rc V2 v) = one vi v + one vi v" for v using vstep_rc [OF 2(2), of v] V1(3) by simp
  ultimately have "hb_inv (\<lambda>v. 0) ?st" "room_for 10 V2"
    using vstep_inv [OF 2(2)] vstep_len [OF 2(2)] V1(4)
    by (auto simp: hb_inv_def msum_def thr_refs_def room_for_def one_def split: if_splits)
  with 1(1) 2(1) at show ?thesis by (auto simp: libhb_init_def)
qed

section \<open>Joining synchronisation objects\<close>

lemma own_clock_step:
  assumes "hb_inv E st" "vstep \<beta> n d (hb_vts st) V'" "hb_vts st' = V'" "hb_thrs st' = hb_thrs st"
  shows "own_clock st' = own_clock st"
  using hb_inv_thr [OF assms(1)] vstep_at [OF assms(2)] assms(3,4)
  by (fastforce simp: own_clock_def thr_ok_def split: option.split)

lemma so_join_spec:
  assumes inv: "hb_inv E st" and so: "hb_sos st q1 = Some s1" "hb_sos st q2 = Some s2"
    and A: "vts_at (hb_vts st) (so_viR s1) = Some A1" "vts_at (hb_vts st) (so_viW s1) = Some B1"
      "vts_at (hb_vts st) (so_viR s2) = Some A2" "vts_at (hb_vts st) (so_viW s2) = Some B2"
    and room: "room (hb_vts st)"
  shows "\<exists>st'. libhb_so_join q1 q2 st = Some st' \<and> hb_inv E st' \<and> small_step (hb_vts st) (hb_vts st')"
proof (cases "q1 = q2 \<or> so_viW s1 = so_viW s2 \<and> so_viR s1 = so_viR s2")
  case True
  with inv so hb_inv_so [OF inv so(1)] hb_inv_so [OF inv so(2)] show ?thesis
    by (auto simp: libhb_so_join_def so_ok_def)
next
  case False
  let ?V = "hb_vts st" and ?T = "own_clock st"
  note V = hb_inv_vts [OF inv] and kn = hb_inv_bounded [OF inv] and r0 = room_0 [OF room]
  have nI: "so_viR s1 \<noteq> VtsID_INVALID" "so_viR s2 \<noteq> VtsID_INVALID" using A vts_at_INVALID [OF V] by auto
  have le: "vts_leq B1 A1" "vts_leq B2 A2"
    using hb_inv_so [OF inv so(1)] hb_inv_so [OF inv so(2)] A nI by (auto simp: so_ok_def clock_ok_def)
  have wf: "wf_ts A1" "wf_ts B1" "wf_ts A2" "wf_ts B2" using vts_at_wf [OF V] A by auto
  have rc: "one (so_viR s1) v + one (so_viW s1) v \<le> uint (vts_rc ?V v)" for v
    using refs_counted(2) [OF inv so(1), of v] nI by (simp add: so_refs_def)
  have "0 < uint (vts_rc ?V (so_viW s1))"
    using rc [of "so_viW s1"] by (cases "so_viR s1 = so_viW s1") (auto simp: one_def)
  from join_into_spec [OF V A(2,4) kn r0 _ this] obtain w W V1 where
    1: "join_into (so_viW s1) (so_viW s2) ?V = Some (w, V1)" "VTS__join B1 B2 = Some W" "vts_at V1 w = Some W"
      "vstep ?T 1 (\<lambda>v. one w v - one (so_viW s1) v) ?V V1" by auto
  have r1: "room_n (0 + 1) V1" by (intro room_step [OF r0 1(4)]) (auto simp: one_def)
  have "0 < uint (vts_rc V1 (so_viR s1))"
    using vstep_rc [OF 1(4), of "so_viR s1"] rc [of "so_viR s1"] by (auto simp: one_def split: if_splits)
  from join_into_spec [OF vstep_inv [OF 1(4)] vstep_at [OF 1(4) A(1)] vstep_at [OF 1(4) A(3)]
      vstep_bounded [OF 1(4) kn] r1 _ this] obtain r R V2 where
    2: "join_into (so_viR s1) (so_viR s2) V1 = Some (r, V2)" "VTS__join A1 A2 = Some R" "vts_at V2 r = Some R"
      "vstep ?T 1 (\<lambda>v. one r v - one (so_viR s1) v) V1 V2" by auto
  let ?s = "s1\<lparr>so_viR := r, so_viW := w\<rparr>"
  let ?st = "put_so q1 ?s (st\<lparr>hb_vts := V2\<rparr>)"
  note s2 = vstep_trans [OF 1(4) 2(4)]
  have "r \<noteq> VtsID_INVALID" using 2(3) vts_at_INVALID [OF vstep_inv [OF 2(4)]] by auto
  moreover have "vts_leq W R" using vts_leq_join(1) [OF wf le 2(2) 1(2)] .
  then have "so_ok V2 ?s" using 2(3) vstep_at [OF 2(4) 1(3)] hb_inv_so [OF inv so(1)] by (auto simp: so_ok_def clock_ok_def)
  moreover have "own_clock ?st = ?T" by (rule own_clock_step [OF inv s2]) simp_all
  ultimately have "hb_inv E ?st"
    using hb_inv_basic [OF inv] so kn nI
    by (intro hb_inv_update [OF inv s2]) (auto simp: msum_upd so_refs_def split: if_splits)
  moreover have "libhb_so_join q1 q2 st = Some ?st"
    using False so hb_inv_so [OF inv so(1)] hb_inv_so [OF inv so(2)] 1(1) 2(1)
    by (auto simp: libhb_so_join_def so_ok_def)
  moreover have "small_step ?V V2" by (rule small_step_vstep [OF s2]) (auto simp: one_def)
  ultimately show ?thesis by (intro exI [of _ ?st]) simp
qed

lemma so_join_unsent:
  assumes inv: "hb_inv E st" and so: "hb_sos st q1 = Some s1" "hb_sos st q2 = Some s2" "q1 \<noteq> q2"
    and unsent: "so_viR s1 = VtsID_INVALID" and sent: "so_viR s2 \<noteq> VtsID_INVALID"
  shows "libhb_so_join q1 q2 st = None"
proof -
  note V = hb_inv_vts [OF inv]
  have w: "so_viW s1 = VtsID_INVALID"
    using hb_inv_so [OF inv so(1)] unsent vts_at_INVALID [OF V] by (auto simp: so_ok_def clock_ok_def)
  have "length (vts_tab (hb_vts st)) < 2 ^ 32" using V by (simp add: vts_inv_def)
  then have "VtsID__rcdec VtsID_INVALID (hb_vts st) = None" by (simp add: VtsID__rcdec_def index_opt_def)
  then have "join_into VtsID_INVALID y (hb_vts st) = None" for y by (simp add: join_into_def)
  with so w unsent sent show ?thesis by (auto simp: libhb_so_join_def)
qed

section \<open>Reachable states\<close>

text \<open>
  The states of the synchronisation layer that a client of the library can reach.  An operation is
  called with live objects, an allocating one gets a fresh address, and the limits of the
  machine-sized counters are not hit.
\<close>

definition ready :: "hb_sync \<Rightarrow> bool" where
  "ready st \<longleftrightarrow> room (hb_vts st) \<and> (\<forall>p. own_clock st p \<noteq> - 1)"

definition sent :: "SO \<Rightarrow> bool" where
  "sent so \<longleftrightarrow> so_viR so \<noteq> VtsID_INVALID"

inductive hb_step :: "hb_sync \<Rightarrow> hb_sync \<Rightarrow> bool" where
  step_create: "libhb_create p c st = Some st' \<Longrightarrow> hb_thrs st c = None \<Longrightarrow> c \<noteq> 0 \<Longrightarrow> hb_step st st'"
| step_opaque: "libhb_set_Thr_opaque p v st = Some st' \<Longrightarrow> hb_step st st'"
| step_so_alloc: "hb_sos st q = None \<Longrightarrow> hb_step st (libhb_so_alloc q st)"
| step_so_dealloc: "libhb_so_dealloc q st = Some st' \<Longrightarrow> hb_step st st'"
| step_so_send: "libhb_so_send p q strong st = Some st' \<Longrightarrow> hb_step st st'"
| step_so_recv: "libhb_so_recv p q strong st = Some st' \<Longrightarrow> hb_step st st'"
| step_so_join: "libhb_so_join q1 q2 st = Some st' \<Longrightarrow> hb_sos st q1 = Some s1 \<Longrightarrow> hb_sos st q2 = Some s2 \<Longrightarrow>
    sent s1 = sent s2 \<Longrightarrow> hb_step st st'"
| step_so_extract: "libhb_so_extract p q st = Some st' \<Longrightarrow> hb_sos st q = None \<Longrightarrow> hb_step st st'"

inductive hb_reach :: "hb_sync \<Rightarrow> bool" where
  reach_init: "libhb_init p = Some st \<Longrightarrow> p \<noteq> 0 \<Longrightarrow> hb_reach st"
| reach_step: "hb_reach st \<Longrightarrow> ready st \<Longrightarrow> hb_step st st' \<Longrightarrow> hb_reach st'"

inductive_cases hb_stepE: "hb_step st st'"

lemma so_sent_clocks:
  assumes "hb_inv E st" "hb_sos st q = Some s" "sent s"
  obtains A B where "vts_at (hb_vts st) (so_viR s) = Some A" "vts_at (hb_vts st) (so_viW s) = Some B"
  using hb_inv_so [OF assms(1,2)] assms(3) by (auto simp: so_ok_def clock_ok_def sent_def)

lemma so_unsent: "hb_inv E st \<Longrightarrow> hb_sos st q = Some s \<Longrightarrow> \<not> sent s \<Longrightarrow>
    so_viR s = VtsID_INVALID \<and> so_viW s = VtsID_INVALID"
  using hb_inv_so [of E st q s] vts_at_INVALID [OF hb_inv_vts [of E st]] by (auto simp: so_ok_def clock_ok_def sent_def)

lemma thr_clocks:
  assumes "hb_inv E st" "hb_thrs st p = Some t"
  obtains R W where "vts_at (hb_vts st) (viR t) = Some R" "vts_at (hb_vts st) (viW t) = Some W"
    "own_clock st p = VTS__indexAt_SLOW R p"
  using hb_inv_thr [OF assms] own_clock_thr [OF assms(2)] by (auto simp: thr_ok_def)

lemma opaque_inv:
  assumes inv: "hb_inv E st" and t: "hb_thrs st p = Some t"
  shows "hb_inv E (put_thr p (t\<lparr>opaque := v\<rparr>) st)"
proof (rule hb_inv_update [OF inv vstep_refl [OF hb_inv_vts [OF inv]] hb_inv_bounded [OF inv]])
  obtain R W where "vts_at (hb_vts st) (viR t) = Some R" "own_clock st p = VTS__indexAt_SLOW R p"
    using thr_clocks [OF assms] by metis
  then show "own_clock st \<le> own_clock (put_thr p (t\<lparr>opaque := v\<rparr>) st)"
    using own_clock_put [of st "t\<lparr>opaque := v\<rparr>" R p] by (simp add: le_fun_def)
qed (use hb_inv_basic [OF inv] hb_inv_thr [OF inv t] t in
     \<open>auto simp: msum_upd thr_ok_def thr_refs_def split: if_splits\<close>)

lemma hb_step_inv:
  assumes inv: "hb_inv E st" and rdy: "ready st" and step: "hb_step st st'"
  shows "hb_inv E st' \<and> small_step (hb_vts st) (hb_vts st')"
proof -
  from rdy have room: "room (hb_vts st)" and own: "\<And>p. own_clock st p \<noteq> - 1" by (auto simp: ready_def)
  from step show ?thesis
  proof cases
    case (step_create p c)
    then obtain t where t: "hb_thrs st p = Some t" by (auto simp: libhb_create_def bind_eq_Some_conv)
    from thr_clocks [OF inv t] obtain R W where "vts_at (hb_vts st) (viR t) = Some R" "vts_at (hb_vts st) (viW t) = Some W"
      "VTS__indexAt_SLOW R p \<noteq> - 1" using own by metis
    with create_spec [OF inv t step_create(2,3) _ _ _ room] step_create(1) show ?thesis by fastforce
  next
    case (step_opaque p v)
    then show ?thesis using opaque_inv [OF inv] by (auto simp: libhb_set_Thr_opaque_def bind_eq_Some_conv split: if_splits)
  next
    case (step_so_alloc q)
    then show ?thesis using so_alloc_inv [OF inv] by (simp add: libhb_so_alloc_def SO__Alloc_def)
  next
    case (step_so_dealloc q)
    then obtain so where "hb_sos st q = Some so" by (auto simp: libhb_so_dealloc_def bind_eq_Some_conv)
    with so_dealloc_spec [OF inv] step_so_dealloc show ?thesis by fastforce
  next
    case (step_so_send p q strong)
    then obtain t so where t: "hb_thrs st p = Some t" and so: "hb_sos st q = Some so"
      by (auto simp: libhb_so_send_def bind_eq_Some_conv)
    from thr_clocks [OF inv t] obtain R W where "vts_at (hb_vts st) (viR t) = Some R" "vts_at (hb_vts st) (viW t) = Some W"
      "VTS__indexAt_SLOW R p \<noteq> - 1" using own by metis
    from so_send_spec [OF inv t so this room, of strong] step_so_send show ?thesis by auto
  next
    case (step_so_recv p q strong)
    then obtain t so where t: "hb_thrs st p = Some t" and so: "hb_sos st q = Some so"
      by (auto simp: libhb_so_recv_def bind_eq_Some_conv)
    show ?thesis
    proof (cases "sent so")
      case True
      from so_sent_clocks [OF inv so True] thr_clocks [OF inv t] obtain A B R W where
        "vts_at (hb_vts st) (viR t) = Some R" "vts_at (hb_vts st) (viW t) = Some W"
        "vts_at (hb_vts st) (so_viR so) = Some A" "vts_at (hb_vts st) (so_viW so) = Some B" by metis
      from so_recv_spec [OF inv t so this room, of strong] step_so_recv show ?thesis by auto
    next
      case False
      with so_unsent [OF inv so] step_so_recv t so inv show ?thesis by (auto simp: libhb_so_recv_def split: if_splits)
    qed
  next
    case (step_so_join q1 q2 s1 s2)
    show ?thesis
    proof (cases "sent s1")
      case True
      from so_sent_clocks [OF inv step_so_join(2) True] so_sent_clocks [OF inv step_so_join(3)] True step_so_join(4)
      obtain A1 B1 A2 B2 where
        "vts_at (hb_vts st) (so_viR s1) = Some A1" "vts_at (hb_vts st) (so_viW s1) = Some B1"
        "vts_at (hb_vts st) (so_viR s2) = Some A2" "vts_at (hb_vts st) (so_viW s2) = Some B2" by metis
      from so_join_spec [OF inv step_so_join(2,3) this room] step_so_join(1) show ?thesis by auto
    next
      case False
      with so_unsent [OF inv step_so_join(2)] so_unsent [OF inv step_so_join(3)] step_so_join inv show ?thesis
        by (auto simp: libhb_so_join_def split: if_splits)
    qed
  next
    case (step_so_extract p q)
    then obtain t where "hb_thrs st p = Some t" by (auto simp: libhb_so_extract_def bind_eq_Some_conv)
    with so_extract_spec [OF inv _ step_so_extract(2) room] step_so_extract(1) show ?thesis by fastforce
  qed
qed

lemma hb_reach_inv: "hb_reach st \<Longrightarrow> hb_inv (\<lambda>v. 0) st"
proof (induction rule: hb_reach.induct)
  case (reach_init p st)
  with libhb_init_spec [of p] show ?case by auto
next
  case (reach_step st st')
  then show ?case using hb_step_inv by blast
qed

section \<open>Main results\<close>

lemma tick_ahead:
  assumes "wf_ts x" "p \<noteq> 0" "VTS__indexAt_SLOW x p \<noteq> - 1" "VTS__tick p x = Some x'"
    and "wf_ts y" "VTS__indexAt_SLOW y p \<le> VTS__indexAt_SLOW x p"
  shows "\<not> vts_leq x' y"
proof
  from VTS__tick_spec [OF assms(1-3)] assms(4) have x': "wf_ts x'" "VTS__indexAt_SLOW x' p = VTS__indexAt_SLOW x p + 1"
    by auto
  assume "vts_leq x' y"
  then have "VTS__indexAt_SLOW x p + 1 \<le> VTS__indexAt_SLOW y p" using x' assms(5) by (metis vts_leq_iff)
  also have "\<dots> \<le> VTS__indexAt_SLOW x p" by fact
  finally show False using incr_no_wrap [OF assms(3)] by (simp add: not_le [symmetric])
qed

text \<open>
  C4.  Every state that the synchronisation operations can reach satisfies the invariant: the
  table of timestamps is intact, the write clock of each thread is below its read clock, both agree
  on the thread's own counter, no timestamp is ahead of a thread in that thread's counter, and the
  reference count of every identifier is exactly the number of fields of threads and
  synchronisation objects that hold it.
\<close>

theorem sync_reachable_invariant:
  assumes "hb_reach st"
  shows "hb_inv (\<lambda>v. 0) st"
  using assms by (rule hb_reach_inv)

theorem sync_reachable_invariant_witness: "\<exists>st. libhb_init 8 = Some st \<and> hb_inv (\<lambda>v. 0) st"
proof -
  obtain st where st: "libhb_init 8 = Some st" using libhb_init_spec [of 8] by auto
  then have "hb_reach st" by (rule reach_init) simp
  with st sync_reachable_invariant show ?thesis by blast
qed

text \<open>
  C3.  A strong send followed by a strong receive of the same object orders the threads:
  everything the sender did before the send happens before everything the receiver does after the
  receive, for the read clock and for the write clock, while what the sender does after the send
  stays unordered with respect to the receiver.
\<close>

theorem send_recv_happens_before:
  assumes inv: "hb_inv E st" and room: "room_for 2 (hb_vts st)" and ne: "p1 \<noteq> p2"
    and t1: "hb_thrs st p1 = Some t1" and t2: "hb_thrs st p2 = Some t2" and so: "hb_sos st q = Some so"
    and RW1: "vts_at (hb_vts st) (viR t1) = Some R1" "vts_at (hb_vts st) (viW t1) = Some W1"
    and tick: "VTS__indexAt_SLOW R1 p1 \<noteq> - 1"
  shows "\<exists>st1 st2 t1' W1' t2' R2' W2'. libhb_so_send p1 q True st = Some st1 \<and> libhb_so_recv p2 q True st1 = Some st2 \<and>
     hb_inv E st2 \<and> hb_thrs st2 p1 = Some t1' \<and> hb_thrs st2 p2 = Some t2' \<and>
     vts_at (hb_vts st2) (viR t2') = Some R2' \<and> vts_at (hb_vts st2) (viW t2') = Some W2' \<and>
     vts_leq R1 R2' \<and> vts_leq W1 W2' \<and>
     vts_at (hb_vts st2) (viW t1') = Some W1' \<and> vts_leq W1 W1' \<and> \<not> vts_leq W1' R2'"
proof -
  from thr_clocks [OF inv t2] obtain R2 W2 where RW2: "vts_at (hb_vts st) (viR t2) = Some R2"
    "vts_at (hb_vts st) (viW t2) = Some W2" by metis
  have room1: "room (hb_vts st)" using room_for_room [OF room] .
  from so_send_spec [OF inv t1 so RW1 tick room1, of True] obtain st1 t1' so' Ra Wa R' W' where
    S: "libhb_so_send p1 q True st = Some st1" "hb_inv E st1" "small_step (hb_vts st) (hb_vts st1)"
      "hb_thrs st1 = (hb_thrs st)(p1 \<mapsto> t1')" "hb_sos st1 = (hb_sos st)(q \<mapsto> so')"
      "\<forall>v x. vts_at (hb_vts st) v = Some x \<longrightarrow> vts_at (hb_vts st1) v = Some x"
      "vts_at (hb_vts st1) (viW t1') = Some Wa" "VTS__tick p1 W1 = Some Wa"
      "vts_at (hb_vts st1) (so_viR so') = Some R1" "vts_at (hb_vts st1) (so_viW so') = Some W1"
    by (auto simp: send_clock_def split: option.splits)
  have t2': "hb_thrs st1 p2 = Some t2" "hb_sos st1 q = Some so'" using S(4,5) t2 ne by auto
  have r1: "room (hb_vts st1)"
    using room_for_room [OF room_for_step [of 1]] room S(3) by (simp add: numeral_2_eq_2)
  from so_recv_spec [OF S(2) t2' S(6) [rule_format, OF RW2(1)] S(6) [rule_format, OF RW2(2)] S(9,10) r1, of True]
  obtain st2 tb R2' W2' where
    T: "libhb_so_recv p2 q True st1 = Some st2" "hb_inv E st2" "hb_thrs st2 = (hb_thrs st1)(p2 \<mapsto> tb)"
      "\<forall>v x. vts_at (hb_vts st1) v = Some x \<longrightarrow> vts_at (hb_vts st2) v = Some x"
      "vts_at (hb_vts st2) (viR tb) = Some R2'" "VTS__join R2 R1 = Some R2'"
      "vts_at (hb_vts st2) (viW tb) = Some W2'" "VTS__join W2 W1 = Some W2'" by auto
  note V = hb_inv_vts [OF inv]
  have wf: "wf_ts R1" "wf_ts W1" "wf_ts R2" "wf_ts W2" using vts_at_wf [OF V] RW1 RW2 by auto
  have p1: "p1 \<noteq> 0" and own: "VTS__indexAt_SLOW W1 p1 = VTS__indexAt_SLOW R1 p1"
    using hb_inv_thr [OF inv t1] RW1 by (auto simp: thr_ok_def)
  have leq: "wf_ts R2'" "vts_leq R1 R2'" "vts_leq W1 W2'"
    using join_leq_right [OF wf(3,1) T(6)] join_leq_right [OF wf(4,2) T(8)] by auto
  have "VTS__indexAt_SLOW R2 p1 \<le> VTS__indexAt_SLOW R1 p1"
    using bounded_at [OF hb_inv_bounded [OF inv] RW2(1), of p1] own_clock_thr [OF t1 RW1(1)] by simp
  then have "VTS__indexAt_SLOW R2' p1 \<le> VTS__indexAt_SLOW W1 p1"
    using VTS__join_spec [OF wf(3,1)] T(6) own by auto
  then have "\<not> vts_leq Wa R2'" using tick_ahead [OF wf(2) p1 _ S(8) leq(1)] tick own by simp
  moreover have "vts_leq W1 Wa" using vts_leq_tick(2) [OF wf(2,2) p1 _ vts_leq_refl [OF wf(2)] S(8,8)] tick own by simp
  ultimately show ?thesis using S(1,4,7) T leq ne
    by (intro exI [of _ st1] exI [of _ st2] exI [of _ t1'] exI [of _ Wa] exI [of _ tb] exI [of _ R2'] exI [of _ W2']) simp
qed

lemma two_threads:
  "\<exists>(st :: hb_sync) t1 t2 so R1 W1. hb_inv (\<lambda>v. 0) st \<and> room_for 2 (hb_vts st) \<and> hb_thrs st 8 = Some t1 \<and> hb_thrs st 16 = Some t2 \<and>
     hb_sos st 24 = Some so \<and> \<not> sent so \<and> vts_at (hb_vts st) (viR t1) = Some R1 \<and> vts_at (hb_vts st) (viW t1) = Some W1 \<and>
     VTS__indexAt_SLOW R1 8 \<noteq> - 1"
proof -
  from libhb_init_spec [of 8] obtain st :: hb_sync and t where st: "hb_inv (\<lambda>v. 0) st" "hb_thrs st = [8 \<mapsto> t]" "hb_sos st = Map.empty"
    "vts_at (hb_vts st) (viR t) = Some [\<lparr>thr = 8, tym = 1\<rparr>]" "viW t = viR t" "room_for 10 (hb_vts st)" by auto
  from create_spec [OF st(1), of 8 t 16 "[\<lparr>thr = 8, tym = 1\<rparr>]" "[\<lparr>thr = 8, tym = 1\<rparr>]"] st room_for_room [OF st(6)]
  obtain st' :: hb_sync and tp tc Rp Wp where st': "hb_inv (\<lambda>v. 0) st'" "small_step (hb_vts st) (hb_vts st')"
    "hb_thrs st' = [8 \<mapsto> t, 16 \<mapsto> tc, 8 \<mapsto> tp]" "hb_sos st' = Map.empty"
    "vts_at (hb_vts st') (viR tp) = Some Rp" "vts_at (hb_vts st') (viW tp) = Some Wp" "VTS__tick 8 [\<lparr>thr = 8, tym = 1\<rparr>] = Some Rp"
    by auto
  have "Rp = [\<lparr>thr = 8, tym = 2\<rparr>]" using st'(7) by (simp add: VTS__tick_def)
  moreover have "room_for 9 (hb_vts st')"
    using room_for_step [of 9, OF _ st'(2)] st(6) by (simp add: eval_nat_numeral)
  then have "room_for 2 (hb_vts st')" by (simp add: room_for_def) (smt (verit))
  ultimately show ?thesis using st' so_alloc_inv [OF st'(1), of 24]
    by (intro exI [of _ "libhb_so_alloc 24 st'"]) (auto simp: libhb_so_alloc_def SO__Alloc_def sent_def)
qed

theorem send_recv_happens_before_witness:
  "\<exists>(st :: hb_sync) st1 st2. libhb_so_send 8 24 True st = Some st1 \<and> libhb_so_recv 16 24 True st1 = Some st2"
proof -
  from two_threads obtain st :: hb_sync and t1 t2 so R1 W1 where "hb_inv (\<lambda>v. 0) st" "room_for 2 (hb_vts st)" "hb_thrs st 8 = Some t1"
    "hb_thrs st 16 = Some t2" "hb_sos st 24 = Some so" "vts_at (hb_vts st) (viR t1) = Some R1"
    "vts_at (hb_vts st) (viW t1) = Some W1" "VTS__indexAt_SLOW R1 8 \<noteq> - 1" by blast
  with send_recv_happens_before [of _ st 8 16 t1 t2 24 so R1 W1] show ?thesis by fastforce
qed

text \<open>
  C24.  \<^verbatim>\<open>libhb_create\<close> passes its assertions: the child starts after everything the parent did
  before the creation, and parent and child are concurrent afterwards.
\<close>

theorem create_orders:
  assumes inv: "hb_inv E st" and t: "hb_thrs st p = Some t" and c: "hb_thrs st c = None" "c \<noteq> 0"
    and RW: "vts_at (hb_vts st) (viR t) = Some R" "vts_at (hb_vts st) (viW t) = Some W"
    and tick: "VTS__indexAt_SLOW R p \<noteq> - 1" and room: "room (hb_vts st)"
  shows "\<exists>st' tp tc Rp Wp Rc Wc. libhb_create p c st = Some st' \<and> hb_inv E st' \<and>
     hb_thrs st' p = Some tp \<and> vts_at (hb_vts st') (viR tp) = Some Rp \<and> vts_at (hb_vts st') (viW tp) = Some Wp \<and>
     hb_thrs st' c = Some tc \<and> vts_at (hb_vts st') (viR tc) = Some Rc \<and> vts_at (hb_vts st') (viW tc) = Some Wc \<and>
     vts_leq R Rc \<and> vts_leq W Wc \<and> \<not> vts_leq Wp Rc \<and> \<not> vts_leq Wc Rp"
proof -
  from create_spec [OF inv t c RW tick room] obtain st' tp tc Rp Wp Rc Wc where
    C: "libhb_create p c st = Some st'" "hb_inv E st'" "hb_thrs st' = (hb_thrs st)(c \<mapsto> tc, p \<mapsto> tp)"
      "vts_at (hb_vts st') (viR tp) = Some Rp" "VTS__tick p R = Some Rp"
      "vts_at (hb_vts st') (viW tp) = Some Wp" "VTS__tick p W = Some Wp"
      "vts_at (hb_vts st') (viR tc) = Some Rc" "VTS__tick c R = Some Rc"
      "vts_at (hb_vts st') (viW tc) = Some Wc" "VTS__tick c W = Some Wc" by blast
  note V = hb_inv_vts [OF inv]
  have pc: "p \<noteq> c" using t c by auto
  have wf: "wf_ts R" "wf_ts W" using vts_at_wf [OF V] RW by auto
  have own: "p \<noteq> 0" "VTS__indexAt_SLOW W p = VTS__indexAt_SLOW R p" "vts_leq W R"
    using hb_inv_thr [OF inv t] RW by (auto simp: thr_ok_def)
  have z: "VTS__indexAt_SLOW R c = 0" "VTS__indexAt_SLOW W c = 0"
    using bounded_at [OF hb_inv_bounded [OF inv] RW(1), of c] bounded_at [OF hb_inv_bounded [OF inv] RW(2), of c] c(1)
    by (auto simp: own_clock_def)
  have Rc: "wf_ts Rc" "VTS__indexAt_SLOW Rc p = VTS__indexAt_SLOW R p" "vts_leq R Rc"
    using VTS__tick_spec [OF wf(1) c(2)] vts_leq_tick(2) [OF wf(1,1) c(2) _ vts_leq_refl [OF wf(1)] C(9,9)] C(9) z pc by auto
  have Rp: "wf_ts Rp" "VTS__indexAt_SLOW Rp c = VTS__indexAt_SLOW R c"
    using VTS__tick_spec [OF wf(1) own(1) tick] C(5) pc by auto
  have "vts_leq W Wc" using vts_leq_tick(2) [OF wf(2,2) c(2) _ vts_leq_refl [OF wf(2)] C(11,11)] z by auto
  moreover have "\<not> vts_leq Wp Rc" using tick_ahead [OF wf(2) own(1) _ C(7) Rc(1)] tick own(2) Rc(2) by simp
  moreover have "\<not> vts_leq Wc Rp" using tick_ahead [OF wf(2) c(2) _ C(11) Rp(1)] z Rp(2) by simp
  ultimately show ?thesis using C Rc(3) pc
    by (intro exI [of _ st'] exI [of _ tp] exI [of _ tc] exI [of _ Rp] exI [of _ Wp] exI [of _ Rc] exI [of _ Wc]) simp
qed

theorem create_orders_witness:
  "\<exists>(st :: hb_sync) st'. libhb_create 8 16 st = Some st' \<and> hb_inv (\<lambda>v. 0) st'"
proof -
  from libhb_init_spec [of 8] obtain st :: hb_sync and t where st: "hb_inv (\<lambda>v. 0) st" "hb_thrs st = [8 \<mapsto> t]"
    "vts_at (hb_vts st) (viR t) = Some [\<lparr>thr = 8, tym = 1\<rparr>]" "viW t = viR t" "room_for 10 (hb_vts st)" by auto
  with create_orders [OF st(1), of 8 t 16 "[\<lparr>thr = 8, tym = 1\<rparr>]" "[\<lparr>thr = 8, tym = 1\<rparr>]"] room_for_room [OF st(5)]
  show ?thesis by auto
qed

text \<open>
  C26.  \<^verbatim>\<open>libhb_so_join\<close> into a synchronisation object that was never sent on fails an assertion:
  it drops a reference to the invalid identifier.  Its only caller joins recorded signals into an
  object it has just allocated.
\<close>

theorem so_join_into_fresh_aborts:
  assumes "hb_inv E st" "hb_sos st q1 = None" "hb_sos st q2 = Some s2" "sent s2"
  shows "libhb_so_join q1 q2 (libhb_so_alloc q1 st) = None"
  using assms so_alloc_inv [OF assms(1,2)]
  by (intro so_join_unsent [where E = E]) (auto simp: libhb_so_alloc_def SO__Alloc_def sent_def)

theorem so_join_into_fresh_aborts_witness:
  "\<exists>st :: hb_sync. libhb_so_join 32 24 (libhb_so_alloc 32 st) = None \<and> libhb_so_everSent 24 st = Some True"
proof -
  from libhb_init_spec [of 8] obtain st :: hb_sync and t where st: "hb_inv (\<lambda>v. 0) st" "hb_thrs st = [8 \<mapsto> t]" "hb_sos st = Map.empty"
    "room_for 10 (hb_vts st)" by auto
  from so_extract_spec [OF st(1), of 8 t 24] st room_for_room [OF st(4)] obtain st' :: hb_sync where
    st': "hb_inv (\<lambda>v. 0) st'" "hb_sos st' = [24 \<mapsto> \<lparr>so_viR = viR t, so_viW = viW t, so_magic = SO_MAGIC\<rparr>]" by auto
  from hb_inv_thr [OF st(1), of 8 t] st(2) vts_at_INVALID [OF hb_inv_vts [OF st(1)]]
  have "viR t \<noteq> VtsID_INVALID" "viW t \<noteq> VtsID_INVALID" by (auto simp: thr_ok_def)
  with so_join_into_fresh_aborts [OF st'(1), of 32 24] st'(2) show ?thesis
    by (intro exI [of _ st']) (simp add: libhb_so_everSent_def sent_def)
qed

lemma indexAt_join:
  assumes "wf_ts x" "wf_ts y" "VTS__join x y = Some z"
  shows "VTS__indexAt_SLOW z t = max (VTS__indexAt_SLOW x t) (VTS__indexAt_SLOW y t)"
  using VTS__join_spec [OF assms(1,2)] assms(3) by simp

text \<open>
  What a racing read leaves behind when the thread's read clock has seen a step of thread \<open>k\<close> that
  neither its write clock nor the location has seen: a constraint that is not sane.
\<close>

lemma racing_read_insane:
  assumes inv: "vts_inv V" and len: "length (vts_tab V) + 2 \<le> 2 ^ 30"
    and v: "vts_at V v = Some X" and t: "thr_rep V t R W" and race: "\<not> vts_leq X R"
    and k: "VTS__indexAt_SLOW X k < VTS__indexAt_SLOW R k" "VTS__indexAt_SLOW W k < VTS__indexAt_SLOW R k"
  shows "\<exists>r w xr xw evs V'. msm_read sc (SVal__mkC v v) p t a szB V = Some (SVal__mkC r w, evs, V') \<and>
     filter is_race evs = [RecordRace p a szB False] \<and> extends 2 V V' \<and> r < 2 ^ 30 \<and>
     vts_at V' r = Some xr \<and> vts_at V' w = Some xw \<and> \<not> vts_leq xr xw \<and> vts_leq X xr \<and> vts_leq X xw"
proof -
  have wf: "wf_ts X" "wf_ts R" "wf_ts W" using vts_at_wf [OF inv] v t by (auto simp: thr_rep_def)
  have "sval_rep V (SVal__mkC v v) {X} {X}"
    using v v lub_of_single [OF wf(1)] lub_of_single [OF wf(1)] by (rule sval_rep_mkC) (use len in simp)
  moreover have "sane {X} {X}" by (simp add: sane_def)
  ultimately obtain s evs V' where 1: "msm_read sc (SVal__mkC v v) p t a szB V = Some (s, evs, V')"
    "extends 2 V V'" "sval_rep V' s {R, X} {W, X}" "filter is_race evs = [RecordRace p a szB False]"
    using msm_read_spec [OF inv len _ t, of "SVal__mkC v v" "{X}" "{X}" p a szB sc] race
    by (auto simp: step_ok_def abs_read_def)
  then obtain r w xr xw where s: "s = SVal__mkC r w" "r < 2 ^ 30" "vts_at V' r = Some xr" "vts_at V' w = Some xw"
    "lub_of xr {R, X}" "lub_of xw {W, X}" by (auto simp: sval_rep_def)
  have xs: "wf_ts xr" "wf_ts xw" using s(5,6) by (simp_all add: lub_of_def)
  have up: "vts_leq R xr" "vts_leq X xr" "vts_leq X xw"
    using lub_of_leq [OF s(5) xs(1)] lub_of_leq [OF s(6) xs(2)] xs by (simp_all add: vts_leq_refl)
  obtain Y where Y: "VTS__join X W = Some Y" "wf_ts Y" using VTS__join_spec [OF wf(1,3)] by auto
  have "vts_leq xw Y" using join_leq_right [OF wf(1,3) Y(1)] lub_of_leq [OF s(6) Y(2)] by simp
  moreover have "VTS__indexAt_SLOW Y k < VTS__indexAt_SLOW R k" using k indexAt_join [OF wf(1,3) Y(1)] by simp
  ultimately have "VTS__indexAt_SLOW xw k < VTS__indexAt_SLOW R k"
    using xs Y(2) by (auto simp: vts_leq_iff intro: le_less_trans)
  then have "\<not> vts_leq R xw" using wf(2) xs(2) by (auto simp: vts_leq_iff not_le)
  then have "\<not> vts_leq xr xw" using vts_leq_trans [OF wf(2) xs up(1)] by blast
  with 1 s up show ?thesis by blast
qed

text \<open>
  C25.  A reader lock: thread \<open>k\<close> releases the lock (a strong send), thread \<open>p\<close> takes it for
  reading (a weak receive, which moves only its read clock) and then reads a location whose accesses
  are not ordered before it.  The race is reported; but if neither the location nor the write clock
  of \<open>p\<close> has seen the last step of \<open>k\<close>, the constraint the state machine stores is not sane, and any
  later read or write of the location by a third thread that races with its accesses fails the
  assertion on the sanity of the constraints instead of being reported.
\<close>

theorem race_under_reader_lock_aborts:
  assumes inv: "hb_inv E st" and room: "room_for 3 (hb_vts st)" and ids: "k \<noteq> p" "r \<noteq> k" "r \<noteq> p"
    and k: "hb_thrs st k = Some tk" "vts_at (hb_vts st) (viR tk) = Some Rk" "vts_at (hb_vts st) (viW tk) = Some Wk"
      "VTS__indexAt_SLOW Rk k \<noteq> - 1"
    and p: "hb_thrs st p = Some tp" "thr_rep (hb_vts st) tp R W" and u: "hb_thrs st r = Some u" "thr_rep (hb_vts st) u R2 W2"
    and q: "hb_sos st q = Some so" and v: "vts_at (hb_vts st) v = Some X"
    and race: "VTS__join R Rk = Some R'" "\<not> vts_leq X R'"
    and unseen: "VTS__indexAt_SLOW X k < VTS__indexAt_SLOW Rk k" "VTS__indexAt_SLOW W k < VTS__indexAt_SLOW Rk k"
  shows "\<exists>st1 st2 t s evs V. libhb_so_send k q True st = Some st1 \<and> libhb_so_recv p q False st1 = Some st2 \<and>
     hb_thrs st2 p = Some t \<and> hb_thrs st2 r = Some u \<and>
     msm_read sc (SVal__mkC v v) p t a szB (hb_vts st2) = Some (s, evs, V) \<and>
     filter is_race evs = [RecordRace p a szB False] \<and>
     (\<not> vts_leq X R2 \<longrightarrow> msm_read sc s r u b szB' V = None) \<and> (\<not> vts_leq X W2 \<longrightarrow> msm_write sc s r u b szB' V = None)"
proof -
  have room2: "room_for (Suc 2) (hb_vts st)" using room by (simp add: eval_nat_numeral)
  from so_send_spec [OF inv k(1) q k(2-4) room_for_room [OF room], of True] obtain st1 tk' so' A B where
    1: "libhb_so_send k q True st = Some st1" "hb_inv E st1" "small_step (hb_vts st) (hb_vts st1)"
      "hb_thrs st1 = (hb_thrs st)(k \<mapsto> tk')" "hb_sos st1 q = Some so'"
      "vts_at (hb_vts st1) (so_viR so') = Some Rk" "vts_at (hb_vts st1) (so_viW so') = Some B"
    by (auto simp: send_clock_def split: option.splits)
  note s1 = room_for_step [OF room2 1(3)]
  have p1: "hb_thrs st1 p = Some tp" "vts_at (hb_vts st1) (viR tp) = Some R" "vts_at (hb_vts st1) (viW tp) = Some W"
    using 1(3,4) p ids(1) by (simp_all add: small_step_def thr_rep_def)
  from so_recv_spec [OF 1(2) p1(1) 1(5) p1(2,3) 1(6,7) room_for_room [OF s1], of False] race(1) obtain st2 t where
    2: "libhb_so_recv p q False st1 = Some st2" "hb_inv E st2" "small_step (hb_vts st1) (hb_vts st2)"
      "hb_thrs st2 = (hb_thrs st1)(p \<mapsto> t)" "vts_at (hb_vts st2) (viR t) = Some R'" "vts_at (hb_vts st2) (viW t) = Some W" by auto
  have "opaque t = opaque tp" using 2(1,4) p1(1) 1(5) by (auto simp: libhb_so_recv_def bind_eq_Some_conv dest!: fun_cong [of _ _ p] split: if_splits)
  then have t: "thr_rep (hb_vts st2) t R' W" using 2(5,6) p(2) by (simp add: thr_rep_def)
  have s2: "room_for 1 (hb_vts st2)" using room_for_step [of 1, OF _ 2(3)] s1 by (simp add: eval_nat_numeral)
  have at2: "vts_at (hb_vts st2) x = Some y" if "vts_at (hb_vts st) x = Some y" for x y
    using 1(3) 2(3) that by (simp add: small_step_def)
  have wf: "wf_ts R" "wf_ts Rk" "wf_ts X" "wf_ts W2" "wf_ts R2"
    using vts_at_wf [OF hb_inv_vts [OF inv]] p(2) u(2) k(2) v by (auto simp: thr_rep_def)
  have "VTS__indexAt_SLOW Rk k \<le> VTS__indexAt_SLOW R' k" using indexAt_join [OF wf(1,2) race(1)] by simp
  with unseen have "VTS__indexAt_SLOW X k < VTS__indexAt_SLOW R' k" "VTS__indexAt_SLOW W k < VTS__indexAt_SLOW R' k"
    by (auto intro: less_le_trans)
  from racing_read_insane [OF hb_inv_vts [OF 2(2)] _ at2 [OF v] t race(2) this, of sc p a szB] s2
  obtain rr w xr xw evs V where 3: "msm_read sc (SVal__mkC v v) p t a szB (hb_vts st2) = Some (SVal__mkC rr w, evs, V)"
      "filter is_race evs = [RecordRace p a szB False]" "extends 2 (hb_vts st2) V" "rr < 2 ^ 30"
      "vts_at V rr = Some xr" "vts_at V w = Some xw" "\<not> vts_leq xr xw" "vts_leq X xr" "vts_leq X xw"
    by (auto simp: room_for_def)
  note V = extends_inv [OF 3(3)]
  have u': "thr_rep V u R2 W2" using u(2) extends_at [OF 3(3)] at2 by (simp add: thr_rep_def)
  have x: "wf_ts xr" "wf_ts xw" using vts_at_wf [OF V] 3(5,6) by auto
  have "\<not> vts_leq X R2 \<Longrightarrow> \<not> vts_leq xr R2" "\<not> vts_leq X W2 \<Longrightarrow> \<not> vts_leq xw W2"
    using vts_leq_trans [OF wf(3) x(1) wf(5) 3(8)] vts_leq_trans [OF wf(3) x(2) wf(4) 3(9)] by blast+
  with insane_access_aborts [OF V 3(4-7) u'] 1(1) 2(1,4) 3(1,2) 1(4) u(1) ids show ?thesis
    by (intro exI [of _ st1] exI [of _ st2] exI [of _ t] exI [of _ "SVal__mkC rr w"] exI [of _ evs] exI [of _ V]) simp
qed

lemma room_for_le: "room_for m V \<Longrightarrow> n \<le> m \<Longrightarrow> room_for n V"
  by (simp add: room_for_def) (smt (verit) of_nat_mono)

text \<open>One creation in a state whose creating thread has a single component in its clock.\<close>

lemma create_next:
  fixes st :: hb_sync
  assumes inv: "hb_inv (\<lambda>v. 0) st" and room: "room_for m (hb_vts st)" "m = Suc n" and c: "hb_thrs st c = None" "8 < c"
    and t: "hb_thrs st 8 = Some t" "vts_at (hb_vts st) (viR t) = Some [\<lparr>thr = 8, tym = i\<rparr>]"
      "vts_at (hb_vts st) (viW t) = Some [\<lparr>thr = 8, tym = i\<rparr>]" "i \<noteq> 0" "i + 1 \<noteq> 0"
  shows "\<exists>(st' :: hb_sync) tp tc. hb_inv (\<lambda>v. 0) st' \<and> room_for n (hb_vts st') \<and> small_step (hb_vts st) (hb_vts st') \<and>
     hb_thrs st' = (hb_thrs st)(c \<mapsto> tc, 8 \<mapsto> tp) \<and> hb_sos st' = hb_sos st \<and>
     vts_at (hb_vts st') (viR tp) = Some [\<lparr>thr = 8, tym = i + 1\<rparr>] \<and> vts_at (hb_vts st') (viW tp) = Some [\<lparr>thr = 8, tym = i + 1\<rparr>] \<and>
     vts_at (hb_vts st') (viR tc) = Some [\<lparr>thr = 8, tym = i\<rparr>, \<lparr>thr = c, tym = 1\<rparr>] \<and>
     vts_at (hb_vts st') (viW tc) = Some [\<lparr>thr = 8, tym = i\<rparr>, \<lparr>thr = c, tym = 1\<rparr>]"
proof -
  have i: "i \<noteq> - 1" using t(5) by auto
  have c0: "c \<noteq> 0" "c \<noteq> 8" using c(2) by auto
  have ck: "VTS__tick 8 [\<lparr>thr = 8, tym = i\<rparr>] = Some [\<lparr>thr = 8, tym = i + 1\<rparr>]"
    "VTS__tick c [\<lparr>thr = 8, tym = i\<rparr>] = Some [\<lparr>thr = 8, tym = i\<rparr>, \<lparr>thr = c, tym = 1\<rparr>]"
    using t(4,5) c(2) c0 i by (auto simp: VTS__tick_def)
  from create_spec [OF inv t(1) c(1) c0(1) t(2,3) _ room_for_room [OF room(1)]] i obtain st' :: hb_sync and tp tc where
    "hb_inv (\<lambda>v. 0) st'" "small_step (hb_vts st) (hb_vts st')" "hb_thrs st' = (hb_thrs st)(c \<mapsto> tc, 8 \<mapsto> tp)" "hb_sos st' = hb_sos st"
    "vts_at (hb_vts st') (viR tp) = Some [\<lparr>thr = 8, tym = i + 1\<rparr>]" "vts_at (hb_vts st') (viW tp) = Some [\<lparr>thr = 8, tym = i + 1\<rparr>]"
    "vts_at (hb_vts st') (viR tc) = Some [\<lparr>thr = 8, tym = i\<rparr>, \<lparr>thr = c, tym = 1\<rparr>]"
    "vts_at (hb_vts st') (viW tc) = Some [\<lparr>thr = 8, tym = i\<rparr>, \<lparr>thr = c, tym = 1\<rparr>]"
    using ck by auto
  with room_for_step [OF room(1) [unfolded room(2)], of "hb_vts st'"] show ?thesis by blast
qed

lemma four_threads:
  "\<exists>(st :: hb_sync) t8 t16 t24 t32 so. hb_inv (\<lambda>v. 0) st \<and> room_for 3 (hb_vts st) \<and> hb_sos st 40 = Some so \<and>
     hb_thrs st 8 = Some t8 \<and> vts_at (hb_vts st) (viR t8) = Some [\<lparr>thr = 8, tym = 4\<rparr>] \<and> vts_at (hb_vts st) (viW t8) = Some [\<lparr>thr = 8, tym = 4\<rparr>] \<and>
     hb_thrs st 16 = Some t16 \<and> vts_at (hb_vts st) (viW t16) = Some [\<lparr>thr = 8, tym = 1\<rparr>, \<lparr>thr = 16, tym = 1\<rparr>] \<and>
     hb_thrs st 24 = Some t24 \<and> thr_rep (hb_vts st) t24 [\<lparr>thr = 8, tym = 2\<rparr>, \<lparr>thr = 24, tym = 1\<rparr>] [\<lparr>thr = 8, tym = 2\<rparr>, \<lparr>thr = 24, tym = 1\<rparr>] \<and>
     hb_thrs st 32 = Some t32 \<and> thr_rep (hb_vts st) t32 [\<lparr>thr = 8, tym = 3\<rparr>, \<lparr>thr = 32, tym = 1\<rparr>] [\<lparr>thr = 8, tym = 3\<rparr>, \<lparr>thr = 32, tym = 1\<rparr>]"
proof -
  from libhb_init_spec [of 8] obtain st :: hb_sync and t where st: "hb_inv (\<lambda>v. 0) st" "hb_thrs st = [8 \<mapsto> t]" "hb_sos st = Map.empty"
    "vts_at (hb_vts st) (viR t) = Some [\<lparr>thr = 8, tym = 1\<rparr>]" "viW t = viR t" "room_for 10 (hb_vts st)" by auto
  have r: "room_for 6 (hb_vts st)" using st(6) by (rule room_for_le) simp
  from create_next [OF st(1) r, of 5 16 t 1] st obtain st1 :: hb_sync and t1 t16 where
    1: "hb_inv (\<lambda>v. 0) st1" "room_for 5 (hb_vts st1)" "hb_thrs st1 = [8 \<mapsto> t, 16 \<mapsto> t16, 8 \<mapsto> t1]" "hb_sos st1 = Map.empty"
      "vts_at (hb_vts st1) (viR t1) = Some [\<lparr>thr = 8, tym = 2\<rparr>]" "vts_at (hb_vts st1) (viW t1) = Some [\<lparr>thr = 8, tym = 2\<rparr>]"
      "vts_at (hb_vts st1) (viW t16) = Some [\<lparr>thr = 8, tym = 1\<rparr>, \<lparr>thr = 16, tym = 1\<rparr>]" by auto
  from create_next [OF 1(1,2), of 4 24 t1 2] 1 obtain st2 :: hb_sync and t2 t24 where
    2: "hb_inv (\<lambda>v. 0) st2" "room_for 4 (hb_vts st2)" "small_step (hb_vts st1) (hb_vts st2)"
      "hb_thrs st2 = (hb_thrs st1)(24 \<mapsto> t24, 8 \<mapsto> t2)" "hb_sos st2 = Map.empty"
      "vts_at (hb_vts st2) (viR t2) = Some [\<lparr>thr = 8, tym = 3\<rparr>]" "vts_at (hb_vts st2) (viW t2) = Some [\<lparr>thr = 8, tym = 3\<rparr>]"
      "vts_at (hb_vts st2) (viR t24) = Some [\<lparr>thr = 8, tym = 2\<rparr>, \<lparr>thr = 24, tym = 1\<rparr>]"
      "vts_at (hb_vts st2) (viW t24) = Some [\<lparr>thr = 8, tym = 2\<rparr>, \<lparr>thr = 24, tym = 1\<rparr>]" by auto
  from create_next [OF 2(1,2), of 3 32 t2 3] 1(3) 2 obtain st3 :: hb_sync and t3 t32 where
    3: "hb_inv (\<lambda>v. 0) st3" "room_for 3 (hb_vts st3)" "small_step (hb_vts st2) (hb_vts st3)"
      "hb_thrs st3 = (hb_thrs st2)(32 \<mapsto> t32, 8 \<mapsto> t3)" "hb_sos st3 = Map.empty"
      "vts_at (hb_vts st3) (viR t3) = Some [\<lparr>thr = 8, tym = 4\<rparr>]" "vts_at (hb_vts st3) (viW t3) = Some [\<lparr>thr = 8, tym = 4\<rparr>]"
      "vts_at (hb_vts st3) (viR t32) = Some [\<lparr>thr = 8, tym = 3\<rparr>, \<lparr>thr = 32, tym = 1\<rparr>]"
      "vts_at (hb_vts st3) (viW t32) = Some [\<lparr>thr = 8, tym = 3\<rparr>, \<lparr>thr = 32, tym = 1\<rparr>]" by auto
  have at: "vts_at (hb_vts st3) (viW t16) = Some [\<lparr>thr = 8, tym = 1\<rparr>, \<lparr>thr = 16, tym = 1\<rparr>]"
    "vts_at (hb_vts st3) (viR t24) = Some [\<lparr>thr = 8, tym = 2\<rparr>, \<lparr>thr = 24, tym = 1\<rparr>]"
    "vts_at (hb_vts st3) (viW t24) = Some [\<lparr>thr = 8, tym = 2\<rparr>, \<lparr>thr = 24, tym = 1\<rparr>]"
    using 1(7) 2(3,8,9) 3(3) by (simp_all add: small_step_def)
  have thrs: "hb_thrs st3 8 = Some t3" "hb_thrs st3 16 = Some t16" "hb_thrs st3 24 = Some t24" "hb_thrs st3 32 = Some t32"
    using 1(3) 2(4) 3(4) by simp_all
  let ?s = "put_thr 32 (t32\<lparr>opaque := 1\<rparr>) (put_thr 24 (t24\<lparr>opaque := 1\<rparr>) st3)"
  have s: "hb_inv (\<lambda>v. 0) ?s" by (rule opaque_inv [OF opaque_inv [OF 3(1) thrs(3)]]) (use thrs(4) in simp)
  have "hb_inv (\<lambda>v. 0) (libhb_so_alloc 40 ?s)" using so_alloc_inv [OF s, of 40] 3(5) by simp
  then show ?thesis using 3 at thrs
    by (intro exI [of _ "libhb_so_alloc 40 ?s"]) (auto simp: libhb_so_alloc_def SO__Alloc_def thr_rep_def)
qed

theorem race_under_reader_lock_aborts_witness:
  "\<exists>(st :: hb_sync) v u st1 st2 t s evs V. libhb_so_send 8 40 True st = Some st1 \<and> libhb_so_recv 24 40 False st1 = Some st2 \<and>
     hb_thrs st2 24 = Some t \<and> hb_thrs st2 32 = Some u \<and>
     msm_read False (SVal__mkC v v) 24 t 0x1000 4 (hb_vts st2) = Some (s, evs, V) \<and> filter is_race evs = [RecordRace 24 0x1000 4 False] \<and>
     msm_read False s 32 u 0x1000 4 V = None \<and> msm_write False s 32 u 0x1000 4 V = None"
proof -
  let ?X = "[\<lparr>thr = 8, tym = 1\<rparr>, \<lparr>thr = 16, tym = 1\<rparr>]" and ?R = "[\<lparr>thr = 8, tym = 2\<rparr>, \<lparr>thr = 24, tym = 1\<rparr>]"
    and ?Rk = "[\<lparr>thr = 8, tym = 4\<rparr>]" and ?R' = "[\<lparr>thr = 8, tym = 4\<rparr>, \<lparr>thr = 24, tym = 1\<rparr>]"
    and ?U = "[\<lparr>thr = 8, tym = 3\<rparr>, \<lparr>thr = 32, tym = 1\<rparr>]"
  from four_threads obtain st :: hb_sync and t8 t16 :: Thr and t24 t32 so where
    d: "hb_inv (\<lambda>v. 0) st" "room_for 3 (hb_vts st)" "hb_sos st 40 = Some so" "hb_thrs st 8 = Some t8"
      "vts_at (hb_vts st) (viR t8) = Some ?Rk" "vts_at (hb_vts st) (viW t8) = Some ?Rk" "vts_at (hb_vts st) (viW t16) = Some ?X"
      "hb_thrs st 24 = Some t24" "thr_rep (hb_vts st) t24 ?R ?R" "hb_thrs st 32 = Some t32" "thr_rep (hb_vts st) t32 ?U ?U" by blast
  have c: "VTS__join ?R ?Rk = Some ?R'" "\<not> vts_leq ?X ?R'" "\<not> vts_leq ?X ?U"
    by (simp_all add: VTS__join_def join_emit_def vts_leq_def VTS__cmp_def)
  have i: "VTS__indexAt_SLOW ?Rk 8 \<noteq> - 1" "VTS__indexAt_SLOW ?X 8 < VTS__indexAt_SLOW ?Rk 8" "VTS__indexAt_SLOW ?R 8 < VTS__indexAt_SLOW ?Rk 8"
    "(8 :: Thr_ptr) \<noteq> 24" "(32 :: Thr_ptr) \<noteq> 8" "(32 :: Thr_ptr) \<noteq> 24"
    by simp_all
  note F = race_under_reader_lock_aborts [OF d(1,2) i(4-6) d(4-6) i(1) d(8-11) d(3,7) c(1,2) i(2,3), of False "0x1000" 4 "0x1000" 4]
  show ?thesis using F c(3) by - (rule exI [of _ st], rule exI [of _ "viW t16"], rule exI [of _ t32], blast)
qed

end
