(* ===== verification/ShadowTree.thy ===== *)
theory ShadowTree
  imports SVal
begin

text \<open>
  The trees of a cache line of the shadow memory (\<^verbatim>\<open>helgrind/libhb_core.c\<close>, section "CacheLine and
  implicit-tree related").  Eight shadow values stand for eight bytes; a 15-bit descriptor says
  which nodes of the implicit tree (one of 64 bits, two of 32, four of 16, eight of 8) are in use.  A
  node keeps its value in the slot of its first byte, the slots of its other bytes hold
  \<^verbatim>\<open>SVal_INVALID\<close>.

  The abstraction of a tree is the list of the values of its eight bytes.
\<close>

section \<open>Descriptors\<close>

definition TREE_DESCR_16_0 :: UShort where "TREE_DESCR_16_0 = push_bit 0 1"
definition TREE_DESCR_32_0 :: UShort where "TREE_DESCR_32_0 = push_bit 1 1"
definition TREE_DESCR_16_1 :: UShort where "TREE_DESCR_16_1 = push_bit 2 1"
definition TREE_DESCR_64 :: UShort where "TREE_DESCR_64 = push_bit 3 1"
definition TREE_DESCR_16_2 :: UShort where "TREE_DESCR_16_2 = push_bit 4 1"
definition TREE_DESCR_32_1 :: UShort where "TREE_DESCR_32_1 = push_bit 5 1"
definition TREE_DESCR_16_3 :: UShort where "TREE_DESCR_16_3 = push_bit 6 1"
definition TREE_DESCR_8_0 :: UShort where "TREE_DESCR_8_0 = push_bit 7 1"
definition TREE_DESCR_8_1 :: UShort where "TREE_DESCR_8_1 = push_bit 8 1"
definition TREE_DESCR_8_2 :: UShort where "TREE_DESCR_8_2 = push_bit 9 1"
definition TREE_DESCR_8_3 :: UShort where "TREE_DESCR_8_3 = push_bit 10 1"
definition TREE_DESCR_8_4 :: UShort where "TREE_DESCR_8_4 = push_bit 11 1"
definition TREE_DESCR_8_5 :: UShort where "TREE_DESCR_8_5 = push_bit 12 1"
definition TREE_DESCR_8_6 :: UShort where "TREE_DESCR_8_6 = push_bit 13 1"
definition TREE_DESCR_8_7 :: UShort where "TREE_DESCR_8_7 = push_bit 14 1"

lemmas TREE_DESCR_defs =
  TREE_DESCR_16_0_def TREE_DESCR_32_0_def TREE_DESCR_16_1_def TREE_DESCR_64_def TREE_DESCR_16_2_def
  TREE_DESCR_32_1_def TREE_DESCR_16_3_def TREE_DESCR_8_0_def TREE_DESCR_8_1_def TREE_DESCR_8_2_def
  TREE_DESCR_8_3_def TREE_DESCR_8_4_def TREE_DESCR_8_5_def TREE_DESCR_8_6_def TREE_DESCR_8_7_def

definition DESCR :: "UShort \<Rightarrow> UShort \<Rightarrow> UShort \<Rightarrow> UShort \<Rightarrow> UShort \<Rightarrow> UShort \<Rightarrow> UShort \<Rightarrow> UShort \<Rightarrow>
  UShort \<Rightarrow> UShort \<Rightarrow> UShort \<Rightarrow> UShort \<Rightarrow> UShort \<Rightarrow> UShort \<Rightarrow> UShort \<Rightarrow> UShort" where
  "DESCR b8_7 b8_6 b8_5 b8_4 b8_3 b8_2 b8_1 b8_0 b16_3 b32_1 b16_2 b64 b16_1 b32_0 b16_0 =
     push_bit 14 b8_7 OR push_bit 13 b8_6 OR push_bit 12 b8_5 OR push_bit 11 b8_4 OR
     push_bit 10 b8_3 OR push_bit 9 b8_2 OR push_bit 8 b8_1 OR push_bit 7 b8_0 OR
     push_bit 6 b16_3 OR push_bit 5 b32_1 OR push_bit 4 b16_2 OR push_bit 3 b64 OR
     push_bit 2 b16_1 OR push_bit 1 b32_0 OR push_bit 0 b16_0"

definition BYTE :: "UChar \<Rightarrow> UChar \<Rightarrow> UChar \<Rightarrow> UChar \<Rightarrow> UChar \<Rightarrow> UChar \<Rightarrow> UChar \<Rightarrow> UChar \<Rightarrow> UChar" where
  "BYTE bit7 bit6 bit5 bit4 bit3 bit2 bit1 bit0 =
     push_bit 7 bit7 OR push_bit 6 bit6 OR push_bit 5 bit5 OR push_bit 4 bit4 OR
     push_bit 3 bit3 OR push_bit 2 bit2 OR push_bit 1 bit1 OR push_bit 0 bit0"

text \<open>The cases of the switch, in the order of the source.\<close>

definition descr_cases :: "(UShort \<times> UChar) list" where
  "descr_cases =
     [(DESCR 1 1 1 1 1 1 1 1 0 0 0 0 0 0 0, BYTE 1 1 1 1 1 1 1 1),
      (DESCR 1 1 0 0 1 1 1 1 0 0 1 0 0 0 0, BYTE 1 1 0 1 1 1 1 1),
      (DESCR 0 0 1 1 1 1 1 1 1 0 0 0 0 0 0, BYTE 0 1 1 1 1 1 1 1),
      (DESCR 0 0 0 0 1 1 1 1 1 0 1 0 0 0 0, BYTE 0 1 0 1 1 1 1 1),
      (DESCR 1 1 1 1 1 1 0 0 0 0 0 0 0 0 1, BYTE 1 1 1 1 1 1 0 1),
      (DESCR 1 1 0 0 1 1 0 0 0 0 1 0 0 0 1, BYTE 1 1 0 1 1 1 0 1),
      (DESCR 0 0 1 1 1 1 0 0 1 0 0 0 0 0 1, BYTE 0 1 1 1 1 1 0 1),
      (DESCR 0 0 0 0 1 1 0 0 1 0 1 0 0 0 1, BYTE 0 1 0 1 1 1 0 1),
      (DESCR 1 1 1 1 0 0 1 1 0 0 0 0 1 0 0, BYTE 1 1 1 1 0 1 1 1),
      (DESCR 1 1 0 0 0 0 1 1 0 0 1 0 1 0 0, BYTE 1 1 0 1 0 1 1 1),
      (DESCR 0 0 1 1 0 0 1 1 1 0 0 0 1 0 0, BYTE 0 1 1 1 0 1 1 1),
      (DESCR 0 0 0 0 0 0 1 1 1 0 1 0 1 0 0, BYTE 0 1 0 1 0 1 1 1),
      (DESCR 1 1 1 1 0 0 0 0 0 0 0 0 1 0 1, BYTE 1 1 1 1 0 1 0 1),
      (DESCR 1 1 0 0 0 0 0 0 0 0 1 0 1 0 1, BYTE 1 1 0 1 0 1 0 1),
      (DESCR 0 0 1 1 0 0 0 0 1 0 0 0 1 0 1, BYTE 0 1 1 1 0 1 0 1),
      (DESCR 0 0 0 0 0 0 0 0 1 0 1 0 1 0 1, BYTE 0 1 0 1 0 1 0 1),
      (DESCR 0 0 0 0 1 1 1 1 0 1 0 0 0 0 0, BYTE 0 0 0 1 1 1 1 1),
      (DESCR 0 0 0 0 1 1 0 0 0 1 0 0 0 0 1, BYTE 0 0 0 1 1 1 0 1),
      (DESCR 0 0 0 0 0 0 1 1 0 1 0 0 1 0 0, BYTE 0 0 0 1 0 1 1 1),
      (DESCR 0 0 0 0 0 0 0 0 0 1 0 0 1 0 1, BYTE 0 0 0 1 0 1 0 1),
      (DESCR 1 1 1 1 0 0 0 0 0 0 0 0 0 1 0, BYTE 1 1 1 1 0 0 0 1),
      (DESCR 1 1 0 0 0 0 0 0 0 0 1 0 0 1 0, BYTE 1 1 0 1 0 0 0 1),
      (DESCR 0 0 1 1 0 0 0 0 1 0 0 0 0 1 0, BYTE 0 1 1 1 0 0 0 1),
      (DESCR 0 0 0 0 0 0 0 0 1 0 1 0 0 1 0, BYTE 0 1 0 1 0 0 0 1),
      (DESCR 0 0 0 0 0 0 0 0 0 1 0 0 0 1 0, BYTE 0 0 0 1 0 0 0 1),
      (DESCR 0 0 0 0 0 0 0 0 0 0 0 1 0 0 0, BYTE 0 0 0 0 0 0 0 1)]"

definition descr_to_validbits :: "UShort \<Rightarrow> UChar" where
  "descr_to_validbits descr =
     (case map_of descr_cases descr of Some byte \<Rightarrow> byte | None \<Rightarrow> BYTE 0 0 0 0 0 0 0 0)"

definition is_sane_Descr :: "UShort \<Rightarrow> bool" where
  "is_sane_Descr descr \<longleftrightarrow> descr_to_validbits descr \<noteq> 0"

definition is_sane_Descr_and_Tree :: "UShort \<Rightarrow> SVal list \<Rightarrow> bool" where
  "is_sane_Descr_and_Tree descr tree \<longleftrightarrow>
     (let validbits = descr_to_validbits descr in
      validbits \<noteq> 0 \<and>
      list_all (\<lambda>i. if validbits AND push_bit i 1 \<noteq> 0 then tree ! i \<noteq> SVal_INVALID
                    else tree ! i = SVal_INVALID) [0..<8])"

section \<open>Building and splitting trees\<close>

text \<open>
  The steps of \<^verbatim>\<open>normalise_tree\<close>: merging two equal leaves \<open>lo\<close> and \<open>hi\<close> into a 16-bit node, and merging
  two equal complete nodes into their parent.
\<close>

definition merge_leaves :: "nat \<Rightarrow> nat \<Rightarrow> UShort \<Rightarrow> UShort \<Rightarrow> UShort \<Rightarrow> UShort \<times> SVal list \<Rightarrow> UShort \<times> SVal list" where
  "merge_leaves lo hi d_lo d_hi d_parent dt =
     (case dt of (descr, tree) \<Rightarrow>
        if tree ! hi = tree ! lo
        then ((descr AND NOT (d_hi OR d_lo)) OR d_parent, tree[hi := SVal_INVALID])
        else (descr, tree))"

definition merge_nodes :: "nat \<Rightarrow> nat \<Rightarrow> UShort \<Rightarrow> UShort \<Rightarrow> UShort \<Rightarrow> UShort \<times> SVal list \<Rightarrow> UShort \<times> SVal list" where
  "merge_nodes lo hi d_lo d_hi d_parent dt =
     (case dt of (descr, tree) \<Rightarrow>
        if tree ! hi = tree ! lo \<and> descr AND d_hi \<noteq> 0 \<and> descr AND d_lo \<noteq> 0
        then ((descr AND NOT (d_hi OR d_lo)) OR d_parent, tree[hi := SVal_INVALID])
        else (descr, tree))"

definition normalise_tree :: "SVal list \<Rightarrow> (UShort \<times> SVal list) option" where
  "normalise_tree tree =
     do {
       tl_assert (\<not> (tree ! 7 = SVal_INVALID \<or> tree ! 6 = SVal_INVALID \<or> tree ! 5 = SVal_INVALID \<or>
                     tree ! 4 = SVal_INVALID \<or> tree ! 3 = SVal_INVALID \<or> tree ! 2 = SVal_INVALID \<or>
                     tree ! 1 = SVal_INVALID \<or> tree ! 0 = SVal_INVALID));
       let descr = TREE_DESCR_8_7 OR TREE_DESCR_8_6 OR TREE_DESCR_8_5 OR TREE_DESCR_8_4 OR
                   TREE_DESCR_8_3 OR TREE_DESCR_8_2 OR TREE_DESCR_8_1 OR TREE_DESCR_8_0;
       let dt = (descr, tree);
       let dt = merge_leaves 0 1 TREE_DESCR_8_0 TREE_DESCR_8_1 TREE_DESCR_16_0 dt;
       let dt = merge_leaves 2 3 TREE_DESCR_8_2 TREE_DESCR_8_3 TREE_DESCR_16_1 dt;
       let dt = merge_leaves 4 5 TREE_DESCR_8_4 TREE_DESCR_8_5 TREE_DESCR_16_2 dt;
       let dt = merge_leaves 6 7 TREE_DESCR_8_6 TREE_DESCR_8_7 TREE_DESCR_16_3 dt;
       let dt = merge_nodes 0 2 TREE_DESCR_16_0 TREE_DESCR_16_1 TREE_DESCR_32_0 dt;
       let dt = merge_nodes 4 6 TREE_DESCR_16_2 TREE_DESCR_16_3 TREE_DESCR_32_1 dt;
       Some (merge_nodes 0 4 TREE_DESCR_32_0 TREE_DESCR_32_1 TREE_DESCR_64 dt)
     }"

definition pulldown_to_32 :: "SVal list \<Rightarrow> nat \<Rightarrow> UShort \<Rightarrow> (UShort \<times> SVal list) option" where
  "pulldown_to_32 tree toff descr =
     (if toff = 0 \<or> toff = 4 then
        do {
          tl_assert (descr AND TREE_DESCR_64 \<noteq> 0);
          Some ((descr AND NOT TREE_DESCR_64) OR (TREE_DESCR_32_1 OR TREE_DESCR_32_0), tree[4 := tree ! 0])
        }
      else None)"

definition pulldown_to_16 :: "SVal list \<Rightarrow> nat \<Rightarrow> UShort \<Rightarrow> (UShort \<times> SVal list) option" where
  "pulldown_to_16 tree toff descr =
     (if toff = 0 \<or> toff = 2 then
        do {
          (descr, tree) \<leftarrow> (if descr AND TREE_DESCR_32_0 = 0 then pulldown_to_32 tree 0 descr else Some (descr, tree));
          tl_assert (descr AND TREE_DESCR_32_0 \<noteq> 0);
          Some ((descr AND NOT TREE_DESCR_32_0) OR (TREE_DESCR_16_1 OR TREE_DESCR_16_0), tree[2 := tree ! 0])
        }
      else if toff = 4 \<or> toff = 6 then
        do {
          (descr, tree) \<leftarrow> (if descr AND TREE_DESCR_32_1 = 0 then pulldown_to_32 tree 4 descr else Some (descr, tree));
          tl_assert (descr AND TREE_DESCR_32_1 \<noteq> 0);
          Some ((descr AND NOT TREE_DESCR_32_1) OR (TREE_DESCR_16_3 OR TREE_DESCR_16_2), tree[6 := tree ! 4])
        }
      else None)"

text \<open>One case of \<^verbatim>\<open>pulldown_to_8\<close>: splitting the 16-bit node \<open>d16\<close> at \<open>base\<close>.\<close>

definition pulldown_16_8 ::
  "nat \<Rightarrow> UShort \<Rightarrow> UShort \<Rightarrow> UShort \<Rightarrow> SVal list \<Rightarrow> UShort \<Rightarrow> (UShort \<times> SVal list) option" where
  "pulldown_16_8 base d16 d_lo d_hi tree descr =
     do {
       (descr, tree) \<leftarrow> (if descr AND d16 = 0 then pulldown_to_16 tree base descr else Some (descr, tree));
       tl_assert (descr AND d16 \<noteq> 0);
       Some ((descr AND NOT d16) OR (d_hi OR d_lo), tree[base + 1 := tree ! base])
     }"

definition pulldown_to_8 :: "SVal list \<Rightarrow> nat \<Rightarrow> UShort \<Rightarrow> (UShort \<times> SVal list) option" where
  "pulldown_to_8 tree toff descr =
     (if toff = 0 \<or> toff = 1 then pulldown_16_8 0 TREE_DESCR_16_0 TREE_DESCR_8_0 TREE_DESCR_8_1 tree descr
      else if toff = 2 \<or> toff = 3 then pulldown_16_8 2 TREE_DESCR_16_1 TREE_DESCR_8_2 TREE_DESCR_8_3 tree descr
      else if toff = 4 \<or> toff = 5 then pulldown_16_8 4 TREE_DESCR_16_2 TREE_DESCR_8_4 TREE_DESCR_8_5 tree descr
      else if toff = 6 \<or> toff = 7 then pulldown_16_8 6 TREE_DESCR_16_3 TREE_DESCR_8_6 TREE_DESCR_8_7 tree descr
      else None)"

text \<open>The common body of the cases of the two functions that follow: replacing the children by their parent.\<close>

definition pullup_mask :: "UShort \<Rightarrow> UShort \<Rightarrow> UShort \<Rightarrow> UShort option" where
  "pullup_mask msk d_parent descr =
     do { tl_assert (descr AND msk = msk); Some ((descr AND NOT msk) OR d_parent) }"

definition pullup_descr_to_16 :: "UShort \<Rightarrow> nat \<Rightarrow> UShort option" where
  "pullup_descr_to_16 descr toff =
     (if toff = 0 then pullup_mask (TREE_DESCR_8_1 OR TREE_DESCR_8_0) TREE_DESCR_16_0 descr
      else if toff = 2 then pullup_mask (TREE_DESCR_8_3 OR TREE_DESCR_8_2) TREE_DESCR_16_1 descr
      else if toff = 4 then pullup_mask (TREE_DESCR_8_5 OR TREE_DESCR_8_4) TREE_DESCR_16_2 descr
      else if toff = 6 then pullup_mask (TREE_DESCR_8_7 OR TREE_DESCR_8_6) TREE_DESCR_16_3 descr
      else None)"

definition pullup_descr_to_32 :: "UShort \<Rightarrow> nat \<Rightarrow> UShort option" where
  "pullup_descr_to_32 descr toff =
     (if toff = 0 then
        do {
          descr \<leftarrow> (if descr AND TREE_DESCR_16_0 = 0 then pullup_descr_to_16 descr 0 else Some descr);
          descr \<leftarrow> (if descr AND TREE_DESCR_16_1 = 0 then pullup_descr_to_16 descr 2 else Some descr);
          pullup_mask (TREE_DESCR_16_1 OR TREE_DESCR_16_0) TREE_DESCR_32_0 descr
        }
      else if toff = 4 then
        do {
          descr \<leftarrow> (if descr AND TREE_DESCR_16_2 = 0 then pullup_descr_to_16 descr 4 else Some descr);
          descr \<leftarrow> (if descr AND TREE_DESCR_16_3 = 0 then pullup_descr_to_16 descr 6 else Some descr);
          pullup_mask (TREE_DESCR_16_3 OR TREE_DESCR_16_2) TREE_DESCR_32_1 descr
        }
      else None)"

definition valid_value_is_above_me_32 :: "UShort \<Rightarrow> nat \<Rightarrow> bool option" where
  "valid_value_is_above_me_32 descr toff =
     (if toff = 0 \<or> toff = 4 then Some (descr AND TREE_DESCR_64 \<noteq> 0) else None)"

definition valid_value_is_below_me_16 :: "UShort \<Rightarrow> nat \<Rightarrow> bool option" where
  "valid_value_is_below_me_16 descr toff =
     (if toff = 0 then Some (descr AND (TREE_DESCR_8_1 OR TREE_DESCR_8_0) \<noteq> 0)
      else if toff = 2 then Some (descr AND (TREE_DESCR_8_3 OR TREE_DESCR_8_2) \<noteq> 0)
      else if toff = 4 then Some (descr AND (TREE_DESCR_8_5 OR TREE_DESCR_8_4) \<noteq> 0)
      else if toff = 6 then Some (descr AND (TREE_DESCR_8_7 OR TREE_DESCR_8_6) \<noteq> 0)
      else None)"

text \<open>The body of the loop of \<^verbatim>\<open>sequentialise_CacheLine\<close>: the counted values of one tree.\<close>

type_synonym CountedSVal = "nat \<times> SVal"

definition sequentialise_tree :: "UShort \<Rightarrow> SVal list \<Rightarrow> CountedSVal list" where
  "sequentialise_tree descr tree =
     (if descr AND TREE_DESCR_64 \<noteq> 0 then [(8, tree ! 0)]
      else if descr AND TREE_DESCR_32_0 \<noteq> 0 then [(4, tree ! 0)]
      else if descr AND TREE_DESCR_16_0 \<noteq> 0 then [(2, tree ! 0)]
      else if descr AND TREE_DESCR_8_0 \<noteq> 0 then [(1, tree ! 0)] else []) @
     (if descr AND TREE_DESCR_8_1 \<noteq> 0 then [(1, tree ! 1)] else []) @
     (if descr AND TREE_DESCR_16_1 \<noteq> 0 then [(2, tree ! 2)]
      else if descr AND TREE_DESCR_8_2 \<noteq> 0 then [(1, tree ! 2)] else []) @
     (if descr AND TREE_DESCR_8_3 \<noteq> 0 then [(1, tree ! 3)] else []) @
     (if descr AND TREE_DESCR_32_1 \<noteq> 0 then [(4, tree ! 4)]
      else if descr AND TREE_DESCR_16_2 \<noteq> 0 then [(2, tree ! 4)]
      else if descr AND TREE_DESCR_8_4 \<noteq> 0 then [(1, tree ! 4)] else []) @
     (if descr AND TREE_DESCR_8_5 \<noteq> 0 then [(1, tree ! 5)] else []) @
     (if descr AND TREE_DESCR_16_3 \<noteq> 0 then [(2, tree ! 6)]
      else if descr AND TREE_DESCR_8_6 \<noteq> 0 then [(1, tree ! 6)] else []) @
     (if descr AND TREE_DESCR_8_7 \<noteq> 0 then [(1, tree ! 7)] else [])"

section \<open>The bytes of a tree\<close>

fun spread :: "SVal \<Rightarrow> SVal list \<Rightarrow> SVal list" where
  "spread p [] = []"
| "spread p (x # xs) = (if x = SVal_INVALID then p # spread p xs else x # spread x xs)"

abbreviation tree_bytes :: "SVal list \<Rightarrow> SVal list" where
  "tree_bytes \<equiv> spread SVal_INVALID"

definition expand :: "CountedSVal list \<Rightarrow> SVal list" where
  "expand cs = concat (map (\<lambda>(n, s). replicate n s) cs)"

lemma descr_cases_eq:
  "descr_cases =
     [(0x7f80, 0xff), (0x6790, 0xdf), (0x1fc0, 0x7f), (0x7d0, 0x5f), (0x7e01, 0xfd), (0x6611, 0xdd), (0x1e41, 0x7d), (0x651, 0x5d), (0x7984, 0xf7), (0x6194, 0xd7), (0x19c4, 0x77), (0x1d4, 0x57), (0x7805, 0xf5), (0x6015, 0xd5), (0x1845, 0x75), (0x55, 0x55), (0x7a0, 0x1f), (0x621, 0x1d), (0x1a4, 0x17), (0x25, 0x15), (0x7802, 0xf1), (0x6012, 0xd1), (0x1842, 0x71), (0x52, 0x51), (0x22, 0x11), (0x8, 0x1)]"
  by (simp add: descr_cases_def DESCR_def BYTE_def)

lemma BYTE_0: "BYTE 0 0 0 0 0 0 0 0 = 0"
  by (simp add: BYTE_def)

lemma validbits_tab:
  "descr_to_validbits 0x7f80 = 0xff" "descr_to_validbits 0x6790 = 0xdf" "descr_to_validbits 0x1fc0 = 0x7f"
  "descr_to_validbits 0x7d0 = 0x5f" "descr_to_validbits 0x7e01 = 0xfd" "descr_to_validbits 0x6611 = 0xdd"
  "descr_to_validbits 0x1e41 = 0x7d" "descr_to_validbits 0x651 = 0x5d" "descr_to_validbits 0x7984 = 0xf7"
  "descr_to_validbits 0x6194 = 0xd7" "descr_to_validbits 0x19c4 = 0x77" "descr_to_validbits 0x1d4 = 0x57"
  "descr_to_validbits 0x7805 = 0xf5" "descr_to_validbits 0x6015 = 0xd5" "descr_to_validbits 0x1845 = 0x75"
  "descr_to_validbits 0x55 = 0x55" "descr_to_validbits 0x7a0 = 0x1f" "descr_to_validbits 0x621 = 0x1d"
  "descr_to_validbits 0x1a4 = 0x17" "descr_to_validbits 0x25 = 0x15" "descr_to_validbits 0x7802 = 0xf1"
  "descr_to_validbits 0x6012 = 0xd1" "descr_to_validbits 0x1842 = 0x71" "descr_to_validbits 0x52 = 0x51"
  "descr_to_validbits 0x22 = 0x11" "descr_to_validbits 0x8 = 0x1"
  by (simp_all add: descr_to_validbits_def descr_cases_eq)

lemmas descr_simps = descr_cases_eq validbits_tab TREE_DESCR_defs

lemma sane_descr:
  "descr_to_validbits d \<noteq> 0 \<Longrightarrow> d \<in> set (map fst descr_cases)"
  by (auto simp: descr_to_validbits_def BYTE_0 split: option.splits dest: map_of_SomeD) (metis fst_conv image_eqI map_of_SomeD)

text \<open>Whether slot \<open>i\<close> holds a value, by the descriptor.\<close>

definition vb :: "UShort \<Rightarrow> nat \<Rightarrow> bool" where
  "vb d i \<longleftrightarrow> descr_to_validbits d AND push_bit i 1 \<noteq> 0"

lemma vb_0: "descr_to_validbits d \<noteq> 0 \<Longrightarrow> vb d 0"
proof -
  have "list_all (\<lambda>d. vb d 0) (map fst descr_cases)" by (simp add: vb_def descr_simps)
  then show "descr_to_validbits d \<noteq> 0 \<Longrightarrow> vb d 0" using sane_descr by (auto simp: list_all_iff)
qed

lemma sane_iff:
  "is_sane_Descr_and_Tree d t \<longleftrightarrow> descr_to_validbits d \<noteq> 0 \<and> (\<forall>i<8. t ! i \<noteq> SVal_INVALID \<longleftrightarrow> vb d i)"
  by (auto simp: is_sane_Descr_and_Tree_def vb_def Let_def list_all_iff)

text \<open>A property of descriptors that holds in each of the cases of the switch.\<close>

lemma by_cases_of_descr:
  "is_sane_Descr_and_Tree d t \<Longrightarrow> list_all P (map fst descr_cases) \<Longrightarrow> P d"
  using sane_descr by (auto simp: sane_iff list_all_iff)

lemma length_spread [simp]: "length (spread p t) = length t"
  by (induction t arbitrary: p) auto

text \<open>Slot \<open>j\<close> holds the value of byte \<open>i\<close>.\<close>

definition governs :: "SVal list \<Rightarrow> nat \<Rightarrow> nat \<Rightarrow> bool" where
  "governs t j i \<longleftrightarrow> j \<le> i \<and> t ! j \<noteq> SVal_INVALID \<and> (\<forall>k. j < k \<and> k \<le> i \<longrightarrow> t ! k = SVal_INVALID)"

lemma spread_run: "\<forall>k\<le>i. t ! k = SVal_INVALID \<Longrightarrow> i < length t \<Longrightarrow> spread p t ! i = p"
proof (induction t arbitrary: i p)
  case (Cons x xs)
  from Cons.prems(1) have "x = SVal_INVALID" by force
  moreover have "\<forall>k\<le>i'. xs ! k = SVal_INVALID" if "i = Suc i'" for i' using Cons.prems(1) that by force
  ultimately show ?case using Cons by (cases i) auto
qed simp

lemma spread_governs: "governs t j i \<Longrightarrow> i < length t \<Longrightarrow> spread p t ! i = t ! j"
proof (induction t arbitrary: i j p)
  case (Cons x xs)
  show ?case
  proof (cases j)
    case 0
    with Cons.prems have x: "x \<noteq> SVal_INVALID" by (auto simp: governs_def)
    show ?thesis
    proof (cases i)
      case (Suc i')
      have "\<forall>k\<le>i'. xs ! k = SVal_INVALID" using Cons.prems(1) Suc 0 by (force simp: governs_def)
      then show ?thesis using spread_run [of i' xs x] Suc 0 x Cons.prems(2) by simp
    qed (use x 0 in simp)
  next
    case (Suc j')
    with Cons.prems(1) obtain i' where i: "i = Suc i'" by (cases i) (auto simp: governs_def)
    with Cons.prems(1) Suc have "governs xs j' i'" by (force simp: governs_def)
    from Cons.IH [OF this] show ?thesis using i Suc Cons.prems(2) by simp
  qed
qed simp

lemma governs_ex: "t ! 0 \<noteq> SVal_INVALID \<Longrightarrow> \<exists>j. governs t j i"
proof (induction i)
  case (Suc i)
  then show ?case
    by (cases "t ! Suc i = SVal_INVALID") (auto simp: governs_def le_Suc_eq)
qed (auto simp: governs_def)

text \<open>Copying the value of a byte into its own empty slot changes no byte.\<close>

definition copy_ok :: "UShort \<Rightarrow> UShort \<Rightarrow> nat \<Rightarrow> nat \<Rightarrow> bool" where
  "copy_ok d d' src dst \<longleftrightarrow> src < dst \<and> dst < 8 \<and> descr_to_validbits d' \<noteq> 0 \<and>
     list_all (\<lambda>i. vb d' i \<longleftrightarrow> vb d i \<or> i = dst) [0..<8] \<and>
     vb d src \<and> list_all (\<lambda>i. src < i \<and> i \<le> dst \<longrightarrow> \<not> vb d i) [0..<8]"

lemma copy_node:
  assumes s: "is_sane_Descr_and_Tree d t" "length t = 8" and c: "copy_ok d d' src dst"
  shows "is_sane_Descr_and_Tree d' (t[dst := t ! src])" "tree_bytes (t[dst := t ! src]) = tree_bytes t"
proof -
  let ?t = "t[dst := t ! src]"
  have v: "\<And>i. i < 8 \<Longrightarrow> t ! i \<noteq> SVal_INVALID \<longleftrightarrow> vb d i" using s(1) by (simp add: sane_iff)
  from c have k: "src < dst" "dst < 8" "vb d src" "\<And>i. i < 8 \<Longrightarrow> src < i \<and> i \<le> dst \<longrightarrow> \<not> vb d i"
    "\<And>i. i < 8 \<Longrightarrow> vb d' i \<longleftrightarrow> vb d i \<or> i = dst" "descr_to_validbits d' \<noteq> 0"
    by (simp_all add: copy_ok_def list_all_iff)
  have src: "src < dst" "dst < 8" "t ! src \<noteq> SVal_INVALID" "\<And>i. src < i \<Longrightarrow> i \<le> dst \<Longrightarrow> t ! i = SVal_INVALID"
    "\<And>i. i < 8 \<Longrightarrow> vb d' i \<longleftrightarrow> vb d i \<or> i = dst" "descr_to_validbits d' \<noteq> 0"
    using k v by (auto intro: less_trans) (metis (no_types, lifting) k(2,4) le_less_trans)
  show "is_sane_Descr_and_Tree d' ?t"
    using s src by (auto simp: sane_iff nth_list_update)
  show "tree_bytes ?t = tree_bytes t"
  proof (rule nth_equalityI)
    fix i assume "i < length (tree_bytes ?t)"
    then have i: "i < 8" "i < length t" "i < length ?t" using s(2) by simp_all
    have "t ! 0 \<noteq> SVal_INVALID" using s vb_0 by (auto simp: sane_iff)
    then obtain j where j: "governs t j i" using governs_ex by blast
    have "tree_bytes ?t ! i = t ! j"
    proof (cases "j < dst \<and> dst \<le> i")
      case True
      have "j = src"
      proof (rule ccontr)
        assume "j \<noteq> src"
        then consider "j < src" | "src < j" by linarith
        then show False
          using j src True by cases (auto simp: governs_def)
      qed
      moreover have "governs ?t dst i" using j True src s(2) by (auto simp: governs_def nth_list_update)
      ultimately show ?thesis using spread_governs [OF _ i(3)] src s(2) by simp
    next
      case False
      moreover have "j \<noteq> dst" using j src by (auto simp: governs_def)
      ultimately have "governs ?t j i" using j by (auto simp: governs_def nth_list_update)
      with \<open>j \<noteq> dst\<close> show ?thesis using spread_governs [OF _ i(3)] by simp
    qed
    then show "tree_bytes ?t ! i = tree_bytes t ! i" using spread_governs [OF j i(2)] by simp
  qed (use s in simp)
qed

section \<open>Splitting nodes\<close>

definition same_bytes :: "SVal list \<Rightarrow> UShort \<times> SVal list \<Rightarrow> bool" where
  "same_bytes t dt \<longleftrightarrow> is_sane_Descr_and_Tree (fst dt) (snd dt) \<and> length (snd dt) = 8 \<and>
     tree_bytes (snd dt) = tree_bytes t"

lemma copy_same_bytes:
  "same_bytes t0 (d, t) \<Longrightarrow> copy_ok d d' src dst \<Longrightarrow> same_bytes t0 (d', t[dst := t ! src])"
  using copy_node [of d t d' src dst] by (simp add: same_bytes_def)

lemma same_bytes_refl: "is_sane_Descr_and_Tree d t \<Longrightarrow> length t = 8 \<Longrightarrow> same_bytes t (d, t)"
  by (simp add: same_bytes_def)

lemma same_bytes_sane: "same_bytes t0 (d, t) \<Longrightarrow> is_sane_Descr_and_Tree d t"
  by (simp add: same_bytes_def)

definition split_ok :: "UShort \<Rightarrow> nat \<Rightarrow> nat \<Rightarrow> UShort \<Rightarrow> UShort \<Rightarrow> UShort \<Rightarrow> bool" where
  "split_ok p lo hi d_lo d_hi d \<longleftrightarrow> (d AND p \<noteq> 0 \<longrightarrow>
     copy_ok d ((d AND NOT p) OR (d_hi OR d_lo)) lo hi \<and>
     ((d AND NOT p) OR (d_hi OR d_lo)) AND d_lo \<noteq> 0 \<and> ((d AND NOT p) OR (d_hi OR d_lo)) AND d_hi \<noteq> 0)"

lemma split_ok_all:
  "list_all (split_ok TREE_DESCR_64 0 4 TREE_DESCR_32_0 TREE_DESCR_32_1) (map fst descr_cases)"
  "list_all (split_ok TREE_DESCR_32_0 0 2 TREE_DESCR_16_0 TREE_DESCR_16_1) (map fst descr_cases)"
  "list_all (split_ok TREE_DESCR_32_1 4 6 TREE_DESCR_16_2 TREE_DESCR_16_3) (map fst descr_cases)"
  "list_all (split_ok TREE_DESCR_16_0 0 1 TREE_DESCR_8_0 TREE_DESCR_8_1) (map fst descr_cases)"
  "list_all (split_ok TREE_DESCR_16_1 2 3 TREE_DESCR_8_2 TREE_DESCR_8_3) (map fst descr_cases)"
  "list_all (split_ok TREE_DESCR_16_2 4 5 TREE_DESCR_8_4 TREE_DESCR_8_5) (map fst descr_cases)"
  "list_all (split_ok TREE_DESCR_16_3 6 7 TREE_DESCR_8_6 TREE_DESCR_8_7) (map fst descr_cases)"
  by (simp_all add: split_ok_def copy_ok_def vb_def descr_simps upt_rec)

lemma split_node:
  assumes "list_all (split_ok p lo hi d_lo d_hi) (map fst descr_cases)" "same_bytes t0 (d, t)" "d AND p \<noteq> 0"
  shows "same_bytes t0 ((d AND NOT p) OR (d_hi OR d_lo), t[hi := t ! lo])"
    "((d AND NOT p) OR (d_hi OR d_lo)) AND d_lo \<noteq> 0" "((d AND NOT p) OR (d_hi OR d_lo)) AND d_hi \<noteq> 0"
  using by_cases_of_descr [OF same_bytes_sane [OF assms(2)] assms(1)] assms(2,3) copy_same_bytes
  by (auto simp: split_ok_def)

lemma pulldown_32_spec:
  assumes "same_bytes t0 (d, t)" "toff = 0 \<or> toff = 4" "d AND TREE_DESCR_64 \<noteq> 0"
  shows "\<exists>d' t'. pulldown_to_32 t toff d = Some (d', t') \<and> same_bytes t0 (d', t') \<and>
     d' AND TREE_DESCR_32_0 \<noteq> 0 \<and> d' AND TREE_DESCR_32_1 \<noteq> 0"
  using split_node [OF split_ok_all(1) assms(1,3)] assms(2,3) by (simp add: pulldown_to_32_def)

text \<open>The nodes above byte \<open>toff\<close>.\<close>

definition d16_of :: "nat \<Rightarrow> UShort" where
  "d16_of toff = push_bit (2 * (toff div 2)) TREE_DESCR_16_0"

definition d32_of :: "nat \<Rightarrow> UShort" where
  "d32_of toff = push_bit (4 * (toff div 4)) TREE_DESCR_32_0"

lemma pulldown_16_spec:
  assumes s: "same_bytes t0 (d, t)" and toff: "toff \<in> {0, 2, 4, 6}"
    and above: "d AND d32_of toff \<noteq> 0 \<or> d AND TREE_DESCR_64 \<noteq> 0"
  shows "\<exists>d' t'. pulldown_to_16 t toff d = Some (d', t') \<and> same_bytes t0 (d', t') \<and> d' AND d16_of toff \<noteq> 0"
proof -
  have lo: "\<exists>d' t'. pulldown_to_16 t toff d = Some (d', t') \<and> same_bytes t0 (d', t') \<and>
      d' AND TREE_DESCR_16_0 \<noteq> 0 \<and> d' AND TREE_DESCR_16_1 \<noteq> 0"
    if T: "toff = 0 \<or> toff = 2" "d AND TREE_DESCR_32_0 \<noteq> 0 \<or> d AND TREE_DESCR_64 \<noteq> 0"
  proof (cases "d AND TREE_DESCR_32_0 = 0")
    case True
    with T(2) pulldown_32_spec [OF s, of 0] obtain d1 t1 where 1: "pulldown_to_32 t 0 d = Some (d1, t1)"
      "same_bytes t0 (d1, t1)" "d1 AND TREE_DESCR_32_0 \<noteq> 0" by auto
    from split_node [OF split_ok_all(2) 1(2,3)] 1 True T(1) show ?thesis by (auto simp: pulldown_to_16_def)
  next
    case False
    from split_node [OF split_ok_all(2) s False] False T(1) show ?thesis by (auto simp: pulldown_to_16_def)
  qed
  have hi: "\<exists>d' t'. pulldown_to_16 t toff d = Some (d', t') \<and> same_bytes t0 (d', t') \<and>
      d' AND TREE_DESCR_16_2 \<noteq> 0 \<and> d' AND TREE_DESCR_16_3 \<noteq> 0"
    if T: "toff = 4 \<or> toff = 6" "d AND TREE_DESCR_32_1 \<noteq> 0 \<or> d AND TREE_DESCR_64 \<noteq> 0"
  proof (cases "d AND TREE_DESCR_32_1 = 0")
    case True
    with T(2) pulldown_32_spec [OF s, of 4] obtain d1 t1 where 1: "pulldown_to_32 t 4 d = Some (d1, t1)"
      "same_bytes t0 (d1, t1)" "d1 AND TREE_DESCR_32_1 \<noteq> 0" by auto
    from split_node [OF split_ok_all(3) 1(2,3)] 1 True T(1) show ?thesis by (auto simp: pulldown_to_16_def)
  next
    case False
    from split_node [OF split_ok_all(3) s False] False T(1) show ?thesis by (auto simp: pulldown_to_16_def)
  qed
  have "d32_of 0 = TREE_DESCR_32_0" "d32_of 2 = TREE_DESCR_32_0" "d32_of 4 = TREE_DESCR_32_1" "d32_of 6 = TREE_DESCR_32_1"
    "d16_of 0 = TREE_DESCR_16_0" "d16_of 2 = TREE_DESCR_16_1" "d16_of 4 = TREE_DESCR_16_2" "d16_of 6 = TREE_DESCR_16_3"
    by (simp_all add: d32_of_def d16_of_def TREE_DESCR_defs)
  with lo hi toff above show ?thesis by auto
qed

lemma pulldown_16_8_spec:
  assumes s: "same_bytes t0 (d, t)" and base: "base \<in> {0, 2, 4, 6}" and d16: "d16 = d16_of base"
    and above: "d AND d16 \<noteq> 0 \<or> d AND d32_of base \<noteq> 0 \<or> d AND TREE_DESCR_64 \<noteq> 0"
    and split: "list_all (split_ok d16 base (base + 1) d_lo d_hi) (map fst descr_cases)"
  shows "\<exists>d' t'. pulldown_16_8 base d16 d_lo d_hi t d = Some (d', t') \<and> same_bytes t0 (d', t') \<and>
     d' AND d_lo \<noteq> 0 \<and> d' AND d_hi \<noteq> 0"
proof (cases "d AND d16 = 0")
  case True
  with above pulldown_16_spec [OF s base] obtain d1 t1 where 1: "pulldown_to_16 t base d = Some (d1, t1)"
    "same_bytes t0 (d1, t1)" "d1 AND d16 \<noteq> 0" unfolding d16 by blast
  from split_node [OF split 1(2,3)] 1 True show ?thesis by (auto simp: pulldown_16_8_def)
next
  case False
  from split_node [OF split s False] False show ?thesis by (auto simp: pulldown_16_8_def)
qed

text \<open>One of the nodes above a byte is in use.\<close>

lemma some_node_all:
  "list_all (\<lambda>d. list_all (\<lambda>toff. d AND push_bit toff TREE_DESCR_8_0 \<noteq> 0 \<or> d AND d16_of toff \<noteq> 0 \<or>
     d AND d32_of toff \<noteq> 0 \<or> d AND TREE_DESCR_64 \<noteq> 0) [0..<8]) (map fst descr_cases)"
  by (simp add: d16_of_def d32_of_def descr_simps upt_rec)

lemma pulldown_8_spec:
  assumes s: "same_bytes t0 (d, t)" and toff: "toff < 8" and n: "d AND push_bit toff TREE_DESCR_8_0 = 0"
  shows "\<exists>d' t'. pulldown_to_8 t toff d = Some (d', t') \<and> same_bytes t0 (d', t') \<and>
     d' AND push_bit toff TREE_DESCR_8_0 \<noteq> 0"
proof -
  from by_cases_of_descr [OF same_bytes_sane [OF s] some_node_all] toff n
  have above: "d AND d16_of toff \<noteq> 0 \<or> d AND d32_of toff \<noteq> 0 \<or> d AND TREE_DESCR_64 \<noteq> 0"
    by (simp add: list_all_iff)
  have e: "d16_of 0 = TREE_DESCR_16_0" "d16_of 2 = TREE_DESCR_16_1" "d16_of 4 = TREE_DESCR_16_2" "d16_of 6 = TREE_DESCR_16_3"
    "d16_of 1 = d16_of 0" "d16_of 3 = d16_of 2" "d16_of 5 = d16_of 4" "d16_of 7 = d16_of 6"
    "d32_of 1 = d32_of 0" "d32_of 3 = d32_of 2" "d32_of 5 = d32_of 4" "d32_of 7 = d32_of 6"
    by (simp_all add: d32_of_def d16_of_def TREE_DESCR_defs)
  have p: "push_bit 0 TREE_DESCR_8_0 = TREE_DESCR_8_0" "push_bit 1 TREE_DESCR_8_0 = TREE_DESCR_8_1"
    "push_bit 2 TREE_DESCR_8_0 = TREE_DESCR_8_2" "push_bit 3 TREE_DESCR_8_0 = TREE_DESCR_8_3"
    "push_bit 4 TREE_DESCR_8_0 = TREE_DESCR_8_4" "push_bit 5 TREE_DESCR_8_0 = TREE_DESCR_8_5"
    "push_bit 6 TREE_DESCR_8_0 = TREE_DESCR_8_6" "push_bit 7 TREE_DESCR_8_0 = TREE_DESCR_8_7"
    by (simp_all add: TREE_DESCR_defs)
  note P = pulldown_16_8_spec [OF s]
  from toff consider "toff = 0 \<or> toff = 1" | "toff = 2 \<or> toff = 3" | "toff = 4 \<or> toff = 5" | "toff = 6 \<or> toff = 7"
    by linarith
  then show ?thesis
  proof cases
    case 1
    then show ?thesis
      using P [of 0 TREE_DESCR_16_0 TREE_DESCR_8_0 TREE_DESCR_8_1] split_ok_all(4) above e p
      by (auto simp: pulldown_to_8_def)
  next
    case 2
    then show ?thesis
      using P [of 2 TREE_DESCR_16_1 TREE_DESCR_8_2 TREE_DESCR_8_3] split_ok_all(5) above e p
      by (auto simp: pulldown_to_8_def)
  next
    case 3
    then show ?thesis
      using P [of 4 TREE_DESCR_16_2 TREE_DESCR_8_4 TREE_DESCR_8_5] split_ok_all(6) above e p
      by (auto simp: pulldown_to_8_def)
  next
    case 4
    then show ?thesis
      using P [of 6 TREE_DESCR_16_3 TREE_DESCR_8_6 TREE_DESCR_8_7] split_ok_all(7) above e p
      by (auto simp: pulldown_to_8_def)
  qed
qed

section \<open>Writing nodes\<close>

text \<open>Writing a node of \<open>n\<close> bytes at \<open>toff\<close> turns the descriptor \<open>d\<close> into \<open>d'\<close>.\<close>

definition write_ok :: "UShort \<Rightarrow> UShort \<Rightarrow> nat \<Rightarrow> nat \<Rightarrow> bool" where
  "write_ok d d' toff n \<longleftrightarrow> 0 < n \<and> toff + n \<le> 8 \<and> descr_to_validbits d' \<noteq> 0 \<and>
     list_all (\<lambda>i. vb d' i \<longleftrightarrow> (if toff \<le> i \<and> i < toff + n then i = toff else vb d i)) [0..<8] \<and>
     (toff + n = 8 \<or> vb d (toff + n))"

lemma write_node:
  assumes s: "is_sane_Descr_and_Tree d t" "length t = 8" "length t' = 8" and w: "write_ok d d' toff n"
    and v: "v \<noteq> SVal_INVALID"
    and t': "\<And>i. i < 8 \<Longrightarrow> t' ! i = (if i = toff then v else if toff < i \<and> i < toff + n then SVal_INVALID else t ! i)"
  shows "is_sane_Descr_and_Tree d' t'"
    "i < 8 \<Longrightarrow> tree_bytes t' ! i = (if toff \<le> i \<and> i < toff + n then v else tree_bytes t ! i)"
proof -
  from w have k: "0 < n" "toff + n \<le> 8" "descr_to_validbits d' \<noteq> 0" "toff + n = 8 \<or> vb d (toff + n)"
    "\<And>i. i < 8 \<Longrightarrow> vb d' i \<longleftrightarrow> (if toff \<le> i \<and> i < toff + n then i = toff else vb d i)"
    by (simp_all add: write_ok_def list_all_iff)
  show "is_sane_Descr_and_Tree d' t'"
    using s k v t' by (auto simp: sane_iff)
  assume i: "i < 8"
  consider "toff \<le> i \<and> i < toff + n" | "i < toff" | "toff + n \<le> i" by linarith
  then show "tree_bytes t' ! i = (if toff \<le> i \<and> i < toff + n then v else tree_bytes t ! i)"
  proof cases
    case 1
    then have "governs t' toff i" using i k t' v by (auto simp: governs_def)
    with 1 show ?thesis using spread_governs [of t' toff i] i s t' by simp
  next
    case 2
    have "t ! 0 \<noteq> SVal_INVALID" using s vb_0 by (auto simp: sane_iff)
    then obtain j where j: "governs t j i" using governs_ex by blast
    with 2 have "governs t' j i" using i t' by (auto simp: governs_def)
    with j 2 i s t' show ?thesis using spread_governs [of t' j i] spread_governs [of t j i] by (simp add: governs_def)
  next
    case 3
    then have after: "t ! (toff + n) \<noteq> SVal_INVALID" using i k s by (auto simp: sane_iff)
    then have "t ! 0 \<noteq> SVal_INVALID" using s vb_0 by (auto simp: sane_iff)
    then obtain j where j: "governs t j i" using governs_ex by blast
    have jge: "toff + n \<le> j"
    proof (rule ccontr)
      assume "\<not> toff + n \<le> j"
      then have "t ! (toff + n) = SVal_INVALID" using j 3 by (simp add: governs_def)
      with after show False by blast
    qed
    with j have "governs t' j i" using i t' k by (auto simp: governs_def)
    with j jge 3 i k s t' show ?thesis using spread_governs [of t' j i] spread_governs [of t j i] by (simp add: governs_def)
  qed
qed

lemma node_value:
  assumes s: "is_sane_Descr_and_Tree d t" "length t = 8" and w: "write_ok d d toff n"
    and i: "toff \<le> i" "i < toff + n"
  shows "tree_bytes t ! i = t ! toff" "t ! toff \<noteq> SVal_INVALID" "toff < i \<Longrightarrow> t ! i = SVal_INVALID"
proof -
  from w have k: "toff + n \<le> 8"
    and all: "\<forall>i\<in>{0..<8}. vb d i \<longleftrightarrow> (if toff \<le> i \<and> i < toff + n then i = toff else vb d i)"
    by (auto simp: write_ok_def list_all_iff)
  have val: "vb d k \<longleftrightarrow> k = toff" if "toff \<le> k" "k < toff + n" for k
    using bspec [OF all, of k] that k by (simp split: if_splits)
  have v: "\<forall>i<8. t ! i \<noteq> SVal_INVALID \<longleftrightarrow> vb d i" using s(1) by (simp add: sane_iff)
  have c: "t ! k = SVal_INVALID" if "toff < k" "k < toff + n" for k
    using v [rule_format, of k] val [of k] that k by auto
  have c0: "t ! toff \<noteq> SVal_INVALID" using v [rule_format, of toff] val [of toff] i k by auto
  have "governs t toff i" using i c c0 by (auto simp: governs_def)
  with i k s(2) show "tree_bytes t ! i = t ! toff" using spread_governs [of t toff i] by simp
  show "t ! toff \<noteq> SVal_INVALID" "toff < i \<Longrightarrow> t ! i = SVal_INVALID" using c c0 i by auto
qed

lemma node_8_all:
  "list_all (\<lambda>d. list_all (\<lambda>toff. d AND push_bit toff TREE_DESCR_8_0 \<noteq> 0 \<longrightarrow> write_ok d d toff 1) [0..<8])
     (map fst descr_cases)"
  by (simp add: write_ok_def vb_def descr_simps upt_rec)

lemma node_16_all:
  "list_all (\<lambda>d. list_all (\<lambda>toff. d AND push_bit toff TREE_DESCR_16_0 \<noteq> 0 \<longrightarrow> write_ok d d toff 2) [0, 2, 4, 6])
     (map fst descr_cases)"
  by (simp add: write_ok_def vb_def descr_simps upt_rec)

lemma node_32_64_all:
  "list_all (\<lambda>d. (d AND TREE_DESCR_64 \<noteq> 0 \<longrightarrow> write_ok d d 0 8) \<and> write_ok d TREE_DESCR_64 0 8 \<and>
       list_all (\<lambda>toff. d AND push_bit toff TREE_DESCR_32_0 \<noteq> 0 \<longrightarrow> write_ok d d toff 4) [0, 4])
     (map fst descr_cases)"
  by (simp add: write_ok_def vb_def descr_simps upt_rec)

lemma pullup_16_all:
  "list_all (\<lambda>d. list_all (\<lambda>toff. d AND push_bit toff TREE_DESCR_16_0 = 0 \<and>
       valid_value_is_below_me_16 d toff = Some True \<longrightarrow>
       (case pullup_descr_to_16 d toff of None \<Rightarrow> False | Some d' \<Rightarrow> write_ok d d' toff 2)) [0, 2, 4, 6])
     (map fst descr_cases)"
  by (simp add: valid_value_is_below_me_16_def pullup_descr_to_16_def pullup_mask_def write_ok_def vb_def
      descr_simps upt_rec)

lemma pullup_32_all:
  "list_all (\<lambda>d. list_all (\<lambda>toff. d AND push_bit toff TREE_DESCR_32_0 = 0 \<and>
       valid_value_is_above_me_32 d toff = Some False \<longrightarrow>
       (case pullup_descr_to_32 d toff of None \<Rightarrow> False | Some d' \<Rightarrow> write_ok d d' toff 4)) [0, 4])
     (map fst descr_cases)"
  by (simp add: valid_value_is_above_me_32_def pullup_descr_to_32_def pullup_descr_to_16_def pullup_mask_def
      write_ok_def vb_def descr_simps upt_rec)

section \<open>Sequentialising\<close>

definition gov_ix :: "UShort \<Rightarrow> nat \<Rightarrow> nat" where
  "gov_ix d i = last (filter (vb d) [0..<Suc i])"

lemma gov_ix_governs:
  assumes "is_sane_Descr_and_Tree d t" "i < 8"
  shows "governs t (gov_ix d i) i"
proof -
  let ?l = "filter (vb d) [0..<Suc i]"
  have "vb d 0" using assms vb_0 by (simp add: sane_iff)
  then have "0 \<in> set ?l" by (simp only: set_filter set_upt) simp
  then have ne: "?l \<noteq> []" by (metis empty_iff list.set(1))
  then obtain ys where ys: "?l = ys @ [gov_ix d i]" unfolding gov_ix_def by (metis append_butlast_last_id)
  then have "gov_ix d i \<in> set ?l" by (metis in_set_conv_decomp)
  then have g: "vb d (gov_ix d i)" "gov_ix d i \<le> i" by (simp_all only: set_filter set_upt) auto
  have "sorted ?l" by (rule sorted_wrt_filter) (rule sorted_upt)
  then have "k \<le> gov_ix d i" if "k \<le> i" "vb d k" for k
  proof -
    have "k \<in> set ?l" using that by (simp only: set_filter set_upt) simp
    then show ?thesis using \<open>sorted ?l\<close> unfolding ys by (auto simp: sorted_append)
  qed
  then have "\<not> vb d k" if "gov_ix d i < k" "k \<le> i" for k using that by fastforce
  moreover have "\<forall>k<8. t ! k \<noteq> SVal_INVALID \<longleftrightarrow> vb d k" using assms(1) by (simp add: sane_iff)
  ultimately show ?thesis using g assms(2) by (simp add: governs_def) (meson le_less_trans)
qed

lemma sequentialise_map:
  "sequentialise_tree d t = map (\<lambda>(n, i). (n, t ! i)) (map (\<lambda>(n, i). (n, unat i)) (sequentialise_tree d [0, 1, 2, 3, 4, 5, 6, 7]))"
  by (simp add: sequentialise_tree_def if_distrib [where f = "map g" for g] cong: if_cong split del: if_split)

lemma replicate_248: "replicate 2 x = [x, x]" "replicate 4 x = [x, x, x, x]" "replicate 8 x = [x, x, x, x, x, x, x, x]"
  by (simp_all add: numeral_eq_Suc)

lemma sequentialise_all:
  "list_all (\<lambda>d.
     concat (map (\<lambda>(n, i). replicate n (unat i)) (sequentialise_tree d [0, 1, 2, 3, 4, 5, 6, 7])) = map (gov_ix d) [0..<8] \<and>
     list_all (\<lambda>(n, i). n \<in> {1, 2, 4, 8} \<and> vb d (unat i) \<and> unat i < 8) (sequentialise_tree d [0, 1, 2, 3, 4, 5, 6, 7]))
     (map fst descr_cases)"
  by (simp add: sequentialise_tree_def gov_ix_def vb_def descr_simps upt_rec replicate_248)

lemma sequentialise_spec:
  assumes "is_sane_Descr_and_Tree d t" "length t = 8"
  shows "expand (sequentialise_tree d t) = tree_bytes t"
    "\<forall>(n, s)\<in>set (sequentialise_tree d t). n \<in> {1, 2, 4, 8} \<and> s \<noteq> SVal_INVALID"
proof -
  let ?q = "sequentialise_tree d [0, 1, 2, 3, 4, 5, 6, 7]"
  from by_cases_of_descr [OF assms(1) sequentialise_all]
  have q: "concat (map (\<lambda>(n, i). replicate n (unat i)) ?q) = map (gov_ix d) [0..<8]"
    "list_all (\<lambda>(n, i). n \<in> {1, 2, 4, 8} \<and> vb d (unat i) \<and> unat i < 8) ?q" by auto
  have "expand (sequentialise_tree d t) = map ((!) t) (concat (map (\<lambda>(n, i). replicate n (unat i)) ?q))"
    unfolding expand_def sequentialise_map [of d t] by (simp add: map_concat comp_def case_prod_unfold)
  also have "\<dots> = map (\<lambda>i. tree_bytes t ! i) [0..<8]"
    unfolding q(1) using spread_governs [OF gov_ix_governs [OF assms(1)]] assms(2) by simp
  also have "\<dots> = tree_bytes t" using assms(2) by (metis length_spread map_nth)
  finally show "expand (sequentialise_tree d t) = tree_bytes t" .
  show "\<forall>(n, s)\<in>set (sequentialise_tree d t). n \<in> {1, 2, 4, 8} \<and> s \<noteq> SVal_INVALID"
    using q(2) assms(1) unfolding sequentialise_map [of d t] by (auto simp: list_all_iff sane_iff)
qed

section \<open>Normalising\<close>

definition merge_ok :: "UShort \<Rightarrow> nat \<Rightarrow> nat \<Rightarrow> UShort \<Rightarrow> UShort \<Rightarrow> UShort \<Rightarrow> bool" where
  "merge_ok p lo hi d_lo d_hi d \<longleftrightarrow> (d AND d_hi \<noteq> 0 \<and> d AND d_lo \<noteq> 0 \<longrightarrow>
     copy_ok ((d AND NOT (d_hi OR d_lo)) OR p) d lo hi \<and> descr_to_validbits ((d AND NOT (d_hi OR d_lo)) OR p) \<noteq> 0)"

lemma merge_ok_all:
  "list_all (merge_ok TREE_DESCR_64 0 4 TREE_DESCR_32_0 TREE_DESCR_32_1) (map fst descr_cases)"
  "list_all (merge_ok TREE_DESCR_32_0 0 2 TREE_DESCR_16_0 TREE_DESCR_16_1) (map fst descr_cases)"
  "list_all (merge_ok TREE_DESCR_32_1 4 6 TREE_DESCR_16_2 TREE_DESCR_16_3) (map fst descr_cases)"
  "list_all (merge_ok TREE_DESCR_16_0 0 1 TREE_DESCR_8_0 TREE_DESCR_8_1) (map fst descr_cases)"
  "list_all (merge_ok TREE_DESCR_16_1 2 3 TREE_DESCR_8_2 TREE_DESCR_8_3) (map fst descr_cases)"
  "list_all (merge_ok TREE_DESCR_16_2 4 5 TREE_DESCR_8_4 TREE_DESCR_8_5) (map fst descr_cases)"
  "list_all (merge_ok TREE_DESCR_16_3 6 7 TREE_DESCR_8_6 TREE_DESCR_8_7) (map fst descr_cases)"
  by (simp_all add: merge_ok_def copy_ok_def vb_def descr_simps upt_rec)

text \<open>Merging undoes a copy.\<close>

lemma merge_same_bytes:
  assumes s: "same_bytes t0 (d, t)" and c: "copy_ok d' d lo hi" "descr_to_validbits d' \<noteq> 0" and eq: "t ! hi = t ! lo"
  shows "same_bytes t0 (d', t[hi := SVal_INVALID])"
proof -
  let ?t = "t[hi := SVal_INVALID]"
  from s have t: "is_sane_Descr_and_Tree d t" "length t = 8" by (simp_all add: same_bytes_def)
  from c(1) have k: "lo < hi" "hi < 8" "vb d' lo" and all: "\<forall>i\<in>{0..<8}. vb d i \<longleftrightarrow> vb d' i \<or> i = hi"
    and none: "\<forall>i\<in>{0..<8}. lo < i \<and> i \<le> hi \<longrightarrow> \<not> vb d' i" by (auto simp: copy_ok_def list_all_iff)
  have "(?t ! i \<noteq> SVal_INVALID) = vb d' i" if "i < 8" for i
  proof -
    have "(t ! i \<noteq> SVal_INVALID) = vb d i" using t(1) that by (simp add: sane_iff)
    then show ?thesis using bspec [OF all, of i] bspec [OF none, of hi] k that t(2) by (cases "i = hi") auto
  qed
  then have sane: "is_sane_Descr_and_Tree d' ?t" using c(2) by (simp add: sane_iff)
  have "?t[hi := ?t ! lo] = t" using eq k by (simp add: list_update_same_conv t(2))
  with copy_node(2) [OF sane _ c(1)] t(2) have "tree_bytes t = tree_bytes ?t" by simp
  with s sane show ?thesis by (simp add: same_bytes_def)
qed

lemma merge_nodes_spec:
  assumes "list_all (merge_ok p lo hi d_lo d_hi) (map fst descr_cases)" "same_bytes t0 dt"
  shows "same_bytes t0 (merge_nodes lo hi d_lo d_hi p dt)"
proof (cases dt)
  case (Pair d t)
  with assms have s: "same_bytes t0 (d, t)" by simp
  from by_cases_of_descr [OF same_bytes_sane [OF s] assms(1)] merge_same_bytes [OF s] s
  show ?thesis by (auto simp: merge_nodes_def merge_ok_def Pair)
qed

lemma merge_leaves_spec:
  assumes m: "list_all (merge_ok p lo hi d_lo d_hi) (map fst descr_cases)"
    and s: "same_bytes t0 dt" "fst dt AND d_lo \<noteq> 0" "fst dt AND d_hi \<noteq> 0"
    and rest: "fst dt AND rest = rest" "(d_hi OR d_lo) AND rest = 0"
  shows "same_bytes t0 (merge_leaves lo hi d_lo d_hi p dt) \<and> fst (merge_leaves lo hi d_lo d_hi p dt) AND rest = rest"
proof -
  have eq: "merge_leaves lo hi d_lo d_hi p dt = merge_nodes lo hi d_lo d_hi p dt"
    using s by (auto simp: merge_leaves_def merge_nodes_def split: prod.splits)
  have r: "((d AND NOT (d_hi OR d_lo)) OR p) AND rest = rest" if "d AND rest = rest" for d
  proof (rule bit_word_eqI)
    fix n
    have "bit (d AND rest) n \<longleftrightarrow> bit rest n" "bit ((d_hi OR d_lo) AND rest) n \<longleftrightarrow> False" using that rest(2) by simp_all
    then show "bit (((d AND NOT (d_hi OR d_lo)) OR p) AND rest) n \<longleftrightarrow> bit rest n" if "n < LENGTH(16)"
      using that by (auto simp: bit_simps)
  qed
  show ?thesis using merge_nodes_spec [OF m s(1)] rest(1) r unfolding eq
    by (auto simp: merge_nodes_def split: prod.splits)
qed

lemma spread_id: "\<forall>x\<in>set t. x \<noteq> SVal_INVALID \<Longrightarrow> spread p t = t"
  by (induction t arbitrary: p) auto

lemma normalise_tree_spec:
  assumes l: "length t = 8" and v: "\<forall>x\<in>set t. x \<noteq> SVal_INVALID"
  shows "\<exists>dt. normalise_tree t = Some dt \<and> same_bytes t dt"
proof -
  let ?d = "TREE_DESCR_8_7 OR TREE_DESCR_8_6 OR TREE_DESCR_8_5 OR TREE_DESCR_8_4 OR
            TREE_DESCR_8_3 OR TREE_DESCR_8_2 OR TREE_DESCR_8_1 OR TREE_DESCR_8_0"
  have nv: "t ! i \<noteq> SVal_INVALID" if "i < 8" for i using v l that by auto
  have all: "list_all (vb ?d) [0..<8]" "descr_to_validbits ?d \<noteq> 0" by (simp_all add: vb_def descr_simps upt_rec)
  then have "is_sane_Descr_and_Tree ?d t" using nv by (auto simp: sane_iff list_all_iff)
  then have 0: "same_bytes t (?d, t)" using l by (simp add: same_bytes_def)
  define r1 r2 r3 where "r1 = (0x7E00 :: UShort)" and "r2 = (0x7800 :: UShort)" and "r3 = (0x6000 :: UShort)"
  note rs = r1_def r2_def r3_def
  define dt1 where "dt1 = merge_leaves 0 1 TREE_DESCR_8_0 TREE_DESCR_8_1 TREE_DESCR_16_0 (?d, t)"
  define dt2 where "dt2 = merge_leaves 2 3 TREE_DESCR_8_2 TREE_DESCR_8_3 TREE_DESCR_16_1 dt1"
  define dt3 where "dt3 = merge_leaves 4 5 TREE_DESCR_8_4 TREE_DESCR_8_5 TREE_DESCR_16_2 dt2"
  define dt4 where "dt4 = merge_leaves 6 7 TREE_DESCR_8_6 TREE_DESCR_8_7 TREE_DESCR_16_3 dt3"
  have 1: "same_bytes t dt1 \<and> fst dt1 AND r1 = r1"
    unfolding dt1_def by (rule merge_leaves_spec [OF merge_ok_all(4) 0]) (simp_all add: rs TREE_DESCR_defs)
  have sub: "fst dt AND y \<noteq> 0" if "fst dt AND r = r" "r AND y = y" "y \<noteq> 0" for dt :: "UShort \<times> SVal list" and r y
    using that by (metis and.assoc)
  have sub': "fst dt AND y = y" if "fst dt AND r = r" "r AND y = y" for dt :: "UShort \<times> SVal list" and r y
    using that by (metis and.assoc)
  have 2: "same_bytes t dt2 \<and> fst dt2 AND r2 = r2"
    unfolding dt2_def by (rule merge_leaves_spec [OF merge_ok_all(5)])
     (use 1 sub [of dt1 r1] sub' [of dt1 r1] in \<open>simp_all add: rs TREE_DESCR_defs\<close>)
  have 3: "same_bytes t dt3 \<and> fst dt3 AND r3 = r3"
    unfolding dt3_def by (rule merge_leaves_spec [OF merge_ok_all(6)])
     (use 2 sub [of dt2 r2] sub' [of dt2 r2] in \<open>simp_all add: rs TREE_DESCR_defs\<close>)
  have 4: "same_bytes t dt4 \<and> fst dt4 AND 0 = 0"
    unfolding dt4_def by (rule merge_leaves_spec [OF merge_ok_all(7)])
     (use 3 sub [of dt3 r3] in \<open>simp_all add: rs TREE_DESCR_defs\<close>)
  have ne: "\<not> (t ! 7 = SVal_INVALID \<or> t ! 6 = SVal_INVALID \<or> t ! 5 = SVal_INVALID \<or> t ! 4 = SVal_INVALID \<or>
      t ! 3 = SVal_INVALID \<or> t ! 2 = SVal_INVALID \<or> t ! 1 = SVal_INVALID \<or> t ! 0 = SVal_INVALID)" using nv by simp
  have "normalise_tree t = Some (merge_nodes 0 4 TREE_DESCR_32_0 TREE_DESCR_32_1 TREE_DESCR_64
      (merge_nodes 4 6 TREE_DESCR_16_2 TREE_DESCR_16_3 TREE_DESCR_32_1
        (merge_nodes 0 2 TREE_DESCR_16_0 TREE_DESCR_16_1 TREE_DESCR_32_0 dt4)))"
    unfolding normalise_tree_def Let_def dt1_def dt2_def dt3_def dt4_def tl_assert_bind if_P [OF ne] by (rule refl)
  moreover note merge_nodes_spec [OF merge_ok_all(1) merge_nodes_spec [OF merge_ok_all(3)
      merge_nodes_spec [OF merge_ok_all(2) conjunct1 [OF 4]]]]
  ultimately show ?thesis by blast
qed

end
