(* ===== verification/ShadowLine.thy ===== *)
theory ShadowLine
  imports ShadowTree
begin

text \<open>
  Cache lines of the shadow memory and their two representations in the backing store
  (\<^verbatim>\<open>helgrind/libhb_core.c\<close>): \<^verbatim>\<open>CacheLine\<close>, eight trees for 64 bytes; \<^verbatim>\<open>LineZ\<close>, a dictionary of at most four
  values with a two-bit index per byte; \<^verbatim>\<open>LineF\<close>, one value per byte.
\<close>

section \<open>Lines\<close>

definition N_LINE_BITS :: nat where "N_LINE_BITS = 6"
definition N_LINE_ARANGE :: nat where "N_LINE_ARANGE = 64"
definition N_LINE_TREES :: nat where "N_LINE_TREES = 8"

record CacheLine =
  descrs :: "UShort list"
  svals :: "SVal list"

record LineZ =
  dict :: "SVal list"
  ix2s :: "UChar list"

record LineF =
  inUse :: bool
  w64s :: "SVal list"

text \<open>The tree \<^verbatim>\<open>&cl->svals[tno << 3]\<close> of a line, and storing it back.\<close>

definition cl_tree :: "CacheLine \<Rightarrow> nat \<Rightarrow> SVal list" where
  "cl_tree cl tno = take 8 (drop (8 * tno) (svals cl))"

definition put_tree :: "nat \<Rightarrow> UShort \<times> SVal list \<Rightarrow> CacheLine \<Rightarrow> CacheLine" where
  "put_tree tno dt cl =
     cl\<lparr>descrs := (descrs cl)[tno := fst dt],
        svals := take (8 * tno) (svals cl) @ snd dt @ drop (8 * tno + 8) (svals cl)\<rparr>"

definition is_sane_CacheLine :: "CacheLine \<Rightarrow> bool" where
  "is_sane_CacheLine cl \<longleftrightarrow>
     list_all (\<lambda>tno. is_sane_Descr_and_Tree (descrs cl ! tno) (cl_tree cl tno)) [0..<N_LINE_TREES]"

fun normalise_trees :: "nat list \<Rightarrow> CacheLine \<Rightarrow> CacheLine option" where
  "normalise_trees [] cl = Some cl"
| "normalise_trees (tno # tnos) cl =
     do { dt \<leftarrow> normalise_tree (cl_tree cl tno); normalise_trees tnos (put_tree tno dt cl) }"

definition normalise_CacheLine :: "CacheLine \<Rightarrow> CacheLine option" where
  "normalise_CacheLine cl = normalise_trees [0..<N_LINE_TREES] cl"

definition sequentialise_CacheLine :: "CacheLine \<Rightarrow> CountedSVal list option" where
  "sequentialise_CacheLine src =
     do {
       let dst = concat (map (\<lambda>tno. sequentialise_tree (descrs src ! tno) (cl_tree src tno)) [0..<N_LINE_TREES]);
       tl_assert (length dst \<le> N_LINE_ARANGE);
       Some dst
     }"

section \<open>Arrays of two-bit numbers\<close>

definition write_twobit_array :: "UChar list \<Rightarrow> nat \<Rightarrow> UChar \<Rightarrow> UChar list" where
  "write_twobit_array arr ix b2 =
     (let bix = drop_bit 2 ix; shft = 2 * (ix AND 3); msk = push_bit shft 3; prep = push_bit shft b2 in
      arr[bix := (arr ! bix AND NOT msk) OR prep])"

definition read_twobit_array :: "UChar list \<Rightarrow> nat \<Rightarrow> UChar" where
  "read_twobit_array arr ix =
     (let bix = drop_bit 2 ix; shft = 2 * (ix AND 3) in drop_bit shft (arr ! bix) AND 3)"

lemma twobit_div_mod: "drop_bit 2 (ix :: nat) = ix div 4" "(ix AND 3 :: nat) = ix mod 4"
  using take_bit_eq_mask [of 2 ix] take_bit_eq_mod [of 2 ix] by (simp_all add: drop_bit_eq_div mask_eq_exp_minus_1)

lemma three_mask: "(3 :: UChar) = mask 2"
  by (simp add: mask_eq_exp_minus_1)

lemma read_write_twobit:
  assumes "ix div 4 < length arr" "b < 4"
  shows "read_twobit_array (write_twobit_array arr ix b) jx = (if ix = jx then b else read_twobit_array arr jx)"
proof -
  have b: "\<not> bit b n" if "2 \<le> n" for n
  proof -
    have "b = take_bit 2 b" using assms(2)
      by (simp add: word_unat_eq_iff word_less_nat_alt unsigned_take_bit_eq take_bit_nat_eq_self)
    then show ?thesis using that by (metis bit_take_bit_iff not_le)
  qed
  let ?s = "2 * (ix mod 4)" and ?t = "2 * (jx mod 4)" and ?x = "arr ! (ix div 4)"
  have same: "drop_bit ?s ((?x AND NOT (push_bit ?s (mask 2))) OR push_bit ?s b) AND mask 2 = b"
    using b by (intro bit_word_eqI) (auto simp: bit_simps intro: leI)
  have other: "drop_bit ?t ((?x AND NOT (push_bit ?s (mask 2))) OR push_bit ?s b) AND mask 2 = drop_bit ?t ?x AND mask 2"
    if "ix mod 4 \<noteq> jx mod 4"
  proof (rule bit_word_eqI)
    fix n assume "n < LENGTH(8)"
    have "\<not> (?s \<le> ?t + n \<and> ?t + n - ?s < 2)" if "n < 2"
      using \<open>ix mod 4 \<noteq> jx mod 4\<close> that by linarith
    then show "bit (drop_bit ?t ((?x AND NOT (push_bit ?s (mask 2))) OR push_bit ?s b) AND mask 2) n =
        bit (drop_bit ?t ?x AND mask 2) n"
      using b [of "?t + n - ?s"] by (auto simp: bit_simps not_less)
  qed
  have eq: "ix = jx \<longleftrightarrow> ix div 4 = jx div 4 \<and> ix mod 4 = jx mod 4" by (metis div_mod_decomp)
  show ?thesis
    unfolding read_twobit_array_def write_twobit_array_def twobit_div_mod three_mask Let_def
    using assms(1) same other by (auto simp: nth_list_update eq)
qed

lemma length_write_twobit [simp]: "length (write_twobit_array arr ix b) = length arr"
  by (simp add: write_twobit_array_def Let_def)

lemma read_twobit_less: "read_twobit_array arr ix < 4"
proof -
  have "read_twobit_array arr ix = take_bit 2 (drop_bit (2 * (ix AND 3)) (arr ! drop_bit 2 ix))"
    by (simp add: read_twobit_array_def Let_def take_bit_eq_mask mask_eq_exp_minus_1)
  then show ?thesis using take_bit_nat_less_exp [of 2] by (simp add: word_less_nat_alt unsigned_take_bit_eq)
qed

section \<open>The compressed representation\<close>

text \<open>
  The search for the index of a value in the dictionary: an equal entry, else the first free entry,
  which then holds the value.
\<close>

definition dict_slot :: "SVal \<Rightarrow> SVal list \<Rightarrow> (nat \<times> SVal list) option" where
  "dict_slot sv d =
     (if sv = d ! 0 then Some (0, d)
      else if sv = d ! 1 then Some (1, d)
      else if sv = d ! 2 then Some (2, d)
      else if sv = d ! 3 then Some (3, d)
      else if d ! 0 = SVal_INVALID then Some (0, d[0 := sv])
      else if d ! 1 = SVal_INVALID then Some (1, d[1 := sv])
      else if d ! 2 = SVal_INVALID then Some (2, d[2 := sv])
      else if d ! 3 = SVal_INVALID then Some (3, d[3 := sv])
      else None)"

text \<open>The unrolled writes \<^verbatim>\<open>write_twobit_array(lineZ->ix2s, i+0, j)\<close>, \<^verbatim>\<open>i+1\<close>, and so on.\<close>

definition write_twobit_run :: "UChar list \<Rightarrow> nat \<Rightarrow> nat \<Rightarrow> nat \<Rightarrow> UChar list" where
  "write_twobit_run arr i m j = fold (\<lambda>k arr. write_twobit_array arr (i + k) (of_nat j)) [0..<m] arr"

text \<open>The loop that builds the compressed line: the number of bytes done, and the line.\<close>

fun compress_loop :: "CountedSVal list \<Rightarrow> nat \<Rightarrow> LineZ \<Rightarrow> (nat \<times> LineZ) option" where
  "compress_loop [] i lineZ = Some (i, lineZ)"
| "compress_loop ((m, sv) # csvals) i lineZ =
     (case dict_slot sv (dict lineZ) of
        None \<Rightarrow> Some (i, lineZ)
      | Some (j, d) \<Rightarrow>
          if m = 8 \<or> m = 4 \<or> m = 1 \<or> m = 2
          then compress_loop csvals (i + m) (lineZ\<lparr>dict := d, ix2s := write_twobit_run (ix2s lineZ) i m j\<rparr>)
          else None)"

text \<open>The loop that builds the full line.\<close>

fun fill_loop :: "CountedSVal list \<Rightarrow> nat \<Rightarrow> SVal list \<Rightarrow> nat \<times> SVal list" where
  "fill_loop [] i w = (i, w)"
| "fill_loop ((m, sv) # csvals) i w =
     fill_loop csvals (i + m) (fold (\<lambda>k w. w[i + k := sv]) [0..<m] w)"

text \<open>The value of byte \<open>k\<close> of a compressed line, as \<^verbatim>\<open>cacheline_fetch\<close> reads it.\<close>

definition lineZ_val :: "LineZ \<Rightarrow> nat \<Rightarrow> SVal" where
  "lineZ_val z k = dict z ! unat (read_twobit_array (ix2s z) k)"

lemma fold_write_twobit:
  assumes "\<And>k. k < m \<Longrightarrow> (i + k) div 4 < length arr" "j < 4"
  shows "read_twobit_array (write_twobit_run arr i m j) k =
           (if i \<le> k \<and> k < i + m then of_nat j else read_twobit_array arr k)"
    "length (write_twobit_run arr i m j) = length arr"
proof -
  have j: "(of_nat j :: UChar) < 4" using assms(2) by (simp add: word_less_nat_alt unsigned_of_nat take_bit_nat_eq_self)
  have "read_twobit_array (write_twobit_run arr i m j) k =
           (if i \<le> k \<and> k < i + m then of_nat j else read_twobit_array arr k) \<and>
    length (write_twobit_run arr i m j) = length arr"
    using assms(1)
  proof (induction m)
    case (Suc m)
    then show ?case using j by (auto simp: write_twobit_run_def read_write_twobit)
  qed (auto simp: write_twobit_run_def)
  then show "read_twobit_array (write_twobit_run arr i m j) k =
           (if i \<le> k \<and> k < i + m then of_nat j else read_twobit_array arr k)"
    "length (write_twobit_run arr i m j) = length arr" by auto
qed

lemma dict_slot_Some:
  assumes "dict_slot sv d = Some (j, d')" "length d = 4" "sv \<noteq> SVal_INVALID"
  shows "j < 4" "d' ! j = sv" "length d' = 4" "\<And>k. k < 4 \<Longrightarrow> d ! k \<noteq> SVal_INVALID \<Longrightarrow> d' ! k = d ! k"
    "\<And>k. k < 4 \<Longrightarrow> d' ! k = SVal_INVALID \<Longrightarrow> d ! k = SVal_INVALID" "set d' \<subseteq> insert sv (set d)"
proof -
  have *: "\<exists>j0<4. j = j0 \<and> (d' = d \<and> d ! j0 = sv \<or> d ! j0 = SVal_INVALID \<and> d' = d[j0 := sv])"
    using assms(1) by (auto simp: dict_slot_def split: if_splits)
  with assms(2,3) show "j < 4" "d' ! j = sv" "length d' = 4" "\<And>k. k < 4 \<Longrightarrow> d ! k \<noteq> SVal_INVALID \<Longrightarrow> d' ! k = d ! k"
    "\<And>k. k < 4 \<Longrightarrow> d' ! k = SVal_INVALID \<Longrightarrow> d ! k = SVal_INVALID" "set d' \<subseteq> insert sv (set d)"
    by (auto simp: nth_list_update dest: subsetD [OF set_update_subset_insert] split: if_splits)
qed

lemma length_expand_Cons: "length (expand ((m, sv) # cs)) = m + length (expand cs)"
  by (simp add: expand_def)

definition lineZ_ok :: "nat \<Rightarrow> LineZ \<Rightarrow> bool" where
  "lineZ_ok n z \<longleftrightarrow> length (dict z) = 4 \<and> length (ix2s z) = 16 \<and> (\<forall>k<n. lineZ_val z k \<noteq> SVal_INVALID)"

lemma compress_spec:
  assumes "\<forall>(m, s)\<in>set cs. m \<in> {1, 2, 4, 8} \<and> s \<noteq> SVal_INVALID" "lineZ_ok i z" "i + length (expand cs) \<le> 64"
    "dict z ! 0 = SVal_INVALID \<Longrightarrow> dict z = replicate 4 SVal_INVALID"
  shows "\<exists>i' z'. compress_loop cs i z = Some (i', z') \<and> lineZ_ok i' z' \<and> i \<le> i' \<and> i' \<le> i + length (expand cs) \<and>
     (\<forall>k<i. lineZ_val z' k = lineZ_val z k) \<and>
     (\<forall>k. i \<le> k \<and> k < i' \<longrightarrow> lineZ_val z' k = expand cs ! (k - i)) \<and>
     (dict z ! 0 \<noteq> SVal_INVALID \<or> i' = i \<or> dict z' ! 0 \<noteq> SVal_INVALID) \<and>
     (dict z ! 0 \<noteq> SVal_INVALID \<longrightarrow> dict z' ! 0 = dict z ! 0) \<and> set (dict z') \<subseteq> set (dict z) \<union> set (expand cs)"
  using assms
proof (induction cs arbitrary: i z)
  case Nil
  then show ?case by (auto simp: expand_def)
next
  case (Cons c cs)
  obtain m sv where c: "c = (m, sv)" by (cases c)
  from Cons.prems have m: "m \<in> {1, 2, 4, 8}" "sv \<noteq> SVal_INVALID" unfolding c by auto
  have len: "i + m + length (expand cs) \<le> 64" using Cons.prems(3) unfolding c by (simp add: length_expand_Cons)
  have z: "length (dict z) = 4" "length (ix2s z) = 16" "\<forall>k<i. lineZ_val z k \<noteq> SVal_INVALID"
    using Cons.prems(2) by (auto simp: lineZ_ok_def)
  show ?case
  proof (cases "dict_slot sv (dict z)")
    case None
    then show ?thesis using Cons.prems(2) unfolding c by (intro exI [of _ i] exI [of _ z]) auto
  next
    case (Some jd)
    obtain j d where jd: "jd = (j, d)" by (cases jd)
    note D = dict_slot_Some [OF Some [unfolded jd] z(1) m(2)]
    let ?z = "z\<lparr>dict := d, ix2s := write_twobit_run (ix2s z) i m j\<rparr>"
    have r: "read_twobit_array (ix2s ?z) k = (if i \<le> k \<and> k < i + m then of_nat j else read_twobit_array (ix2s z) k)"
      "length (ix2s ?z) = 16" for k
      using fold_write_twobit [of m i "ix2s z" j] z(2) len D(1) by auto
    have uj: "unat (of_nat j :: UChar) = j" using D(1) by (simp add: unsigned_of_nat take_bit_nat_eq_self)
    have lt: "unat (read_twobit_array arr k) < 4" for arr k
      using read_twobit_less [of arr k] by (simp add: word_less_nat_alt)
    have old: "lineZ_val ?z k = lineZ_val z k" if "k < i" for k
      using that z(3) D(4) lt unfolding lineZ_val_def r(1) by auto
    have new: "lineZ_val ?z k = sv" if "i \<le> k" "k < i + m" for k
      using that uj D(2) unfolding lineZ_val_def r(1) by simp
    have "lineZ_ok (i + m) ?z" using z old new D r m(2) by (auto simp: lineZ_ok_def) (metis leI)
    have d0: "d ! 0 \<noteq> SVal_INVALID"
      using Some jd m(2) z(1) Cons.prems(4) D(4) [of 0]
      by (cases "dict z ! 0 = SVal_INVALID") (auto simp: dict_slot_def split: if_splits)
    from Cons.IH [OF _ \<open>lineZ_ok (i + m) ?z\<close> len] Cons.prems(1) d0 obtain i' z' where
      1: "compress_loop cs (i + m) ?z = Some (i', z')" "lineZ_ok i' z'" "i + m \<le> i'" "i' \<le> i + m + length (expand cs)"
      "\<forall>k<i + m. lineZ_val z' k = lineZ_val ?z k" "\<forall>k. i + m \<le> k \<and> k < i' \<longrightarrow> lineZ_val z' k = expand cs ! (k - (i + m))"
      "d ! 0 \<noteq> SVal_INVALID \<longrightarrow> dict z' ! 0 = d ! 0" "set (dict z') \<subseteq> set d \<union> set (expand cs)"
      by auto
    have e: "expand (c # cs) = replicate m sv @ expand cs" by (simp add: expand_def c)
    show ?thesis
    proof (intro exI [of _ i'] exI [of _ z'] conjI)
      show "compress_loop (c # cs) i z = Some (i', z')" using 1(1) Some m(1) by (auto simp: c jd)
      show "lineZ_ok i' z'" "i \<le> i'" "i' \<le> i + length (expand (c # cs))" using 1 by (auto simp: e)
      show "\<forall>k<i. lineZ_val z' k = lineZ_val z k" using 1(5) old by simp
      show "\<forall>k. i \<le> k \<and> k < i' \<longrightarrow> lineZ_val z' k = expand (c # cs) ! (k - i)"
        using 1(5,6) new by (auto simp: e nth_append)
      show "dict z ! 0 \<noteq> SVal_INVALID \<or> i' = i \<or> dict z' ! 0 \<noteq> SVal_INVALID" using 1(7) d0 by simp
      show "dict z ! 0 \<noteq> SVal_INVALID \<longrightarrow> dict z' ! 0 = dict z ! 0" using 1(7) d0 D(4) [of 0] by simp
      show "set (dict z') \<subseteq> set (dict z) \<union> set (expand (c # cs))" using 1(8) D(6) m(1) by (auto simp: e)
    qed
  qed
qed

lemma fold_fill:
  "i + m \<le> length w \<Longrightarrow> fold (\<lambda>k w. w[i + k := sv]) [0..<m] w = take i w @ replicate m sv @ drop (i + m) w"
proof (induction m)
  case (Suc m)
  then have "fold (\<lambda>k w. w[i + k := sv]) [0..<m] w = take i w @ replicate m sv @ drop (i + m) w" by simp
  moreover have "drop (i + m) w = w ! (i + m) # drop (i + Suc m) w" using Suc.prems by (simp add: Cons_nth_drop_Suc)
  ultimately show ?case using Suc.prems by (simp add: list_update_append replicate_append_same)
qed simp

lemma fill_spec:
  "i + length (expand cs) \<le> length w \<Longrightarrow>
   fill_loop cs i w = (i + length (expand cs), take i w @ expand cs @ drop (i + length (expand cs)) w)"
proof (induction cs arbitrary: i w)
  case (Cons c cs)
  obtain m sv where c: "c = (m, sv)" by (cases c)
  have e: "expand (c # cs) = replicate m sv @ expand cs" by (simp add: expand_def c)
  have im: "i + m \<le> length w" using Cons.prems by (simp add: e)
  let ?w = "take i w @ replicate m sv @ drop (i + m) w"
  have "fill_loop cs (i + m) ?w = (i + m + length (expand cs), take (i + m) ?w @ expand cs @ drop (i + m + length (expand cs)) ?w)"
    using Cons.prems im by (intro Cons.IH) (simp add: e)
  then show ?case unfolding c fill_loop.simps fold_fill [OF im] using Cons.prems im
    by (simp add: e [unfolded c] ac_simps)
qed (simp add: expand_def)

section \<open>The bytes of a line\<close>

definition cl_bytes :: "CacheLine \<Rightarrow> SVal list" where
  "cl_bytes cl = concat (map (\<lambda>tno. tree_bytes (cl_tree cl tno)) [0..<8])"

definition cl_ok :: "CacheLine \<Rightarrow> bool" where
  "cl_ok cl \<longleftrightarrow> length (descrs cl) = 8 \<and> length (svals cl) = 64 \<and> is_sane_CacheLine cl"

lemma length_cl_tree: "length (svals cl) = 64 \<Longrightarrow> tno < 8 \<Longrightarrow> length (cl_tree cl tno) = 8"
  by (simp add: cl_tree_def)

lemma cl_tree_nth: "length (svals cl) = 64 \<Longrightarrow> k < 8 \<Longrightarrow> i < 8 \<Longrightarrow> cl_tree cl k ! i = svals cl ! (8 * k + i)"
  by (simp add: cl_tree_def)

lemma cl_ok_tree: "cl_ok cl \<Longrightarrow> tno < 8 \<Longrightarrow>
   is_sane_Descr_and_Tree (descrs cl ! tno) (cl_tree cl tno) \<and> length (cl_tree cl tno) = 8"
  by (simp add: cl_ok_def is_sane_CacheLine_def N_LINE_TREES_def list_all_iff length_cl_tree)

lemma concat_8_nth:
  assumes "\<And>k. k < n \<Longrightarrow> length (f k) = 8" "i < 8 * n"
  shows "concat (map f [0..<n]) ! i = f (i div 8) ! (i mod 8)" "length (concat (map f [0..<n])) = 8 * n"
proof -
  have "length (concat (map f [0..<n])) = 8 * n \<and> (\<forall>i<8 * n. concat (map f [0..<n]) ! i = f (i div 8) ! (i mod 8))"
    using assms(1)
  proof (induction n)
    case (Suc n)
    then have IH: "length (concat (map f [0..<n])) = 8 * n"
      "\<forall>i<8 * n. concat (map f [0..<n]) ! i = f (i div 8) ! (i mod 8)" by auto
    moreover have "length (f n) = 8" using Suc.prems by simp
    moreover have "i div 8 = n" "i mod 8 = i - 8 * n" if "8 * n \<le> i" "i < 8 * Suc n" for i
      using that div_mod_decomp [of i 8] by (simp_all add: div_nat_eqI minus_mult_div_eq_mod [symmetric])
    ultimately show ?case by (auto simp: nth_append)
  qed simp
  with assms(2) show "concat (map f [0..<n]) ! i = f (i div 8) ! (i mod 8)" "length (concat (map f [0..<n])) = 8 * n" by auto
qed

lemma length_cl_bytes: "length (svals cl) = 64 \<Longrightarrow> length (cl_bytes cl) = 64"
  using concat_8_nth(2) [of 8 "\<lambda>tno. tree_bytes (cl_tree cl tno)" 0] length_cl_tree [of cl] by (simp add: cl_bytes_def)

lemma cl_bytes_nth: "length (svals cl) = 64 \<Longrightarrow> i < 64 \<Longrightarrow> cl_bytes cl ! i = tree_bytes (cl_tree cl (i div 8)) ! (i mod 8)"
  using concat_8_nth(1) [of 8 "\<lambda>tno. tree_bytes (cl_tree cl tno)" i] length_cl_tree [of cl] by (simp add: cl_bytes_def)

lemma bytes_valid:
  assumes "cl_ok cl" "i < 64" shows "cl_bytes cl ! i \<noteq> SVal_INVALID"
proof -
  let ?d = "descrs cl ! (i div 8)" and ?t = "cl_tree cl (i div 8)"
  have t: "is_sane_Descr_and_Tree ?d ?t" "length ?t = 8" using cl_ok_tree [OF assms(1), of "i div 8"] assms(2) by auto
  have "governs ?t (gov_ix ?d (i mod 8)) (i mod 8)" using gov_ix_governs [OF t(1)] by simp
  then show ?thesis using spread_governs [of ?t _ "i mod 8"] t(2) assms cl_bytes_nth [of cl i]
    by (auto simp: governs_def cl_ok_def)
qed

lemma cl_tree_put:
  assumes "length (svals cl) = 64" "length (snd dt) = 8" "tno < 8" "k < 8"
  shows "cl_tree (put_tree tno dt cl) k = (if k = tno then snd dt else cl_tree cl k)"
    "length (svals (put_tree tno dt cl)) = 64"
proof -
  have "cl_tree (put_tree tno dt cl) k = snd dt" if "k = tno"
    using that assms by (simp add: cl_tree_def put_tree_def)
  moreover have "cl_tree (put_tree tno dt cl) k = cl_tree cl k" if "k \<noteq> tno"
  proof (rule nth_equalityI)
    have l: "length (svals (put_tree tno dt cl)) = 64" using assms by (simp add: put_tree_def)
    then show "length (cl_tree (put_tree tno dt cl) k) = length (cl_tree cl k)" using assms by (simp add: length_cl_tree)
    fix i assume "i < length (cl_tree (put_tree tno dt cl) k)"
    then have "i < 8" using assms l by (simp add: length_cl_tree)
    moreover have "\<not> (8 * tno \<le> 8 * k + i \<and> 8 * k + i < 8 * tno + 8)" using that \<open>i < 8\<close> by linarith
    moreover have "svals (put_tree tno dt cl) ! n = svals cl ! n" if "n < 64" "\<not> (8 * tno \<le> n \<and> n < 8 * tno + 8)" for n
      using that assms by (auto simp: put_tree_def nth_append)
    ultimately show "cl_tree (put_tree tno dt cl) k ! i = cl_tree cl k ! i"
      using assms l by (simp add: cl_tree_nth)
  qed
  ultimately show "cl_tree (put_tree tno dt cl) k = (if k = tno then snd dt else cl_tree cl k)" by simp
  show "length (svals (put_tree tno dt cl)) = 64" using assms by (simp add: put_tree_def)
qed

lemma put_tree_ok:
  assumes "cl_ok cl" "length (snd dt) = 8" "tno < 8" "is_sane_Descr_and_Tree (fst dt) (snd dt)"
  shows "cl_ok (put_tree tno dt cl)"
    "i < 64 \<Longrightarrow> cl_bytes (put_tree tno dt cl) ! i = (if i div 8 = tno then tree_bytes (snd dt) ! (i mod 8) else cl_bytes cl ! i)"
proof -
  have l: "length (svals cl) = 64" "length (descrs cl) = 8" using assms(1) by (auto simp: cl_ok_def)
  note P = cl_tree_put [OF l(1) assms(2,3)]
  show "cl_ok (put_tree tno dt cl)"
    using cl_ok_tree [OF assms(1)] assms P(1) P(2) [of 0] l
    by (auto simp: cl_ok_def is_sane_CacheLine_def N_LINE_TREES_def list_all_iff nth_list_update)
      (auto simp: put_tree_def nth_list_update)
  show "i < 64 \<Longrightarrow> cl_bytes (put_tree tno dt cl) ! i = (if i div 8 = tno then tree_bytes (snd dt) ! (i mod 8) else cl_bytes cl ! i)"
    using cl_bytes_nth [of "put_tree tno dt cl" i] cl_bytes_nth [of cl i] P(1) [of "i div 8"] P(2) [of 0] l by simp
qed

lemma sequentialise_CacheLine_spec:
  assumes "cl_ok cl"
  shows "\<exists>cs. sequentialise_CacheLine cl = Some cs \<and> expand cs = cl_bytes cl \<and> cs \<noteq> [] \<and> length cs \<le> 64 \<and>
     (\<forall>(n, s)\<in>set cs. n \<in> {1, 2, 4, 8} \<and> s \<noteq> SVal_INVALID)"
proof -
  let ?f = "\<lambda>tno. sequentialise_tree (descrs cl ! tno) (cl_tree cl tno)"
  let ?cs = "concat (map ?f [0..<8])"
  have t: "expand (?f tno) = tree_bytes (cl_tree cl tno)" "\<forall>(n, s)\<in>set (?f tno). n \<in> {1, 2, 4, 8} \<and> s \<noteq> SVal_INVALID"
    if "tno < 8" for tno
    using sequentialise_spec [of "descrs cl ! tno" "cl_tree cl tno"] cl_ok_tree [OF assms that] by auto
  have "expand (concat (map ?f xs)) = concat (map (\<lambda>tno. expand (?f tno)) xs)" for xs
    by (induction xs) (simp_all add: expand_def)
  moreover have "map (\<lambda>tno. expand (?f tno)) [0..<8] = map (\<lambda>tno. tree_bytes (cl_tree cl tno)) [0..<8]"
    using t(1) by (intro map_cong) auto
  ultimately have e: "expand ?cs = cl_bytes cl" by (simp only: cl_bytes_def)
  have v: "\<forall>(n, s)\<in>set ?cs. n \<in> {1, 2, 4, 8} \<and> s \<noteq> SVal_INVALID" using t(2) by fastforce
  have l64: "length (cl_bytes cl) = 64" using assms length_cl_bytes by (simp add: cl_ok_def)
  have "\<forall>(n, s)\<in>set cs. 1 \<le> n \<Longrightarrow> length cs \<le> length (expand cs)" for cs
    by (induction cs) (auto simp: expand_def)
  from this [of ?cs] v have "length ?cs \<le> 64" using e l64 by force
  moreover have "expand [] = []" by (simp add: expand_def)
  then have "?cs \<noteq> []" using e l64 by (metis list.size(3) zero_neq_numeral)
  ultimately show ?thesis using e v by (simp add: sequentialise_CacheLine_def N_LINE_TREES_def N_LINE_ARANGE_def Let_def)
qed

section \<open>Offsets of an address in its line\<close>

definition aligned16 :: "Addr \<Rightarrow> bool" where "aligned16 a \<longleftrightarrow> a AND 1 = 0"
definition aligned32 :: "Addr \<Rightarrow> bool" where "aligned32 a \<longleftrightarrow> a AND 3 = 0"
definition aligned64 :: "Addr \<Rightarrow> bool" where "aligned64 a \<longleftrightarrow> a AND 7 = 0"

definition get_cacheline_offset :: "Addr \<Rightarrow> nat" where
  "get_cacheline_offset a = unat (a AND (of_nat N_LINE_ARANGE - 1))"

definition get_treeno :: "Addr \<Rightarrow> nat" where
  "get_treeno a = drop_bit 3 (get_cacheline_offset a)"

definition get_tree_offset :: "Addr \<Rightarrow> nat" where
  "get_tree_offset a = unat (a AND 7)"

lemma unat_and_mask: "unat (a AND mask n :: Addr) = unat a mod 2 ^ n"
  by (simp only: take_bit_eq_mask [symmetric] unsigned_take_bit_eq) (simp add: take_bit_eq_mod)

lemma and_mask_mod: "unat (a AND 1 :: Addr) = unat a mod 2" "unat (a AND 3 :: Addr) = unat a mod 4"
  "unat (a AND 7 :: Addr) = unat a mod 8" "unat (a AND 63 :: Addr) = unat a mod 64"
  "unat (a AND 8191 :: Addr) = unat a mod 8192" "unat (a AND 65535 :: Addr) = unat a mod 65536"
  using unat_and_mask [of a 1] unat_and_mask [of a 2] unat_and_mask [of a 3] unat_and_mask [of a 6]
    unat_and_mask [of a 13] unat_and_mask [of a 16] by (simp_all add: mask_eq_exp_minus_1)

lemma offset_mod: "get_cacheline_offset a = unat a mod 64"
  by (simp add: get_cacheline_offset_def N_LINE_ARANGE_def and_mask_mod)

lemma treeno_div: "get_treeno a = get_cacheline_offset a div 8"
  by (simp add: get_treeno_def drop_bit_eq_div)

lemma tree_offset_mod: "get_tree_offset a = get_cacheline_offset a mod 8"
  by (simp add: get_tree_offset_def and_mask_mod offset_mod mod_mod_cancel)

lemma offset_less: "get_cacheline_offset a < 64"
  by (simp add: offset_mod)

lemma aligned_mod: "aligned16 a \<longleftrightarrow> unat a mod 2 = 0" "aligned32 a \<longleftrightarrow> unat a mod 4 = 0" "aligned64 a \<longleftrightarrow> unat a mod 8 = 0"
  by (simp_all add: aligned16_def aligned32_def aligned64_def and_mask_mod [symmetric] unat_eq_0)

section \<open>Accesses inside a line\<close>

text \<open>
  The parts of the accessors of the shadow memory that work on the cache line of the address \<open>a\<close>.
  First, splitting nodes until byte \<open>a\<close> has a node of its own.
\<close>

definition line_split8 :: "Addr \<Rightarrow> CacheLine \<Rightarrow> CacheLine option" where
  "line_split8 a cl =
     (let tno = get_treeno a; toff = get_tree_offset a; descr = descrs cl ! tno in
      if descr AND push_bit toff TREE_DESCR_8_0 = 0
      then do { dt \<leftarrow> pulldown_to_8 (cl_tree cl tno) toff descr; Some (put_tree tno dt cl) }
      else Some cl)"

text \<open>
  The nodes for the accesses of 16, 32 and 64 bits: the inner \<^term>\<open>None\<close> is the jump to \<^verbatim>\<open>slowcase\<close>.
\<close>

definition line_node16 :: "Addr \<Rightarrow> CacheLine \<Rightarrow> CacheLine option option" where
  "line_node16 a cl =
     (let tno = get_treeno a; toff = get_tree_offset a; descr = descrs cl ! tno in
      if descr AND push_bit toff TREE_DESCR_16_0 = 0
      then do {
        below \<leftarrow> valid_value_is_below_me_16 descr toff;
        if below then Some None
        else do { dt \<leftarrow> pulldown_to_16 (cl_tree cl tno) toff descr; Some (Some (put_tree tno dt cl)) }
      }
      else Some (Some cl))"

definition line_node32 :: "Addr \<Rightarrow> CacheLine \<Rightarrow> CacheLine option option" where
  "line_node32 a cl =
     (let tno = get_treeno a; toff = get_tree_offset a; descr = descrs cl ! tno in
      if descr AND push_bit toff TREE_DESCR_32_0 = 0
      then do {
        above \<leftarrow> valid_value_is_above_me_32 descr toff;
        if above then do { dt \<leftarrow> pulldown_to_32 (cl_tree cl tno) toff descr; Some (Some (put_tree tno dt cl)) }
        else Some None
      }
      else Some (Some cl))"

definition line_node64 :: "Addr \<Rightarrow> CacheLine \<Rightarrow> CacheLine option option" where
  "line_node64 a cl =
     (if descrs cl ! get_treeno a AND TREE_DESCR_64 = 0 then Some None else Some (Some cl))"

text \<open>The stores to the slots of the line: the value, and \<^verbatim>\<open>SVal_INVALID\<close> behind it.\<close>

definition put_sval :: "nat \<Rightarrow> SVal \<Rightarrow> CacheLine \<Rightarrow> CacheLine" where
  "put_sval cloff sv cl = cl\<lparr>svals := (svals cl)[cloff := sv]\<rparr>"

definition line_write8 :: "Addr \<Rightarrow> SVal \<Rightarrow> CacheLine \<Rightarrow> CacheLine option" where
  "line_write8 a svNew cl =
     do {
       cl \<leftarrow> line_split8 a cl;
       tl_assert (svNew \<noteq> SVal_INVALID);
       Some (put_sval (get_cacheline_offset a) svNew cl)
     }"

text \<open>Before a write of 16 or 32 bits: splitting the nodes above, or putting the node in place of those below.\<close>

definition line_fix16 :: "Addr \<Rightarrow> CacheLine \<Rightarrow> CacheLine option" where
  "line_fix16 a cl =
     (let tno = get_treeno a; toff = get_tree_offset a; descr = descrs cl ! tno in
      if descr AND push_bit toff TREE_DESCR_16_0 = 0
      then do {
        below \<leftarrow> valid_value_is_below_me_16 descr toff;
        if below
        then do { descr \<leftarrow> pullup_descr_to_16 descr toff; Some (cl\<lparr>descrs := (descrs cl)[tno := descr]\<rparr>) }
        else do { dt \<leftarrow> pulldown_to_16 (cl_tree cl tno) toff descr; Some (put_tree tno dt cl) }
      }
      else Some cl)"

definition line_write16 :: "Addr \<Rightarrow> SVal \<Rightarrow> CacheLine \<Rightarrow> CacheLine option" where
  "line_write16 a svNew cl =
     do {
       let cloff = get_cacheline_offset a;
       cl \<leftarrow> line_fix16 a cl;
       tl_assert (svNew \<noteq> SVal_INVALID);
       Some (fold (\<lambda>k. put_sval (cloff + k) SVal_INVALID) [1] (put_sval (cloff + 0) svNew cl))
     }"

definition line_fix32 :: "Addr \<Rightarrow> CacheLine \<Rightarrow> CacheLine option" where
  "line_fix32 a cl =
     (let tno = get_treeno a; toff = get_tree_offset a; descr = descrs cl ! tno in
      if descr AND push_bit toff TREE_DESCR_32_0 = 0
      then do {
        above \<leftarrow> valid_value_is_above_me_32 descr toff;
        if above
        then do { dt \<leftarrow> pulldown_to_32 (cl_tree cl tno) toff descr; Some (put_tree tno dt cl) }
        else do { descr \<leftarrow> pullup_descr_to_32 descr toff; Some (cl\<lparr>descrs := (descrs cl)[tno := descr]\<rparr>) }
      }
      else Some cl)"

definition line_write32 :: "Addr \<Rightarrow> SVal \<Rightarrow> CacheLine \<Rightarrow> CacheLine option" where
  "line_write32 a svNew cl =
     do {
       let cloff = get_cacheline_offset a;
       cl \<leftarrow> line_fix32 a cl;
       tl_assert (svNew \<noteq> SVal_INVALID);
       Some (fold (\<lambda>k. put_sval (cloff + k) SVal_INVALID) [1, 2, 3] (put_sval (cloff + 0) svNew cl))
     }"

definition line_write64 :: "Addr \<Rightarrow> SVal \<Rightarrow> CacheLine \<Rightarrow> CacheLine option" where
  "line_write64 a svNew cl =
     do {
       let cloff = get_cacheline_offset a;
       let cl = cl\<lparr>descrs := (descrs cl)[get_treeno a := TREE_DESCR_64]\<rparr>;
       tl_assert (svNew \<noteq> SVal_INVALID);
       Some (fold (\<lambda>k. put_sval (cloff + k) SVal_INVALID) [1, 2, 3, 4, 5, 6, 7] (put_sval (cloff + 0) svNew cl))
     }"

lemma write_line:
  assumes cl: "cl_ok cl" and c: "c < 64" and w: "write_ok (descrs cl ! (c div 8)) d' (c mod 8) n" and v: "v \<noteq> SVal_INVALID"
    and d: "descrs cl' = (descrs cl)[c div 8 := d']" and l: "length (svals cl') = 64"
    and s: "\<And>i. i < 64 \<Longrightarrow> svals cl' ! i = (if i = c then v else if c < i \<and> i < c + n then SVal_INVALID else svals cl ! i)"
  shows "cl_ok cl'" "i < 64 \<Longrightarrow> cl_bytes cl' ! i = (if c \<le> i \<and> i < c + n then v else cl_bytes cl ! i)"
proof -
  have len: "length (svals cl) = 64" "length (descrs cl) = 8" using cl by (auto simp: cl_ok_def)
  have n: "c mod 8 + n \<le> 8" using w by (simp add: write_ok_def)
  let ?k = "c div 8"
  have k: "?k < 8" using c by simp
  have c_eq: "8 * ?k + c mod 8 = c" by simp
  have t: "is_sane_Descr_and_Tree (descrs cl ! ?k) (cl_tree cl ?k)" "length (cl_tree cl ?k) = 8"
    using cl_ok_tree [OF cl k] by auto
  have t': "length (cl_tree cl' ?k) = 8" using length_cl_tree [OF l k] .
  have nth: "cl_tree cl' ?k ! i = (if i = c mod 8 then v else if c mod 8 < i \<and> i < c mod 8 + n then SVal_INVALID
      else cl_tree cl ?k ! i)" if "i < 8" for i
  proof -
    have "8 * ?k + i < 64" "8 * ?k + i = c \<longleftrightarrow> i = c mod 8" "c < 8 * ?k + i \<longleftrightarrow> c mod 8 < i"
      "8 * ?k + i < c + n \<longleftrightarrow> i < c mod 8 + n" using c_eq k that by linarith+
    then show ?thesis using s [of "8 * ?k + i"] that k l len by (simp add: cl_tree_nth)
  qed
  note W = write_node [OF t t' w v nth]
  have other: "cl_tree cl' m = cl_tree cl m" if "m < 8" "m \<noteq> ?k" for m
  proof (rule nth_equalityI)
    fix i assume "i < length (cl_tree cl' m)"
    then have "i < 8" using length_cl_tree [OF l that(1)] by simp
    moreover have "\<not> (c \<le> 8 * m + i \<and> 8 * m + i < c + n)"
      using that n c_eq \<open>i < 8\<close> by (cases "m < ?k") linarith+
    ultimately show "cl_tree cl' m ! i = cl_tree cl m ! i" using s [of "8 * m + i"] that l len n
      by (auto simp: cl_tree_nth split: if_splits)
  qed (use length_cl_tree l len that in simp)
  have "is_sane_Descr_and_Tree (descrs cl' ! m) (cl_tree cl' m)" if "m < 8" for m
    using W(1) other [of m] that cl_ok_tree [OF cl, of m] len k unfolding d by (cases "m = ?k") auto
  then show "cl_ok cl'" using l len d by (simp add: cl_ok_def is_sane_CacheLine_def N_LINE_TREES_def list_all_iff)
  assume i: "i < 64"
  show "cl_bytes cl' ! i = (if c \<le> i \<and> i < c + n then v else cl_bytes cl ! i)"
  proof (cases "i div 8 = ?k")
    case True
    have "8 * ?k + i mod 8 = i" using True by (metis mult_div_mod_eq)
    then have "c \<le> i \<longleftrightarrow> c mod 8 \<le> i mod 8" "i < c + n \<longleftrightarrow> i mod 8 < c mod 8 + n" using c_eq by linarith+
    then show ?thesis using cl_bytes_nth [OF l i] cl_bytes_nth [OF len(1) i] W(2) [of "i mod 8"] True by simp
  next
    case False
    have "8 * (i div 8) + i mod 8 = i" "i mod 8 < 8" by simp_all
    then have "\<not> (c \<le> i \<and> i < c + n)" using False n c_eq by (cases "i div 8 < ?k") linarith+
    then show ?thesis using cl_bytes_nth [OF l i] cl_bytes_nth [OF len(1) i] other [of "i div 8"] False i by auto
  qed
qed

lemma put_sval_fold:
  "c + length ks < length (svals cl) \<Longrightarrow> ks = [1..<Suc (length ks)] \<Longrightarrow>
   descrs (fold (\<lambda>k. put_sval (c + k) SVal_INVALID) ks (put_sval (c + 0) v cl)) = descrs cl \<and>
   length (svals (fold (\<lambda>k. put_sval (c + k) SVal_INVALID) ks (put_sval (c + 0) v cl))) = length (svals cl) \<and>
   (\<forall>i<length (svals cl). svals (fold (\<lambda>k. put_sval (c + k) SVal_INVALID) ks (put_sval (c + 0) v cl)) ! i =
      (if i = c then v else if c < i \<and> i < c + Suc (length ks) then SVal_INVALID else svals cl ! i))"
proof (induction ks rule: rev_induct)
  case (snoc k ks)
  have "[1..<Suc (length (ks @ [k]))] = [1..<Suc (length ks)] @ [Suc (length ks)]" by simp
  with snoc.prems(2) have k: "ks = [1..<Suc (length ks)]" "k = Suc (length ks)" by (metis append1_eq_conv)+
  from snoc.IH [OF _ k(1)] snoc.prems(1) show ?case
    by (auto simp: put_sval_def k(2) nth_list_update)
qed (simp add: put_sval_def nth_list_update)

text \<open>A node of \<open>n\<close> bytes at offset \<open>c\<close> of the line is in use.\<close>

definition node_at :: "CacheLine \<Rightarrow> nat \<Rightarrow> nat \<Rightarrow> bool" where
  "node_at cl c n \<longleftrightarrow> write_ok (descrs cl ! (c div 8)) (descrs cl ! (c div 8)) (c mod 8) n"

lemma node_at_bytes:
  assumes "cl_ok cl" "c < 64" "node_at cl c n" "c \<le> i" "i < c + n"
  shows "cl_bytes cl ! i = svals cl ! c" "svals cl ! c \<noteq> SVal_INVALID" "c < i \<Longrightarrow> svals cl ! i = SVal_INVALID" "i < 64"
proof -
  let ?k = "c div 8"
  have n: "c mod 8 + n \<le> 8" using assms(3) by (simp add: node_at_def write_ok_def)
  have c_eq: "8 * ?k + c mod 8 = c" by simp
  have j: "8 * ?k \<le> i" "i < 8 * ?k + 8" using assms(4,5) n c_eq by linarith+
  then have ij: "i div 8 = ?k" "i mod 8 = i - 8 * ?k" by (simp_all add: div_nat_eqI minus_mult_div_eq_mod [symmetric])
  have "?k < 8" using assms(2) by simp
  with j show "i < 64" by linarith
  have t: "is_sane_Descr_and_Tree (descrs cl ! ?k) (cl_tree cl ?k)" "length (cl_tree cl ?k) = 8" "?k < 8"
    using cl_ok_tree [OF assms(1), of ?k] assms(2) by auto
  have l: "length (svals cl) = 64" using assms(1) by (simp add: cl_ok_def)
  have r: "c mod 8 \<le> i mod 8" "i mod 8 < c mod 8 + n" using assms(4,5) ij c_eq by linarith+
  note N = node_value [OF t(1,2) assms(3) [unfolded node_at_def] r]
  show "cl_bytes cl ! i = svals cl ! c" "svals cl ! c \<noteq> SVal_INVALID"
    using N(1,2) cl_bytes_nth [OF l \<open>i < 64\<close>] cl_tree_nth [OF l t(3), of "c mod 8"] ij by simp_all
  show "svals cl ! i = SVal_INVALID" if "c < i"
  proof -
    have "c mod 8 < i mod 8" "8 * ?k + i mod 8 = i" using that ij j c_eq by linarith+
    then show ?thesis using N(3) cl_tree_nth [OF l t(3), of "i mod 8"] by simp
  qed
qed

lemma node_update:
  assumes "cl_ok cl" "c < 64" "node_at cl c n" "v \<noteq> SVal_INVALID"
  shows "cl_ok (put_sval c v cl)"
    "i < 64 \<Longrightarrow> cl_bytes (put_sval c v cl) ! i = (if c \<le> i \<and> i < c + n then v else cl_bytes cl ! i)"
proof -
  have s: "svals (put_sval c v cl) ! i = (if i = c then v else if c < i \<and> i < c + n then SVal_INVALID else svals cl ! i)"
    if "i < 64" for i
    using node_at_bytes(3) [OF assms(1-3), of i] assms(1) that by (auto simp: put_sval_def cl_ok_def nth_list_update)
  have d: "descrs (put_sval c v cl) = (descrs cl)[c div 8 := descrs cl ! (c div 8)]" "length (svals (put_sval c v cl)) = 64"
    using assms(1) by (simp_all add: put_sval_def cl_ok_def)
  note W = write_line [OF assms(1,2) assms(3) [unfolded node_at_def] assms(4) d s]
  show "cl_ok (put_sval c v cl)" by (rule W(1))
  show "i < 64 \<Longrightarrow> cl_bytes (put_sval c v cl) ! i = (if c \<le> i \<and> i < c + n then v else cl_bytes cl ! i)" by (rule W(2))
qed

text \<open>Splitting nodes of the tree of an address keeps the bytes of the line.\<close>

lemma put_same_bytes:
  assumes "cl_ok cl" "k < 8" "same_bytes (cl_tree cl k) dt"
  shows "cl_ok (put_tree k dt cl)" "cl_bytes (put_tree k dt cl) = cl_bytes cl" "descrs (put_tree k dt cl) ! k = fst dt"
proof -
  have dt: "length (snd dt) = 8" "is_sane_Descr_and_Tree (fst dt) (snd dt)" "tree_bytes (snd dt) = tree_bytes (cl_tree cl k)"
    using assms(3) by (auto simp: same_bytes_def)
  note P = put_tree_ok [OF assms(1) dt(1) assms(2) dt(2)]
  show "cl_ok (put_tree k dt cl)" by (rule P(1))
  have l: "length (svals cl) = 64" "length (svals (put_tree k dt cl)) = 64" "length (descrs cl) = 8"
    using assms(1) P(1) by (auto simp: cl_ok_def)
  show "cl_bytes (put_tree k dt cl) = cl_bytes cl"
    using P(2) dt(3) cl_bytes_nth [OF l(1)] length_cl_bytes l by (intro nth_equalityI) auto
  show "descrs (put_tree k dt cl) ! k = fst dt" using l(3) assms(2) by (simp add: put_tree_def)
qed

section \<open>The accesses inside a line are correct\<close>

lemma tree_of:
  assumes "cl_ok cl"
  shows "get_treeno a < 8" "get_tree_offset a < 8"
    "is_sane_Descr_and_Tree (descrs cl ! get_treeno a) (cl_tree cl (get_treeno a))"
    "same_bytes (cl_tree cl (get_treeno a)) (descrs cl ! get_treeno a, cl_tree cl (get_treeno a))"
proof -
  show k: "get_treeno a < 8" "get_tree_offset a < 8" using offset_less [of a] by (simp_all add: treeno_div tree_offset_mod)
  from cl_ok_tree [OF assms k(1)] show "is_sane_Descr_and_Tree (descrs cl ! get_treeno a) (cl_tree cl (get_treeno a))"
    "same_bytes (cl_tree cl (get_treeno a)) (descrs cl ! get_treeno a, cl_tree cl (get_treeno a))"
    by (auto simp: same_bytes_def)
qed

definition line_same :: "CacheLine \<Rightarrow> CacheLine \<Rightarrow> bool" where
  "line_same cl cl' \<longleftrightarrow> cl_ok cl' \<and> cl_bytes cl' = cl_bytes cl"

lemma node_at_address: "node_at cl (get_cacheline_offset a) n \<longleftrightarrow>
   write_ok (descrs cl ! get_treeno a) (descrs cl ! get_treeno a) (get_tree_offset a) n"
  by (simp add: node_at_def treeno_div tree_offset_mod)

text \<open>From the specification of a split to the line.\<close>

lemma line_split:
  assumes "cl_ok cl" "same_bytes (cl_tree cl (get_treeno a)) (d', t')"
    "is_sane_Descr_and_Tree d' t' \<Longrightarrow> write_ok d' d' (get_tree_offset a) n"
  shows "line_same cl (put_tree (get_treeno a) (d', t') cl)"
    "node_at (put_tree (get_treeno a) (d', t') cl) (get_cacheline_offset a) n"
  using put_same_bytes [OF assms(1) tree_of(1) [OF assms(1)] assms(2)] same_bytes_sane [OF assms(2)] assms(3)
  by (auto simp: line_same_def node_at_address)

lemma node8: "is_sane_Descr_and_Tree d t \<Longrightarrow> toff < 8 \<Longrightarrow> d AND push_bit toff TREE_DESCR_8_0 \<noteq> 0 \<Longrightarrow> write_ok d d toff 1"
  using by_cases_of_descr [OF _ node_8_all] by (auto simp: list_all_iff)

lemma node16: "is_sane_Descr_and_Tree d t \<Longrightarrow> toff \<in> {0, 2, 4, 6} \<Longrightarrow> d AND push_bit toff TREE_DESCR_16_0 \<noteq> 0 \<Longrightarrow>
   write_ok d d toff 2"
  using by_cases_of_descr [OF _ node_16_all] by (auto simp: list_all_iff)

lemma node32: "is_sane_Descr_and_Tree d t \<Longrightarrow> toff \<in> {0, 4} \<Longrightarrow> d AND push_bit toff TREE_DESCR_32_0 \<noteq> 0 \<Longrightarrow>
   write_ok d d toff 4"
  using by_cases_of_descr [OF _ node_32_64_all] by (auto simp: list_all_iff)

lemma node64: "is_sane_Descr_and_Tree d t \<Longrightarrow> d AND TREE_DESCR_64 \<noteq> 0 \<Longrightarrow> write_ok d d 0 8"
  "is_sane_Descr_and_Tree d t \<Longrightarrow> write_ok d TREE_DESCR_64 0 8"
  using by_cases_of_descr [OF _ node_32_64_all] by (auto simp: list_all_iff)

lemma line_split8_spec:
  assumes "cl_ok cl"
  shows "\<exists>cl'. line_split8 a cl = Some cl' \<and> line_same cl cl' \<and> node_at cl' (get_cacheline_offset a) 1"
proof (cases "descrs cl ! get_treeno a AND push_bit (get_tree_offset a) TREE_DESCR_8_0 = 0")
  case True
  from pulldown_8_spec [OF tree_of(4,2) [OF assms] True] obtain d' t' where
    p: "pulldown_to_8 (cl_tree cl (get_treeno a)) (get_tree_offset a) (descrs cl ! get_treeno a) = Some (d', t')"
    "same_bytes (cl_tree cl (get_treeno a)) (d', t')" "d' AND push_bit (get_tree_offset a) TREE_DESCR_8_0 \<noteq> 0"
    by blast
  from line_split [OF assms p(2) node8 [OF _ tree_of(2) [OF assms] p(3)]] True p(1)
  show ?thesis by (auto simp: line_split8_def Let_def)
next
  case False
  with node8 [OF tree_of(3,2) [OF assms]] assms show ?thesis
    by (auto simp: line_split8_def Let_def line_same_def node_at_address)
qed

lemma offset16: "aligned16 a \<Longrightarrow> get_tree_offset a \<in> {0, 2, 4, 6}"
proof -
  assume "aligned16 a"
  then have "unat a mod 8 mod 2 = 0" by (simp add: aligned_mod mod_mod_cancel)
  moreover have "get_tree_offset a = unat a mod 8" by (simp add: get_tree_offset_def and_mask_mod)
  moreover have "\<forall>x<8. x mod 2 = (0 :: nat) \<longrightarrow> x \<in> {0, 2, 4, 6}" by code_simp
  ultimately show ?thesis by simp
qed

lemma offset32: "aligned32 a \<Longrightarrow> get_tree_offset a \<in> {0, 4}"
proof -
  assume "aligned32 a"
  then have "unat a mod 8 mod 4 = 0" by (simp add: aligned_mod mod_mod_cancel)
  moreover have "get_tree_offset a = unat a mod 8" by (simp add: get_tree_offset_def and_mask_mod)
  moreover have "\<forall>x<8. x mod 4 = (0 :: nat) \<longrightarrow> x \<in> {0, 4}" by code_simp
  ultimately show ?thesis by simp
qed

lemma offset64: "aligned64 a \<Longrightarrow> get_tree_offset a = 0"
  by (simp add: get_tree_offset_def and_mask_mod aligned_mod)

lemma above16:
  assumes "is_sane_Descr_and_Tree d t" "toff \<in> {0, 2, 4, 6}" "d AND push_bit toff TREE_DESCR_16_0 = 0"
    "valid_value_is_below_me_16 d toff = Some False"
  shows "d AND d32_of toff \<noteq> 0 \<or> d AND TREE_DESCR_64 \<noteq> 0"
proof -
  have all: "list_all (\<lambda>d. list_all (\<lambda>toff. d AND push_bit toff TREE_DESCR_16_0 = 0 \<and>
      valid_value_is_below_me_16 d toff = Some False \<longrightarrow> d AND d32_of toff \<noteq> 0 \<or> d AND TREE_DESCR_64 \<noteq> 0) [0, 2, 4, 6])
    (map fst descr_cases)"
    by (simp add: valid_value_is_below_me_16_def d32_of_def descr_simps)
  from by_cases_of_descr [OF assms(1) all] assms(2-4) show ?thesis by (auto simp: list_all_iff)
qed

lemma below16_Some: "toff \<in> {0, 2, 4, 6} \<Longrightarrow> \<exists>b. valid_value_is_below_me_16 d toff = Some b"
  by (auto simp: valid_value_is_below_me_16_def)

lemma d16_of_even: "toff \<in> {0, 2, 4, 6} \<Longrightarrow> d16_of toff = push_bit toff TREE_DESCR_16_0"
  by (auto simp: d16_of_def)

lemma line_split16:
  assumes cl: "cl_ok cl" and a: "aligned16 a"
    and n: "descrs cl ! get_treeno a AND push_bit (get_tree_offset a) TREE_DESCR_16_0 = 0"
    and b: "valid_value_is_below_me_16 (descrs cl ! get_treeno a) (get_tree_offset a) = Some False"
  shows "\<exists>dt. pulldown_to_16 (cl_tree cl (get_treeno a)) (get_tree_offset a) (descrs cl ! get_treeno a) = Some dt \<and>
     line_same cl (put_tree (get_treeno a) dt cl) \<and> node_at (put_tree (get_treeno a) dt cl) (get_cacheline_offset a) 2"
proof -
  note o = offset16 [OF a]
  from pulldown_16_spec [OF tree_of(4) [OF cl] o above16 [OF tree_of(3) [OF cl] o n b]] obtain d' t' where
    p: "pulldown_to_16 (cl_tree cl (get_treeno a)) (get_tree_offset a) (descrs cl ! get_treeno a) = Some (d', t')"
    "same_bytes (cl_tree cl (get_treeno a)) (d', t')" "d' AND push_bit (get_tree_offset a) TREE_DESCR_16_0 \<noteq> 0"
    using d16_of_even [OF o] by auto
  from line_split [OF cl p(2) node16 [OF _ o p(3)]] p(1) show ?thesis by blast
qed

lemma line_split32:
  assumes cl: "cl_ok cl" and a: "aligned32 a" and ab: "descrs cl ! get_treeno a AND TREE_DESCR_64 \<noteq> 0"
  shows "\<exists>dt. pulldown_to_32 (cl_tree cl (get_treeno a)) (get_tree_offset a) (descrs cl ! get_treeno a) = Some dt \<and>
     line_same cl (put_tree (get_treeno a) dt cl) \<and> node_at (put_tree (get_treeno a) dt cl) (get_cacheline_offset a) 4"
proof -
  note o = offset32 [OF a]
  have o': "get_tree_offset a = 0 \<or> get_tree_offset a = 4" using o by auto
  from pulldown_32_spec [OF tree_of(4) [OF cl] o' ab] obtain d' t' where
    p: "pulldown_to_32 (cl_tree cl (get_treeno a)) (get_tree_offset a) (descrs cl ! get_treeno a) = Some (d', t')"
    "same_bytes (cl_tree cl (get_treeno a)) (d', t')" "d' AND TREE_DESCR_32_0 \<noteq> 0" "d' AND TREE_DESCR_32_1 \<noteq> 0"
    by blast
  have "push_bit 0 TREE_DESCR_32_0 = TREE_DESCR_32_0" "push_bit 4 TREE_DESCR_32_0 = TREE_DESCR_32_1"
    by (simp_all add: TREE_DESCR_defs)
  with o' p(3,4) have "d' AND push_bit (get_tree_offset a) TREE_DESCR_32_0 \<noteq> 0" by auto
  from line_split [OF cl p(2) node32 [OF _ o this]] p(1) show ?thesis by blast
qed

lemma line_same_refl: "cl_ok cl \<Longrightarrow> line_same cl cl"
  by (simp add: line_same_def)

lemma line_node16_spec:
  assumes "cl_ok cl" "aligned16 a"
  shows "\<exists>r. line_node16 a cl = Some r \<and> (\<forall>cl'. r = Some cl' \<longrightarrow> line_same cl cl' \<and> node_at cl' (get_cacheline_offset a) 2)"
proof (cases "descrs cl ! get_treeno a AND push_bit (get_tree_offset a) TREE_DESCR_16_0 = 0")
  case True
  obtain b where b: "valid_value_is_below_me_16 (descrs cl ! get_treeno a) (get_tree_offset a) = Some b"
    using below16_Some [OF offset16 [OF assms(2)]] by blast
  show ?thesis using True b line_split16 [OF assms True] by (cases b) (auto simp: line_node16_def Let_def)
next
  case False
  with node16 [OF tree_of(3) [OF assms(1)] offset16 [OF assms(2)] False] assms(1) show ?thesis
    by (auto simp: line_node16_def Let_def line_same_def node_at_address)
qed

lemma line_node32_spec:
  assumes "cl_ok cl" "aligned32 a"
  shows "\<exists>r. line_node32 a cl = Some r \<and> (\<forall>cl'. r = Some cl' \<longrightarrow> line_same cl cl' \<and> node_at cl' (get_cacheline_offset a) 4)"
proof (cases "descrs cl ! get_treeno a AND push_bit (get_tree_offset a) TREE_DESCR_32_0 = 0")
  case True
  have o: "get_tree_offset a = 0 \<or> get_tree_offset a = 4" using offset32 [OF assms(2)] by auto
  show ?thesis using True o line_split32 [OF assms]
    by (auto simp: line_node32_def Let_def valid_value_is_above_me_32_def)
next
  case False
  with node32 [OF tree_of(3) [OF assms(1)] offset32 [OF assms(2)] False] assms(1) show ?thesis
    by (auto simp: line_node32_def Let_def line_same_def node_at_address)
qed

lemma line_node64_spec:
  assumes "cl_ok cl" "aligned64 a"
  shows "\<exists>r. line_node64 a cl = Some r \<and> (\<forall>cl'. r = Some cl' \<longrightarrow> line_same cl cl' \<and> node_at cl' (get_cacheline_offset a) 8)"
  using node64(1) [OF tree_of(3) [OF assms(1), of a]] assms(1) offset64 [OF assms(2)]
  by (simp add: line_node64_def line_same_def node_at_address)

definition line_wrote :: "nat \<Rightarrow> nat \<Rightarrow> SVal \<Rightarrow> CacheLine \<Rightarrow> CacheLine \<Rightarrow> bool" where
  "line_wrote c n v cl cl' \<longleftrightarrow> cl_ok cl' \<and>
     (\<forall>i<64. cl_bytes cl' ! i = (if c \<le> i \<and> i < c + n then v else cl_bytes cl ! i))"

lemma line_wrote_same: "line_same cl cl1 \<Longrightarrow> line_wrote c n v cl1 cl' \<Longrightarrow> line_wrote c n v cl cl'"
  by (simp add: line_same_def line_wrote_def)

lemma node_update_wrote:
  "cl_ok cl \<Longrightarrow> c < 64 \<Longrightarrow> node_at cl c n \<Longrightarrow> v \<noteq> SVal_INVALID \<Longrightarrow> line_wrote c n v cl (put_sval c v cl)"
  using node_update by (simp add: line_wrote_def)

text \<open>Storing a node over the descriptor \<open>d'\<close> that a write at this level asks for.\<close>

lemma put_node_wrote:
  assumes cl: "cl_ok cl" and d: "write_ok (descrs cl ! get_treeno a) d' (get_tree_offset a) (Suc (length ks))"
    and ks: "ks = [1..<Suc (length ks)]" and v: "v \<noteq> SVal_INVALID"
    and cl1: "descrs cl1 = (descrs cl)[get_treeno a := d']" "svals cl1 = svals cl"
  shows "line_wrote (get_cacheline_offset a) (Suc (length ks)) v cl
     (fold (\<lambda>k. put_sval (get_cacheline_offset a + k) SVal_INVALID) ks (put_sval (get_cacheline_offset a + 0) v cl1))"
proof -
  let ?c = "get_cacheline_offset a"
  have l: "length (svals cl) = 64" using cl by (simp add: cl_ok_def)
  have "get_tree_offset a + Suc (length ks) \<le> 8" using d by (simp add: write_ok_def)
  moreover have "?c < 64" "8 * get_treeno a + get_tree_offset a = ?c" by (simp_all add: offset_less treeno_div tree_offset_mod)
  moreover have "get_treeno a < 8" using tree_of(1) [OF cl] .
  ultimately have "?c + length ks < length (svals cl1)" using l cl1(2) by simp
  note F = put_sval_fold [OF this ks, of v]
  note W = write_line [OF cl \<open>?c < 64\<close> d [unfolded treeno_div tree_offset_mod] v]
  show ?thesis unfolding line_wrote_def using F l cl1 treeno_div [of a] by (intro conjI allI impI W) auto
qed

lemma line_write8_spec:
  assumes "cl_ok cl" "v \<noteq> SVal_INVALID"
  shows "\<exists>cl'. line_write8 a v cl = Some cl' \<and> line_wrote (get_cacheline_offset a) 1 v cl cl'"
proof -
  from line_split8_spec [OF assms(1), of a] obtain cl1 where
    1: "line_split8 a cl = Some cl1" "line_same cl cl1" "node_at cl1 (get_cacheline_offset a) 1" by blast
  have "cl_ok cl1" using 1(2) by (simp add: line_same_def)
  from node_update_wrote [OF this offset_less 1(3) assms(2)] line_wrote_same [OF 1(2)] 1(1) assms(2)
  show ?thesis by (auto simp: line_write8_def)
qed

lemma line_write16_spec:
  assumes "cl_ok cl" "aligned16 a" "v \<noteq> SVal_INVALID"
  shows "\<exists>cl'. line_write16 a v cl = Some cl' \<and> line_wrote (get_cacheline_offset a) 2 v cl cl'"
proof -
  let ?d = "descrs cl ! get_treeno a"
  note o = offset16 [OF assms(2)]
  have ks: "[1] = [1..<Suc (length [1 :: nat])]" by simp
  have put: "line_wrote (get_cacheline_offset a) 2 v cl0 (fold (\<lambda>k. put_sval (get_cacheline_offset a + k) SVal_INVALID) [1]
      (put_sval (get_cacheline_offset a + 0) v cl1))"
    if "cl_ok cl0" "write_ok (descrs cl0 ! get_treeno a) d' (get_tree_offset a) 2"
      "descrs cl1 = (descrs cl0)[get_treeno a := d']" "svals cl1 = svals cl0" for cl0 cl1 d'
    using put_node_wrote [OF that(1) _ ks assms(3) that(3,4)] that(2) by (simp add: numeral_2_eq_2)
  have node: "\<exists>cl'. Some (fold (\<lambda>k. put_sval (get_cacheline_offset a + k) SVal_INVALID) [1]
      (put_sval (get_cacheline_offset a + 0) v cl1)) = Some cl' \<and> line_wrote (get_cacheline_offset a) 2 v cl cl'"
    if "line_same cl cl1" "node_at cl1 (get_cacheline_offset a) 2" for cl1
    using put [of cl1 "descrs cl1 ! get_treeno a" cl1] that line_wrote_same [OF that(1)]
    by (simp add: line_same_def node_at_address)
  show ?thesis
  proof (cases "?d AND push_bit (get_tree_offset a) TREE_DESCR_16_0 = 0")
    case True
    obtain b where b: "valid_value_is_below_me_16 ?d (get_tree_offset a) = Some b" using below16_Some [OF o] by blast
    show ?thesis
    proof (cases b)
      case bT: True
      have "case pullup_descr_to_16 ?d (get_tree_offset a) of None \<Rightarrow> False | Some d' \<Rightarrow> write_ok ?d d' (get_tree_offset a) 2"
        using bspec [OF by_cases_of_descr [OF tree_of(3) [OF assms(1)] pullup_16_all [unfolded list_all_iff [of _ "[0, 2, 4, 6]"]], of a],
            of "get_tree_offset a"] o True b bT by simp
      then obtain d' where d': "pullup_descr_to_16 ?d (get_tree_offset a) = Some d'" "write_ok ?d d' (get_tree_offset a) 2"
        by (simp split: option.splits)
      from put [OF assms(1) d'(2), of "cl\<lparr>descrs := (descrs cl)[get_treeno a := d']\<rparr>"] d'(1) True b bT assms(3)
      show ?thesis by (simp add: line_write16_def line_fix16_def Let_def)
    next
      case bF: False
      with line_split16 [OF assms(1,2) True] b True node assms(3) show ?thesis
        by (auto simp: line_write16_def line_fix16_def Let_def)
    qed
  next
    case False
    then show ?thesis using node [OF line_same_refl] assms node16 [OF tree_of(3) [OF assms(1)] o]
      by (simp add: line_write16_def line_fix16_def Let_def node_at_address)
  qed
qed

lemma line_write32_spec:
  assumes "cl_ok cl" "aligned32 a" "v \<noteq> SVal_INVALID"
  shows "\<exists>cl'. line_write32 a v cl = Some cl' \<and> line_wrote (get_cacheline_offset a) 4 v cl cl'"
proof -
  let ?d = "descrs cl ! get_treeno a"
  note o = offset32 [OF assms(2)]
  have ks: "[1, 2, 3] = [1..<Suc (length [1, 2, 3 :: nat])]" by (simp add: upt_rec)
  have put: "line_wrote (get_cacheline_offset a) 4 v cl0 (fold (\<lambda>k. put_sval (get_cacheline_offset a + k) SVal_INVALID) [1, 2, 3]
      (put_sval (get_cacheline_offset a + 0) v cl1))"
    if "cl_ok cl0" "write_ok (descrs cl0 ! get_treeno a) d' (get_tree_offset a) 4"
      "descrs cl1 = (descrs cl0)[get_treeno a := d']" "svals cl1 = svals cl0" for cl0 cl1 d'
    using put_node_wrote [OF that(1) _ ks assms(3) that(3,4)] that(2) by (simp add: numeral_eq_Suc)
  have node: "\<exists>cl'. Some (fold (\<lambda>k. put_sval (get_cacheline_offset a + k) SVal_INVALID) [1, 2, 3]
      (put_sval (get_cacheline_offset a + 0) v cl1)) = Some cl' \<and> line_wrote (get_cacheline_offset a) 4 v cl cl'"
    if "line_same cl cl1" "node_at cl1 (get_cacheline_offset a) 4" for cl1
    using put [of cl1 "descrs cl1 ! get_treeno a" cl1] that line_wrote_same [OF that(1)]
    by (simp add: line_same_def node_at_address)
  have ab: "valid_value_is_above_me_32 ?d (get_tree_offset a) = Some (?d AND TREE_DESCR_64 \<noteq> 0)"
    using o by (auto simp: valid_value_is_above_me_32_def)
  show ?thesis
  proof (cases "?d AND push_bit (get_tree_offset a) TREE_DESCR_32_0 = 0")
    case True
    show ?thesis
    proof (cases "?d AND TREE_DESCR_64 = 0")
      case bT: True
      have "\<exists>d'. pullup_descr_to_32 ?d (get_tree_offset a) = Some d' \<and> write_ok ?d d' (get_tree_offset a) 4"
        using by_cases_of_descr [OF tree_of(3) [OF assms(1)] pullup_32_all, of a] o True ab bT
        by (auto simp: list_all_iff split: option.splits)
      with put [OF assms(1)] True ab bT assms(3) show ?thesis by (auto simp: line_write32_def line_fix32_def Let_def)
    next
      case bF: False
      with line_split32 [OF assms(1,2)] ab True node assms(3) show ?thesis
        by (auto simp: line_write32_def line_fix32_def Let_def)
    qed
  next
    case False
    then show ?thesis using node [OF line_same_refl] assms node32 [OF tree_of(3) [OF assms(1)] o]
      by (simp add: line_write32_def line_fix32_def Let_def node_at_address)
  qed
qed

lemma line_write64_spec:
  assumes "cl_ok cl" "aligned64 a" "v \<noteq> SVal_INVALID"
  shows "\<exists>cl'. line_write64 a v cl = Some cl' \<and> line_wrote (get_cacheline_offset a) 8 v cl cl'"
proof -
  have ks: "[1, 2, 3, 4, 5, 6, 7] = [1..<Suc (length [1, 2, 3, 4, 5, 6, 7 :: nat])]" by (simp add: upt_rec)
  have "write_ok (descrs cl ! get_treeno a) TREE_DESCR_64 (get_tree_offset a) 8"
    using node64(2) [OF tree_of(3) [OF assms(1)]] offset64 [OF assms(2)] by simp
  from put_node_wrote [OF assms(1) _ ks assms(3), of a TREE_DESCR_64
      "cl\<lparr>descrs := (descrs cl)[get_treeno a := TREE_DESCR_64]\<rparr>"] this assms(3)
  show ?thesis unfolding line_write64_def Let_def by (simp add: numeral_eq_Suc)
qed

section \<open>Expanding and normalising a line\<close>

lemma normalise_trees_spec:
  assumes "length (svals cl) = 64" "length (descrs cl) = 8" "distinct ks" "\<forall>k\<in>set ks. k < 8"
    "\<forall>k\<in>set ks. \<forall>x\<in>set (cl_tree cl k). x \<noteq> SVal_INVALID"
  shows "\<exists>cl'. normalise_trees ks cl = Some cl' \<and> length (svals cl') = 64 \<and> length (descrs cl') = 8 \<and>
     (\<forall>k<8. if k \<in> set ks then is_sane_Descr_and_Tree (descrs cl' ! k) (cl_tree cl' k) \<and>
                             tree_bytes (cl_tree cl' k) = cl_tree cl k
            else descrs cl' ! k = descrs cl ! k \<and> cl_tree cl' k = cl_tree cl k)"
  using assms
proof (induction ks arbitrary: cl)
  case (Cons t ts)
  have t: "t < 8" "length (cl_tree cl t) = 8" "\<forall>x\<in>set (cl_tree cl t). x \<noteq> SVal_INVALID"
    using Cons.prems length_cl_tree by auto
  from normalise_tree_spec [OF t(2,3)] obtain dt where dt: "normalise_tree (cl_tree cl t) = Some dt"
    "same_bytes (cl_tree cl t) dt" by blast
  then have l8: "length (snd dt) = 8" and b: "tree_bytes (snd dt) = cl_tree cl t"
    using spread_id [OF t(3)] by (auto simp: same_bytes_def)
  let ?cl = "put_tree t dt cl"
  note P = cl_tree_put [OF Cons.prems(1) l8 t(1)]
  have D: "descrs ?cl ! k = (if k = t then fst dt else descrs cl ! k)" if "k < 8" for k
    using that Cons.prems(2) by (simp add: put_tree_def)
  have "\<exists>cl'. normalise_trees ts ?cl = Some cl' \<and> length (svals cl') = 64 \<and> length (descrs cl') = 8 \<and>
     (\<forall>k<8. if k \<in> set ts then is_sane_Descr_and_Tree (descrs cl' ! k) (cl_tree cl' k) \<and>
                             tree_bytes (cl_tree cl' k) = cl_tree ?cl k
            else descrs cl' ! k = descrs ?cl ! k \<and> cl_tree cl' k = cl_tree ?cl k)"
  proof (rule Cons.IH)
    show "length (svals ?cl) = 64" using P(2) [of 0] by simp
    show "length (descrs ?cl) = 8" using Cons.prems(2) by (simp add: put_tree_def)
    show "\<forall>k\<in>set ts. \<forall>x\<in>set (cl_tree ?cl k). x \<noteq> SVal_INVALID"
      using Cons.prems(3,4,5) P(1) by auto
  qed (use Cons.prems in auto)
  then obtain cl' where cl': "normalise_trees ts ?cl = Some cl'" "length (svals cl') = 64" "length (descrs cl') = 8"
    "\<And>k. k < 8 \<Longrightarrow> if k \<in> set ts then is_sane_Descr_and_Tree (descrs cl' ! k) (cl_tree cl' k) \<and>
                             tree_bytes (cl_tree cl' k) = cl_tree ?cl k
            else descrs cl' ! k = descrs ?cl ! k \<and> cl_tree cl' k = cl_tree ?cl k" by blast
  have "t \<notin> set ts" using Cons.prems(3) by simp
  then have "if k \<in> set (t # ts) then is_sane_Descr_and_Tree (descrs cl' ! k) (cl_tree cl' k) \<and>
                             tree_bytes (cl_tree cl' k) = cl_tree cl k
            else descrs cl' ! k = descrs cl ! k \<and> cl_tree cl' k = cl_tree cl k" if "k < 8" for k
    using cl'(4) [OF that] P(1) [OF that] D [OF that] dt(2) b by (auto simp: same_bytes_def split: if_splits)
  with cl'(1-3) dt(1) show ?case by simp
qed simp

lemma normalise_CacheLine_spec:
  assumes "length (svals cl) = 64" "length (descrs cl) = 8" "\<forall>x\<in>set (svals cl). x \<noteq> SVal_INVALID"
  shows "\<exists>cl'. normalise_CacheLine cl = Some cl' \<and> cl_ok cl' \<and> cl_bytes cl' = svals cl"
proof -
  have "\<forall>k\<in>set [0..<8]. \<forall>x\<in>set (cl_tree cl k). x \<noteq> SVal_INVALID"
    using assms(3) by (auto simp: cl_tree_def dest: in_set_takeD in_set_dropD)
  from normalise_trees_spec [OF assms(1,2) _ _ this] obtain cl' where
    cl': "normalise_trees [0..<8] cl = Some cl'" "length (svals cl') = 64" "length (descrs cl') = 8"
    "\<forall>k<8. is_sane_Descr_and_Tree (descrs cl' ! k) (cl_tree cl' k) \<and> tree_bytes (cl_tree cl' k) = cl_tree cl k"
    by auto
  have "cl_ok cl'" using cl' by (simp add: cl_ok_def is_sane_CacheLine_def N_LINE_TREES_def list_all_iff)
  moreover have "cl_bytes cl' = svals cl"
  proof (rule nth_equalityI)
    fix i assume "i < length (cl_bytes cl')"
    then have i: "i < 64" using length_cl_bytes [OF cl'(2)] by simp
    then have "i div 8 < 8" "i mod 8 < 8" "8 * (i div 8) + i mod 8 = i" by simp_all
    with cl'(4) cl_bytes_nth [OF cl'(2) i] cl_tree_nth [OF assms(1)] show "cl_bytes cl' ! i = svals cl ! i" by simp
  qed (use length_cl_bytes [OF cl'(2)] assms in simp)
  ultimately show ?thesis using cl'(1) by (simp add: normalise_CacheLine_def N_LINE_TREES_def)
qed

section \<open>Properties of cache lines\<close>

text \<open>
  C21.  Writing 1, 2, 4 or 8 bytes at an aligned address of a sane cache line passes all
  assertions, whatever nodes the tree has there: it leaves a sane line in which the bytes written have
  the new value and all others the value they had.
\<close>

theorem line_write_correct:
  assumes "cl_ok cl" "v \<noteq> SVal_INVALID"
    and "(n, write) \<in> {(1, line_write8 a v), (2, line_write16 a v), (4, line_write32 a v), (8, line_write64 a v)}"
    and "unat a mod n = 0"
  shows "\<exists>cl'. write cl = Some cl' \<and> cl_ok cl' \<and>
     (\<forall>i<64. cl_bytes cl' ! i = (if get_cacheline_offset a \<le> i \<and> i < get_cacheline_offset a + n then v else cl_bytes cl ! i))"
  using assms line_write8_spec [of cl v a] line_write16_spec [of cl a v] line_write32_spec [of cl a v] line_write64_spec [of cl a v]
  by (auto simp: line_wrote_def aligned_mod)

lemma noaccess_line: "\<exists>cl. cl_ok cl \<and> cl_bytes cl = replicate 64 SVal_NOACCESS"
  using normalise_CacheLine_spec [of "\<lparr>descrs = replicate 8 0, svals = replicate 64 SVal_NOACCESS\<rparr>"]
  by (auto simp: SVal_NOACCESS_def SVal_INVALID_def)

theorem line_write_correct_witness:
  "\<exists>cl cl'. line_write16 0x100A 4 cl = Some cl' \<and> cl_bytes cl' ! 10 = 4 \<and> cl_bytes cl' ! 11 = 4 \<and> cl_bytes cl' ! 12 = SVal_NOACCESS"
proof -
  obtain cl where cl: "cl_ok cl" "cl_bytes cl = replicate 64 SVal_NOACCESS" using noaccess_line by blast
  have "get_cacheline_offset 0x100A = 10" "(4 :: SVal) \<noteq> SVal_INVALID" by (simp_all add: offset_mod SVal_INVALID_def)
  then obtain cl' where "line_write16 0x100A 4 cl = Some cl'"
    "\<forall>i<64. cl_bytes cl' ! i = (if 10 \<le> i \<and> i < 12 then 4 else cl_bytes cl ! i)"
    using line_write_correct [OF cl(1), of 4 2 "line_write16 0x100A 4" "0x100A"] by auto
  with cl(2) show ?thesis by (intro exI [of _ cl] exI [of _ cl']) simp
qed

text \<open>
  C23.  Writing a sane cache line back in the full representation and fetching it again:
  the sequence of counted values covers the line, the loop fills all 64 entries with the values of the
  bytes, and normalising these gives a sane line with the same values.
\<close>

theorem full_line_roundtrip:
  assumes "cl_ok cl" "length w = 64"
  shows "\<exists>cs cl'. sequentialise_CacheLine cl = Some cs \<and> fill_loop cs 0 w = (64, cl_bytes cl) \<and>
     normalise_CacheLine (cl\<lparr>svals := cl_bytes cl\<rparr>) = Some cl' \<and> cl_ok cl' \<and> cl_bytes cl' = cl_bytes cl"
proof -
  from sequentialise_CacheLine_spec [OF assms(1)] obtain cs where
    cs: "sequentialise_CacheLine cl = Some cs" "expand cs = cl_bytes cl" by blast
  have l: "length (svals cl) = 64" "length (descrs cl) = 8" "length (cl_bytes cl) = 64"
    using assms(1) length_cl_bytes [of cl] by (simp_all add: cl_ok_def)
  have "fill_loop cs 0 w = (64, cl_bytes cl)" using fill_spec [of 0 cs w] assms(2) l(3) cs(2) by simp
  moreover have "\<forall>x\<in>set (cl_bytes cl). x \<noteq> SVal_INVALID" using bytes_valid [OF assms(1)] l(3) by (metis in_set_conv_nth)
  ultimately show ?thesis using normalise_CacheLine_spec [of "cl\<lparr>svals := cl_bytes cl\<rparr>"] cs(1) l by auto
qed

theorem full_line_roundtrip_witness:
  "\<exists>cl cs cl'. sequentialise_CacheLine cl = Some cs \<and> fill_loop cs 0 (replicate 64 0) = (64, replicate 64 SVal_NOACCESS) \<and>
     normalise_CacheLine (cl\<lparr>svals := replicate 64 SVal_NOACCESS\<rparr>) = Some cl' \<and> cl_bytes cl' = replicate 64 SVal_NOACCESS"
proof -
  obtain cl where "cl_ok cl" "cl_bytes cl = replicate 64 SVal_NOACCESS" using noaccess_line by blast
  then show ?thesis using full_line_roundtrip [of cl "replicate 64 0"] by auto
qed

end
