(* ===== verification/ShadowMem.thy ===== *)
theory ShadowMem
  imports ShadowLine WordFM_Iter "HOL-Library.Multiset"
begin

text \<open>
  The compressed shadow memory of \<^verbatim>\<open>helgrind/libhb_core.c\<close> ("map_shmem", "LineF and LineZ related",
  "Cache management"): secondary maps of 8192 bytes in a finite map, with a small cache of the
  last three lookups, and a direct-mapped write-back cache of lines in front of them.

  A \<^verbatim>\<open>SecMap*\<close> is its index in the list of allocated secondary maps; \<^verbatim>\<open>shmem__bigchunk_alloc\<close> never
  fails and never returns storage twice.  The two callbacks that \<^verbatim>\<open>zsm_init\<close> receives work on a state
  of their own, \<open>zsm_user\<close>.  The debugging switch \<^verbatim>\<open>CHECK_ZSM\<close> is off, as in the source.  Pointers to cache
  lines are indices into \<open>lyns0\<close>.
\<close>

section \<open>State\<close>

definition N_SECMAP_ARANGE :: nat where "N_SECMAP_ARANGE = 8192"
definition N_SECMAP_ZLINES :: nat where "N_SECMAP_ZLINES = 128"
definition N_WAY_NENT :: nat where "N_WAY_NENT = 65536"
definition SecMap_MAGIC :: UInt where "SecMap_MAGIC = 0x571e58cb"

record SecMap =
  magic :: UInt
  linesZ :: "LineZ list"
  linesF :: "LineF list option"
  linesF_size :: UInt

type_synonym SecMap_ptr = nat
type_synonym SMCacheEnt = "Addr \<times> SecMap_ptr option"

record 'u zsm =
  rcinc :: "SVal \<Rightarrow> 'u \<Rightarrow> 'u option"
  rcdec :: "SVal \<Rightarrow> 'u \<Rightarrow> 'u option"
  zsm_user :: 'u
  map_shmem :: "(Addr, SecMap_ptr) WordFM"
  secmaps :: "SecMap list"
  smCache :: "SMCacheEnt list"
  lyns0 :: "CacheLine list"
  tags0 :: "Addr list"

definition is_sane_SecMap :: "SecMap \<Rightarrow> bool" where
  "is_sane_SecMap sm \<longleftrightarrow> magic sm = SecMap_MAGIC"

definition is_valid_scache_tag :: "Addr \<Rightarrow> bool" where
  "is_valid_scache_tag tag \<longleftrightarrow> 0 = tag AND (of_nat N_LINE_ARANGE - 1)"

definition shmem__round_to_SecMap_base :: "Addr \<Rightarrow> Addr" where
  "shmem__round_to_SecMap_base a = a AND NOT (of_nat N_SECMAP_ARANGE - 1)"

definition shmem__get_SecMap_offset :: "Addr \<Rightarrow> nat" where
  "shmem__get_SecMap_offset a = unat (a AND (of_nat N_SECMAP_ARANGE - 1))"

section \<open>Secondary maps\<close>

definition new_LineZ :: LineZ where
  "new_LineZ = \<lparr>dict = [SVal_NOACCESS, SVal_INVALID, SVal_INVALID, SVal_INVALID], ix2s = replicate 16 0\<rparr>"

definition shmem__alloc_SecMap :: "'u zsm \<Rightarrow> SecMap_ptr \<times> 'u zsm" where
  "shmem__alloc_SecMap z =
     (length (secmaps z),
      z\<lparr>secmaps := secmaps z @ [\<lparr>magic = SecMap_MAGIC, linesZ = replicate N_SECMAP_ZLINES new_LineZ,
                                 linesF = None, linesF_size = 0\<rparr>]\<rparr>)"

definition shmem__find_SecMap :: "Addr \<Rightarrow> 'u zsm \<Rightarrow> SecMap_ptr option \<times> 'u zsm" where
  "shmem__find_SecMap ga z =
     (let gaKey = shmem__round_to_SecMap_base ga; c = smCache z in
      if gaKey = fst (c ! 0) then (snd (c ! 0), z)
      else if gaKey = fst (c ! 1) then (snd (c ! 1), z\<lparr>smCache := [c ! 1, c ! 0, c ! 2]\<rparr>)
      else if gaKey = fst (c ! 2) then (snd (c ! 2), z\<lparr>smCache := [c ! 0, c ! 2, c ! 1]\<rparr>)
      else (case lookupFM (map_shmem z) gaKey of
              Some (_, sm) \<Rightarrow> (Some sm, z\<lparr>smCache := [(gaKey, Some sm), c ! 0, c ! 1]\<rparr>)
            | None \<Rightarrow> (None, z)))"

definition shmem__find_or_alloc_SecMap :: "Addr \<Rightarrow> 'u zsm \<Rightarrow> (SecMap_ptr \<times> 'u zsm) option" where
  "shmem__find_or_alloc_SecMap ga z =
     (case shmem__find_SecMap ga z of
        (Some sm, z) \<Rightarrow> Some (sm, z)
      | (None, z) \<Rightarrow>
          do {
            let (sm, z) = shmem__alloc_SecMap z;
            (_, fm) \<leftarrow> addToFM (map_shmem z) (shmem__round_to_SecMap_base ga) sm;
            Some (sm, z\<lparr>map_shmem := fm\<rparr>)
          })"

section \<open>Reference counts of lines\<close>

fun rc_all :: "(SVal \<Rightarrow> 'u \<Rightarrow> 'u option) \<Rightarrow> SVal list \<Rightarrow> 'u \<Rightarrow> 'u option" where
  "rc_all f [] u = Some u"
| "rc_all f (s # ss) u = do { u \<leftarrow> f s u; rc_all f ss u }"

definition rc_apply :: "(SVal \<Rightarrow> 'u \<Rightarrow> 'u option) \<Rightarrow> SVal list \<Rightarrow> 'u zsm \<Rightarrow> 'u zsm option" where
  "rc_apply f ss z = do { u \<leftarrow> rc_all f ss (zsm_user z); Some (z\<lparr>zsm_user := u\<rparr>) }"

definition rcinc_LineF :: "LineF \<Rightarrow> 'u zsm \<Rightarrow> 'u zsm option" where
  "rcinc_LineF lineF z = do { tl_assert (inUse lineF); rc_apply (rcinc z) (w64s lineF) z }"

definition rcdec_LineF :: "LineF \<Rightarrow> 'u zsm \<Rightarrow> 'u zsm option" where
  "rcdec_LineF lineF z = do { tl_assert (inUse lineF); rc_apply (rcdec z) (w64s lineF) z }"

definition LineZ_svals :: "LineZ \<Rightarrow> SVal list" where
  "LineZ_svals lineZ =
     dict lineZ ! 0 # filter (\<lambda>s. s \<noteq> SVal_INVALID) [dict lineZ ! 1, dict lineZ ! 2, dict lineZ ! 3]"

definition rcinc_LineZ :: "LineZ \<Rightarrow> 'u zsm \<Rightarrow> 'u zsm option" where
  "rcinc_LineZ lineZ z =
     do { tl_assert (dict lineZ ! 0 \<noteq> SVal_INVALID); rc_apply (rcinc z) (LineZ_svals lineZ) z }"

definition rcdec_LineZ :: "LineZ \<Rightarrow> 'u zsm \<Rightarrow> 'u zsm option" where
  "rcdec_LineZ lineZ z =
     do { tl_assert (dict lineZ ! 0 \<noteq> SVal_INVALID); rc_apply (rcdec z) (LineZ_svals lineZ) z }"

section \<open>Finding lines\<close>

text \<open>The line that a \<^verbatim>\<open>LineZ\<close> with \<^verbatim>\<open>dict[0] == SVal_INVALID\<close> refers to, with the checks of the code.\<close>

definition lineF_of :: "SecMap \<Rightarrow> LineZ \<Rightarrow> (nat \<times> LineF) option" where
  "lineF_of sm lineZ =
     do {
       let fix = (ucast (dict lineZ ! 1) :: UInt);
       fs \<leftarrow> linesF sm;
       tl_assert (linesF_size sm > 0);
       tl_assert (fix < linesF_size sm);
       lineF \<leftarrow> index_opt fs (unat fix);
       tl_assert (inUse lineF);
       Some (unat fix, lineF)
     }"

definition find_ZF_for_reading :: "Addr \<Rightarrow> 'u zsm \<Rightarrow> ((LineZ + LineF) \<times> 'u zsm) option" where
  "find_ZF_for_reading tag z =
     do {
       (smp, z) \<leftarrow> shmem__find_or_alloc_SecMap tag z;
       sm \<leftarrow> index_opt (secmaps z) smp;
       let smoff = shmem__get_SecMap_offset tag;
       tl_assert (0 = smoff AND (N_LINE_ARANGE - 1));
       let zix = drop_bit N_LINE_BITS smoff;
       tl_assert (zix < N_SECMAP_ZLINES);
       let lineZ = linesZ sm ! zix;
       if dict lineZ ! 0 = SVal_INVALID
       then do { (_, lineF) \<leftarrow> lineF_of sm lineZ; Some (Inr lineF, z) }
       else Some (Inl lineZ, z)
     }"

definition find_Z_for_writing :: "Addr \<Rightarrow> 'u zsm \<Rightarrow> ((SecMap_ptr \<times> nat) \<times> 'u zsm) option" where
  "find_Z_for_writing tag z =
     do {
       (smp, z) \<leftarrow> shmem__find_or_alloc_SecMap tag z;
       sm \<leftarrow> index_opt (secmaps z) smp;
       let smoff = shmem__get_SecMap_offset tag;
       tl_assert (0 = smoff AND (N_LINE_ARANGE - 1));
       let zix = drop_bit N_LINE_BITS smoff;
       tl_assert (zix < N_SECMAP_ZLINES);
       let lineZ = linesZ sm ! zix;
       z \<leftarrow> (if dict lineZ ! 0 = SVal_INVALID
            then do {
              (fix, lineF) \<leftarrow> lineF_of sm lineZ;
              z \<leftarrow> rcdec_LineF lineF z;
              let sm = sm\<lparr>linesF := map_option (\<lambda>fs. fs[fix := lineF\<lparr>inUse := False\<rparr>]) (linesF sm)\<rparr>;
              Some (z\<lparr>secmaps := (secmaps z)[smp := sm]\<rparr>)
            }
            else rcdec_LineZ lineZ z);
       Some ((smp, zix), z)
     }"

fun find_unused :: "LineF list \<Rightarrow> nat \<Rightarrow> nat option" where
  "find_unused [] i = None"
| "find_unused (f # fs) i = (if \<not> inUse f then Some i else find_unused fs (Suc i))"

definition zero_LineF :: LineF where
  "zero_LineF = \<lparr>inUse = False, w64s = replicate N_LINE_ARANGE 0\<rparr>"

definition alloc_F_for_writing :: "SecMap \<Rightarrow> (nat \<times> SecMap) option" where
  "alloc_F_for_writing sm =
     do {
       tl_assert (case linesF sm of Some fs \<Rightarrow> linesF_size sm > 0 | None \<Rightarrow> linesF_size sm = 0);
       case Option.bind (linesF sm) (\<lambda>fs. find_unused fs 0) of
         Some i \<Rightarrow> Some (i, sm)
       | None \<Rightarrow>
           do {
             let new_size = (if linesF_size sm = 0 then 1 else 2 * linesF_size sm);
             let nyu = replicate (unat new_size) zero_LineF;
             nyu \<leftarrow> (case linesF sm of
                      None \<Rightarrow> Some nyu
                    | Some fs \<Rightarrow> do { tl_assert (list_all inUse fs); Some (fs @ drop (length fs) nyu) });
             let sm = sm\<lparr>linesF := Some nyu, linesF_size := new_size\<rparr>;
             i \<leftarrow> find_unused nyu 0;
             Some (i, sm)
           }
     }"

section \<open>The cache of lines\<close>

definition put_SecMap :: "SecMap_ptr \<Rightarrow> SecMap \<Rightarrow> 'u zsm \<Rightarrow> 'u zsm" where
  "put_SecMap smp sm z = z\<lparr>secmaps := (secmaps z)[smp := sm]\<rparr>"

definition put_lineZ :: "nat \<Rightarrow> LineZ \<Rightarrow> SecMap \<Rightarrow> SecMap" where
  "put_lineZ zix lineZ sm = sm\<lparr>linesZ := (linesZ sm)[zix := lineZ]\<rparr>"

definition cacheline_wback :: "nat \<Rightarrow> 'u zsm \<Rightarrow> 'u zsm option" where
  "cacheline_wback wix z =
     do {
       tl_assert (wix < N_WAY_NENT);
       let tag = tags0 z ! wix;
       let cl = lyns0 z ! wix;
       if \<not> is_valid_scache_tag tag then Some z
       else
         do {
           ((smp, zix), z) \<leftarrow> find_Z_for_writing tag z;
           sm \<leftarrow> index_opt (secmaps z) smp;
           let lineZ = linesZ sm ! zix;
           csvals \<leftarrow> sequentialise_CacheLine cl;
           tl_assert (length csvals \<ge> 1 \<and> length csvals \<le> N_LINE_ARANGE);
           let lineZ = lineZ\<lparr>dict := [SVal_INVALID, SVal_INVALID, SVal_INVALID, SVal_INVALID]\<rparr>;
           (i, lineZ) \<leftarrow> compress_loop csvals 0 lineZ;
           if i = N_LINE_ARANGE then
             rcinc_LineZ lineZ (put_SecMap smp (put_lineZ zix lineZ sm) z)
           else
             do {
               tl_assert (i < N_LINE_ARANGE);
               (fix, sm) \<leftarrow> alloc_F_for_writing sm;
               fs \<leftarrow> linesF sm;
               tl_assert (linesF_size sm > 0);
               tl_assert (fix < unat (linesF_size sm));
               lineF \<leftarrow> index_opt fs fix;
               tl_assert (\<not> inUse lineF);
               let lineZ = lineZ\<lparr>dict := [SVal_INVALID, of_nat fix, SVal_INVALID, SVal_INVALID]\<rparr>;
               let (n, w) = fill_loop csvals 0 (w64s lineF);
               tl_assert (n = N_LINE_ARANGE);
               let lineF = lineF\<lparr>inUse := True, w64s := w\<rparr>;
               let sm = put_lineZ zix lineZ (sm\<lparr>linesF := Some (fs[fix := lineF])\<rparr>);
               rcinc_LineF lineF (put_SecMap smp sm z)
             }
         }
     }"

definition cacheline_fetch :: "nat \<Rightarrow> 'u zsm \<Rightarrow> 'u zsm option" where
  "cacheline_fetch wix z =
     do {
       tl_assert (wix < N_WAY_NENT);
       let tag = tags0 z ! wix;
       let cl = lyns0 z ! wix;
       tl_assert (is_valid_scache_tag tag);
       (zf, z) \<leftarrow> find_ZF_for_reading tag z;
       w \<leftarrow> (case zf of
              Inr lineF \<Rightarrow> do { tl_assert (inUse lineF); Some (w64s lineF) }
            | Inl lineZ \<Rightarrow>
                do {
                  let w = map (lineZ_val lineZ) [0..<N_LINE_ARANGE];
                  tl_assert (list_all (\<lambda>sv. sv \<noteq> SVal_INVALID) w);
                  Some w
                });
       cl \<leftarrow> normalise_CacheLine (cl\<lparr>svals := w\<rparr>);
       Some (z\<lparr>lyns0 := (lyns0 z)[wix := cl]\<rparr>)
     }"

definition shmem__invalidate_scache :: "'u zsm \<Rightarrow> 'u zsm" where
  "shmem__invalidate_scache z = fold (\<lambda>wix z. z\<lparr>tags0 := (tags0 z)[wix := 1]\<rparr>) [0..<N_WAY_NENT] z"

fun flush_loop :: "nat list \<Rightarrow> 'u zsm \<Rightarrow> 'u zsm option" where
  "flush_loop [] z = Some z"
| "flush_loop (wix # ws) z =
     do {
       let tag = tags0 z ! wix;
       z \<leftarrow> (if tag = 1 then Some z
            else do { tl_assert (is_valid_scache_tag tag); cacheline_wback wix z });
       flush_loop ws (z\<lparr>tags0 := (tags0 z)[wix := 1]\<rparr>)
     }"

definition shmem__flush_and_invalidate_scache :: "'u zsm \<Rightarrow> 'u zsm option" where
  "shmem__flush_and_invalidate_scache z = flush_loop [0..<N_WAY_NENT] z"

definition zsm_flush_cache :: "'u zsm \<Rightarrow> 'u zsm option" where
  "zsm_flush_cache z = shmem__flush_and_invalidate_scache z"

text \<open>The tag and the index of the way of an address.\<close>

definition cache_tag :: "Addr \<Rightarrow> Addr" where
  "cache_tag a = a AND NOT (of_nat N_LINE_ARANGE - 1)"

definition cache_wix :: "Addr \<Rightarrow> nat" where
  "cache_wix a = unat (drop_bit N_LINE_BITS a AND (of_nat N_WAY_NENT - 1))"

definition get_cacheline_MISS :: "Addr \<Rightarrow> 'u zsm \<Rightarrow> (nat \<times> 'u zsm) option" where
  "get_cacheline_MISS a z =
     do {
       let tag = cache_tag a;
       let wix = cache_wix a;
       tl_assert (tag \<noteq> tags0 z ! wix);
       z \<leftarrow> (if is_valid_scache_tag (tags0 z ! wix) then cacheline_wback wix z else Some z);
       z \<leftarrow> cacheline_fetch wix (z\<lparr>tags0 := (tags0 z)[wix := tag]\<rparr>);
       Some (wix, z)
     }"

definition get_cacheline :: "Addr \<Rightarrow> 'u zsm \<Rightarrow> (nat \<times> 'u zsm) option" where
  "get_cacheline a z =
     (if cache_tag a = tags0 z ! cache_wix a then Some (cache_wix a, z) else get_cacheline_MISS a z)"

text \<open>The state of the static variables before \<^verbatim>\<open>zsm_init\<close>, which C initialises with zeroes.\<close>

definition zsm_init :: "(SVal \<Rightarrow> 'u \<Rightarrow> 'u option) \<Rightarrow> (SVal \<Rightarrow> 'u \<Rightarrow> 'u option) \<Rightarrow> 'u \<Rightarrow> 'u zsm" where
  "zsm_init p_rcinc p_rcdec u =
     shmem__invalidate_scache
       \<lparr>rcinc = p_rcinc, rcdec = p_rcdec, zsm_user = u, map_shmem = newFM cmp_unsigned_Words, secmaps = [],
        smCache = [(1, None), (1, None), (1, None)],
        lyns0 = replicate N_WAY_NENT \<lparr>descrs = replicate N_LINE_TREES 0, svals = replicate N_LINE_ARANGE 0\<rparr>,
        tags0 = replicate N_WAY_NENT 0\<rparr>"

section \<open>The invariant of a secondary map\<close>

definition isF :: "LineZ \<Rightarrow> bool" where
  "isF lz \<longleftrightarrow> dict lz ! 0 = SVal_INVALID"

definition zfix :: "LineZ \<Rightarrow> nat" where
  "zfix lz = unat (ucast (dict lz ! 1) :: UInt)"

definition flist :: "SecMap \<Rightarrow> LineF list" where
  "flist sm = (case linesF sm of None \<Rightarrow> [] | Some fs \<Rightarrow> fs)"

definition flines_ok :: "SecMap \<Rightarrow> bool" where
  "flines_ok sm \<longleftrightarrow> length (flist sm) = unat (linesF_size sm) \<and> (linesF sm = None \<longleftrightarrow> linesF_size sm = 0) \<and>
     (linesF_size sm \<noteq> 0 \<longrightarrow> (\<exists>k\<le>7. length (flist sm) = 2 ^ k)) \<and> (\<forall>f\<in>set (flist sm). length (w64s f) = 64)"

definition zline_ok :: "SecMap \<Rightarrow> LineZ \<Rightarrow> bool" where
  "zline_ok sm lz \<longleftrightarrow>
     (if isF lz then zfix lz < length (flist sm) \<and> inUse (flist sm ! zfix lz) \<and>
                     (\<forall>v\<in>set (w64s (flist sm ! zfix lz)). v \<noteq> SVal_INVALID)
      else lineZ_ok 64 lz)"

text \<open>
  \<open>H\<close> are the lines of the map that are being rewritten.  Every other line holds 64 values, and the
  full lines in use are exactly those that one such line refers to.
\<close>

definition secmap_ok :: "nat set \<Rightarrow> SecMap \<Rightarrow> bool" where
  "secmap_ok H sm \<longleftrightarrow> length (linesZ sm) = 128 \<and> flines_ok sm \<and>
     (\<forall>x<128. length (dict (linesZ sm ! x)) = 4 \<and> length (ix2s (linesZ sm ! x)) = 16) \<and>
     (\<forall>x<128. x \<notin> H \<longrightarrow> zline_ok sm (linesZ sm ! x)) \<and>
     (\<forall>x<128. \<forall>y<128. x \<notin> H \<and> y \<notin> H \<and> isF (linesZ sm ! x) \<and> isF (linesZ sm ! y) \<and>
        zfix (linesZ sm ! x) = zfix (linesZ sm ! y) \<longrightarrow> x = y) \<and>
     (\<forall>i<length (flist sm). inUse (flist sm ! i) \<longrightarrow>
        (\<exists>x<128. x \<notin> H \<and> isF (linesZ sm ! x) \<and> zfix (linesZ sm ! x) = i))"

text \<open>The values of a line, and the references it holds.\<close>

definition zline_vals :: "SecMap \<Rightarrow> LineZ \<Rightarrow> SVal list" where
  "zline_vals sm lz = (if isF lz then w64s (flist sm ! zfix lz) else map (lineZ_val lz) [0..<64])"

definition zline_refs :: "SecMap \<Rightarrow> LineZ \<Rightarrow> SVal list" where
  "zline_refs sm lz = (if isF lz then w64s (flist sm ! zfix lz) else LineZ_svals lz)"

lemma secmap_okD:
  assumes "secmap_ok H sm"
  shows "length (linesZ sm) = 128" "flines_ok sm"
    "\<And>x. x < 128 \<Longrightarrow> length (dict (linesZ sm ! x)) = 4" "\<And>x. x < 128 \<Longrightarrow> length (ix2s (linesZ sm ! x)) = 16"
    "\<And>x. x < 128 \<Longrightarrow> x \<notin> H \<Longrightarrow> zline_ok sm (linesZ sm ! x)"
    "\<And>x y. x < 128 \<Longrightarrow> y < 128 \<Longrightarrow> x \<notin> H \<Longrightarrow> y \<notin> H \<Longrightarrow> isF (linesZ sm ! x) \<Longrightarrow> isF (linesZ sm ! y) \<Longrightarrow>
       zfix (linesZ sm ! x) = zfix (linesZ sm ! y) \<Longrightarrow> x = y"
    "\<And>i. i < length (flist sm) \<Longrightarrow> inUse (flist sm ! i) \<Longrightarrow>
        \<exists>x<128. x \<notin> H \<and> isF (linesZ sm ! x) \<and> zfix (linesZ sm ! x) = i"
  using assms unfolding secmap_ok_def by blast+

lemma lineF_of_spec:
  assumes "secmap_ok H sm" "x < 128" "x \<notin> H" "isF (linesZ sm ! x)"
  shows "lineF_of sm (linesZ sm ! x) = Some (zfix (linesZ sm ! x), flist sm ! zfix (linesZ sm ! x))"
    "inUse (flist sm ! zfix (linesZ sm ! x))" "zfix (linesZ sm ! x) < length (flist sm)"
    "length (w64s (flist sm ! zfix (linesZ sm ! x))) = 64"
proof -
  have z: "zfix (linesZ sm ! x) < length (flist sm)" "inUse (flist sm ! zfix (linesZ sm ! x))"
    using secmap_okD(5) [OF assms(1-3)] assms(4) by (auto simp: zline_ok_def)
  have f: "length (flist sm) = unat (linesF_size sm)" "\<forall>f\<in>set (flist sm). length (w64s f) = 64"
    using secmap_okD(2) [OF assms(1)] by (auto simp: flines_ok_def)
  from z(1) obtain fs where fs: "linesF sm = Some fs" "flist sm = fs" by (auto simp: flist_def split: option.splits)
  have "linesF_size sm > 0" using z(1) f(1) by (simp add: word_neq_0_conv [symmetric] unat_eq_0 [symmetric])
  moreover have "(ucast (dict (linesZ sm ! x) ! 1) :: UInt) < linesF_size sm"
    using z(1) f(1) by (simp add: zfix_def word_less_nat_alt)
  ultimately show "lineF_of sm (linesZ sm ! x) = Some (zfix (linesZ sm ! x), flist sm ! zfix (linesZ sm ! x))"
    using z fs by (simp add: lineF_of_def Let_def zfix_def)
  show "inUse (flist sm ! zfix (linesZ sm ! x))" "zfix (linesZ sm ! x) < length (flist sm)" by (fact z)+
  show "length (w64s (flist sm ! zfix (linesZ sm ! x))) = 64" using f(2) z(1) by simp
qed

lemma zline_vals_valid:
  assumes "secmap_ok H sm" "x < 128" "x \<notin> H"
  shows "length (zline_vals sm (linesZ sm ! x)) = 64" "\<forall>v\<in>set (zline_vals sm (linesZ sm ! x)). v \<noteq> SVal_INVALID"
    "set (zline_vals sm (linesZ sm ! x)) \<subseteq> set (zline_refs sm (linesZ sm ! x))"
    "length (zline_refs sm (linesZ sm ! x)) \<le> 64"
proof -
  let ?z = "linesZ sm ! x"
  note ok = secmap_okD(5) [OF assms]
  show "length (zline_vals sm ?z) = 64" using lineF_of_spec(4) [OF assms] by (simp add: zline_vals_def)
  show "\<forall>v\<in>set (zline_vals sm ?z). v \<noteq> SVal_INVALID"
    using ok by (auto simp: zline_vals_def zline_ok_def lineZ_ok_def)
  show "length (zline_refs sm ?z) \<le> 64" using lineF_of_spec(4) [OF assms]
    by (auto simp: zline_refs_def LineZ_svals_def)
  have "lineZ_val ?z k \<in> set (LineZ_svals ?z)" if "\<not> isF ?z" "k < 64" for k
  proof -
    have "lineZ_val ?z k \<noteq> SVal_INVALID" using ok that by (auto simp: zline_ok_def lineZ_ok_def)
    moreover have "unat (read_twobit_array (ix2s ?z) k) < 4" using read_twobit_less by (simp add: word_less_nat_alt)
    then have "unat (read_twobit_array (ix2s ?z) k) \<in> {0, 1, 2, 3}" by auto
    ultimately show ?thesis by (auto simp: LineZ_svals_def lineZ_val_def)
  qed
  then show "set (zline_vals sm ?z) \<subseteq> set (zline_refs sm ?z)" by (auto simp: zline_vals_def zline_refs_def)
qed

text \<open>Changing full lines that no other line refers to keeps the other lines.\<close>

definition same_lines :: "nat \<Rightarrow> SecMap \<Rightarrow> SecMap \<Rightarrow> bool" where
  "same_lines x sm sm' \<longleftrightarrow> (\<forall>y<128. y \<noteq> x \<longrightarrow> linesZ sm' ! y = linesZ sm ! y \<and>
     zline_vals sm' (linesZ sm ! y) = zline_vals sm (linesZ sm ! y) \<and>
     zline_refs sm' (linesZ sm ! y) = zline_refs sm (linesZ sm ! y))"

lemma same_lines_refl: "same_lines x sm sm"
  by (simp add: same_lines_def)

lemma same_lines_trans: "same_lines x sm sm1 \<Longrightarrow> same_lines x sm1 sm2 \<Longrightarrow> same_lines x sm sm2"
  by (simp add: same_lines_def)

lemma same_linesI:
  assumes "\<And>y. y < 128 \<Longrightarrow> y \<noteq> x \<Longrightarrow> linesZ sm' ! y = linesZ sm ! y"
    "\<And>y. y < 128 \<Longrightarrow> y \<noteq> x \<Longrightarrow> isF (linesZ sm ! y) \<Longrightarrow>
       flist sm' ! zfix (linesZ sm ! y) = flist sm ! zfix (linesZ sm ! y)"
  shows "same_lines x sm sm'"
  using assms by (simp add: same_lines_def zline_vals_def zline_refs_def)

definition set_inUse :: "nat \<Rightarrow> LineF \<Rightarrow> SecMap \<Rightarrow> SecMap" where
  "set_inUse i f sm = sm\<lparr>linesF := map_option (\<lambda>fs. fs[i := f\<lparr>inUse := False\<rparr>]) (linesF sm)\<rparr>"

lemma flist_set_inUse [simp]: "flist (set_inUse i f sm) = (flist sm)[i := f\<lparr>inUse := False\<rparr>]"
  by (simp add: flist_def set_inUse_def split: option.splits)

lemma linesZ_set_inUse [simp]: "linesZ (set_inUse i f sm) = linesZ sm"
  by (simp add: set_inUse_def)

lemma flines_set_inUse:
  assumes "flines_ok sm" "length (w64s f) = 64" shows "flines_ok (set_inUse i f sm)"
proof -
  have "\<forall>g\<in>set ((flist sm)[i := f\<lparr>inUse := False\<rparr>]). length (w64s g) = 64"
    using assms subsetD [OF set_update_subset_insert] by (fastforce simp: flines_ok_def)
  with assms show ?thesis by (auto simp: flines_ok_def) (auto simp: set_inUse_def)
qed

lemma open_F:
  assumes ok: "secmap_ok {} sm" and x: "x < 128" "isF (linesZ sm ! x)"
  defines "sm' \<equiv> set_inUse (zfix (linesZ sm ! x)) (flist sm ! zfix (linesZ sm ! x)) sm"
  shows "secmap_ok {x} sm'" "same_lines x sm sm'"
proof -
  let ?i = "zfix (linesZ sm ! x)"
  note F = lineF_of_spec [OF ok x(1) _ x(2), simplified]
  have other: "?i \<noteq> zfix (linesZ sm ! y)" if "y < 128" "y \<noteq> x" "isF (linesZ sm ! y)" for y
    using secmap_okD(6) [OF ok, of y x] that x by auto
  show "secmap_ok {x} sm'" unfolding secmap_ok_def
  proof (intro conjI allI impI, goal_cases)
    case 1 show ?case using secmap_okD(1) [OF ok] by (simp add: sm'_def)
  next
    case 2 show ?case using flines_set_inUse [OF secmap_okD(2) [OF ok] F(4)] by (simp add: sm'_def)
  next
    case (3 y) then show ?case using secmap_okD(3) [OF ok] by (simp add: sm'_def)
  next
    case (4 y) then show ?case using secmap_okD(4) [OF ok] by (simp add: sm'_def)
  next
    case (5 y)
    then have "zline_ok sm (linesZ sm ! y)" using secmap_okD(5) [OF ok] by simp
    then show ?case using other [of y] 5 by (cases "isF (linesZ sm ! y)") (auto simp: sm'_def zline_ok_def)
  next
    case (6 y w) then show ?case using secmap_okD(6) [OF ok, of y w] by (simp add: sm'_def)
  next
    case (7 i)
    then have i: "i < length (flist sm)" "inUse ((flist sm)[?i := (flist sm ! ?i)\<lparr>inUse := False\<rparr>] ! i)"
      by (simp_all add: sm'_def)
    then have "i \<noteq> ?i" by (metis LineF.select_convs(1) LineF.surjective LineF.update_convs(1) nth_list_update_eq)
    with i have "i < length (flist sm)" "inUse (flist sm ! i)" by simp_all
    from secmap_okD(7) [OF ok this] obtain y where
      "y < 128" "isF (linesZ sm ! y)" "zfix (linesZ sm ! y) = i" by auto
    with \<open>i \<noteq> ?i\<close> show ?case by (auto simp: sm'_def intro!: exI [of _ y])
  qed
  show "same_lines x sm sm'"
  proof (rule same_linesI)
    fix y assume "y < 128" "y \<noteq> x" "isF (linesZ sm ! y)"
    then show "flist sm' ! zfix (linesZ sm ! y) = flist sm ! zfix (linesZ sm ! y)"
      using other [of y] by (simp add: sm'_def)
  qed (simp add: sm'_def)
qed

lemma open_Z:
  assumes ok: "secmap_ok {} sm" and x: "x < 128" "\<not> isF (linesZ sm ! x)"
  shows "secmap_ok {x} sm"
  unfolding secmap_ok_def
proof (intro conjI allI impI, goal_cases)
  case (7 i)
  from secmap_okD(7) [OF ok 7] x(2) show ?case by auto
qed (use secmap_okD [OF ok] in auto)

lemma put_lineZ_simps [simp]:
  "linesF (put_lineZ x lz sm) = linesF sm" "linesF_size (put_lineZ x lz sm) = linesF_size sm"
  "flist (put_lineZ x lz sm) = flist sm"
  by (simp_all add: put_lineZ_def flist_def)

lemma close_Z:
  assumes ok: "secmap_ok {x} sm" and x: "x < 128" and lz: "lineZ_ok 64 lz" "\<not> isF lz"
  shows "secmap_ok {} (put_lineZ x lz sm)" "same_lines x sm (put_lineZ x lz sm)"
    "linesZ (put_lineZ x lz sm) ! x = lz"
proof -
  let ?sm = "put_lineZ x lz sm"
  have l: "linesZ ?sm ! y = (if y = x then lz else linesZ sm ! y)" if "y < 128" for y
    using that secmap_okD(1) [OF ok] by (simp add: put_lineZ_def)
  have f: "flist ?sm = flist sm" by (simp add: flist_def put_lineZ_def)
  show "secmap_ok {} ?sm" unfolding secmap_ok_def
  proof (intro conjI allI impI, goal_cases)
    case 1 show ?case using secmap_okD(1) [OF ok] by (simp add: put_lineZ_def)
  next
    case 2 show ?case using secmap_okD(2) [OF ok] unfolding flines_ok_def put_lineZ_simps .
  next
    case (3 y) then show ?case using secmap_okD(3) [OF ok] l lz by (simp add: lineZ_ok_def)
  next
    case (4 y) then show ?case using secmap_okD(4) [OF ok] l lz by (simp add: lineZ_ok_def)
  next
    case (5 y) then show ?case using secmap_okD(5) [OF ok] l lz f by (simp add: zline_ok_def)
  next
    case (6 y w) then show ?case using secmap_okD(6) [OF ok, of y w] l lz(2) by (auto split: if_splits)
  next
    case (7 i) then show ?case using secmap_okD(7) [OF ok, of i] l f by auto
  qed
  show "same_lines x sm ?sm" using l f by (intro same_linesI) auto
  show "linesZ ?sm ! x = lz" using l x by simp
qed

lemma find_unused_Some:
  "find_unused fs i = Some j \<Longrightarrow> i \<le> j \<and> j - i < length fs \<and> \<not> inUse (fs ! (j - i))"
proof (induction fs arbitrary: i)
  case (Cons f fs)
  then show ?case
    by (cases "inUse f") (auto simp: nth_Cons' Suc_diff_le dest!: Cons.IH split: if_splits, (metis Suc_leD diff_Suc_eq_diff_pred)?)
qed simp

lemma find_unused_None: "find_unused fs i = None \<longleftrightarrow> list_all inUse fs"
  by (induction fs arbitrary: i) auto

text \<open>While a line is being rewritten at most 127 full lines are in use.\<close>

lemma inUse_less_128:
  assumes ok: "secmap_ok {x} sm" and x: "x < 128" and all: "list_all inUse (flist sm)"
  shows "length (flist sm) < 128"
proof -
  have "\<forall>i<length (flist sm). \<exists>y<128. y \<noteq> x \<and> zfix (linesZ sm ! y) = i"
    using secmap_okD(7) [OF ok] all by (fastforce simp: list_all_length)
  then have "{..<length (flist sm)} \<subseteq> (\<lambda>y. zfix (linesZ sm ! y)) ` ({..<128} - {x})" by fastforce
  from card_mono [OF _ this] have "length (flist sm) \<le> card ((\<lambda>y. zfix (linesZ sm ! y)) ` ({..<128} - {x}))" by simp
  also have "\<dots> \<le> card ({..<128} - {x})" by (rule card_image_le) simp
  also have "\<dots> < 128" using x by simp
  finally show ?thesis .
qed

lemma alloc_F_spec:
  assumes ok: "secmap_ok {x} sm" and x: "x < 128"
  shows "\<exists>fix sm'. alloc_F_for_writing sm = Some (fix, sm') \<and> secmap_ok {x} sm' \<and> same_lines x sm sm' \<and>
     linesZ sm' = linesZ sm \<and> fix < length (flist sm') \<and> \<not> inUse (flist sm' ! fix) \<and> linesF sm' = Some (flist sm')"
proof -
  have fl: "length (flist sm) = unat (linesF_size sm)" "linesF sm = None \<longleftrightarrow> linesF_size sm = 0"
    "linesF_size sm \<noteq> 0 \<longrightarrow> (\<exists>k\<le>7. length (flist sm) = 2 ^ k)" "\<forall>f\<in>set (flist sm). length (w64s f) = 64"
    using secmap_okD(2) [OF ok] by (auto simp: flines_ok_def)
  have pre: "case linesF sm of Some fs \<Rightarrow> linesF_size sm > 0 | None \<Rightarrow> linesF_size sm = 0"
    using fl(2) by (auto simp: word_neq_0_conv split: option.splits)
  show ?thesis
  proof (cases "Option.bind (linesF sm) (\<lambda>fs. find_unused fs 0)")
    case (Some i)
    then obtain fs where fs: "linesF sm = Some fs" "find_unused fs 0 = Some i" by (auto simp: bind_eq_Some_conv)
    then have "flist sm = fs" by (simp add: flist_def)
    with find_unused_Some [OF fs(2)] ok Some pre fs(1) show ?thesis
      by (intro exI [of _ i] exI [of _ sm]) (simp add: alloc_F_for_writing_def same_lines_refl)
  next
    case None
    then have all: "list_all inUse (flist sm)"
      by (auto simp: flist_def find_unused_None split: option.splits)
    define new_size where "new_size = (if linesF_size sm = 0 then 1 else 2 * linesF_size sm)"
    have lt: "length (flist sm) < 128" using inUse_less_128 [OF ok x all] .
    have ns: "length (flist sm) < unat new_size" "\<exists>k\<le>7. unat new_size = 2 ^ k" "new_size \<noteq> 0"
    proof -
      show "length (flist sm) < unat new_size" "\<exists>k\<le>7. unat new_size = 2 ^ k"
      proof (atomize (full), cases "linesF_size sm = 0")
        case True
        then show "length (flist sm) < unat new_size \<and> (\<exists>k\<le>7. unat new_size = 2 ^ k)"
          using fl(1) by (auto simp: new_size_def intro: exI [of _ 0])
      next
        case False
        with fl(3) obtain k where k: "length (flist sm) = 2 ^ k" by blast
        have "k < 7"
        proof (rule ccontr)
          assume "\<not> k < 7"
          then have "(2 :: nat) ^ 7 \<le> 2 ^ k" by (intro power_increasing) auto
          with lt k show False by simp
        qed
        have "unat (2 * linesF_size sm) = 2 * unat (linesF_size sm)"
          using lt fl(1) by (simp add: unat_mult_lem [THEN iffD1])
        then have "unat new_size = 2 ^ Suc k" using False fl(1) k by (simp add: new_size_def)
        with k \<open>k < 7\<close> show "length (flist sm) < unat new_size \<and> (\<exists>k\<le>7. unat new_size = 2 ^ k)"
          by (intro conjI exI [of _ "Suc k"]) auto
      qed
      then show "new_size \<noteq> 0" by auto
    qed
    define nyu where "nyu = flist sm @ drop (length (flist sm)) (replicate (unat new_size) zero_LineF)"
    define sm' where "sm' = sm\<lparr>linesF := Some nyu, linesF_size := new_size\<rparr>"
    have f': "flist sm' = nyu" "linesZ sm' = linesZ sm" "linesF sm' = Some nyu" by (simp_all add: flist_def sm'_def)
    have nth: "nyu ! i = (if i < length (flist sm) then flist sm ! i else zero_LineF)" if "i < unat new_size" for i
      using that by (simp add: nyu_def nth_append)
    have ln: "length nyu = unat new_size" using ns(1) by (simp add: nyu_def)
    have ok': "secmap_ok {x} sm'" unfolding secmap_ok_def
    proof (intro conjI allI impI, goal_cases)
      case 2
      have "\<forall>f\<in>set nyu. length (w64s f) = 64"
        using fl(4) by (auto simp: nyu_def zero_LineF_def N_LINE_ARANGE_def dest: in_set_dropD)
      then show ?case using ns ln by (simp add: flines_ok_def f') (simp add: sm'_def)
    next
      case (5 y)
      then have "zline_ok sm (linesZ sm ! y)" using secmap_okD(5) [OF ok] by simp
      then show ?case using nth ns(1) ln by (auto simp: f' zline_ok_def)
    next
      case (7 i)
      then have "i < length (flist sm)" using nth [of i] ln by (auto simp: f' zero_LineF_def split: if_splits)
      with 7 secmap_okD(7) [OF ok] nth [of i] ln show ?case by (simp add: f')
    qed (use secmap_okD [OF ok] f' in auto)
    have same: "same_lines x sm sm'"
    proof (rule same_linesI)
      fix y assume "y < 128" "y \<noteq> x" "isF (linesZ sm ! y)"
      then have "zfix (linesZ sm ! y) < length (flist sm)" using lineF_of_spec(3) [OF ok, of y] by simp
      then show "flist sm' ! zfix (linesZ sm ! y) = flist sm ! zfix (linesZ sm ! y)" using nth ns(1) by (simp add: f')
    qed (simp add: f')
    have "\<not> list_all inUse nyu"
      using nth [of "length (flist sm)"] ns(1) ln by (auto simp: list_all_length zero_LineF_def)
    then obtain j where j: "find_unused nyu 0 = Some j" using find_unused_None [of nyu 0] by auto
    have "(case linesF sm of None \<Rightarrow> Some (replicate (unat new_size) zero_LineF)
        | Some fs \<Rightarrow> do { tl_assert (list_all inUse fs); Some (fs @ drop (length fs) (replicate (unat new_size) zero_LineF)) })
        = Some nyu"
      using all by (auto simp: nyu_def flist_def split: option.splits)
    then have "alloc_F_for_writing sm = Some (j, sm')"
      using pre None j unfolding alloc_F_for_writing_def Let_def new_size_def [symmetric] sm'_def by simp
    then show ?thesis using find_unused_Some [OF j] ok' same f' by auto
  qed
qed

lemma close_F:
  assumes ok: "secmap_ok {x} sm" and x: "x < 128" and fx: "fix < length (flist sm)" "\<not> inUse (flist sm ! fix)"
    and w: "length w = 64" "\<forall>v\<in>set w. v \<noteq> SVal_INVALID"
    and lz: "dict lz = [SVal_INVALID, of_nat fix, SVal_INVALID, SVal_INVALID]" "length (ix2s lz) = 16"
  defines "sm' \<equiv> put_lineZ x lz (sm\<lparr>linesF := Some ((flist sm)[fix := (flist sm ! fix)\<lparr>inUse := True, w64s := w\<rparr>])\<rparr>)"
  shows "secmap_ok {} sm'" "same_lines x sm sm'" "linesZ sm' ! x = lz" "isF lz" "flist sm' ! zfix lz = (flist sm ! fix)\<lparr>inUse := True, w64s := w\<rparr>"
proof -
  let ?F = "(flist sm ! fix)\<lparr>inUse := True, w64s := w\<rparr>"
  have fl: "length (flist sm) = unat (linesF_size sm)" "linesF sm = None \<longleftrightarrow> linesF_size sm = 0"
    "linesF_size sm \<noteq> 0 \<longrightarrow> (\<exists>k\<le>7. length (flist sm) = 2 ^ k)" "\<forall>f\<in>set (flist sm). length (w64s f) = 64"
    using secmap_okD(2) [OF ok] by (auto simp: flines_ok_def)
  have "fix < 2 ^ 32" using fx(1) fl(1) unsigned_less [of "linesF_size sm", where 'a = nat] by simp
  then have zf: "zfix lz = fix" by (simp add: zfix_def lz(1) unsigned_ucast_eq unsigned_of_nat take_bit_nat_eq_self)
  have F: "isF lz" by (simp add: isF_def lz(1))
  have f': "flist sm' = (flist sm)[fix := ?F]" by (simp add: sm'_def) (simp add: flist_def)
  have l: "linesZ sm' ! y = (if y = x then lz else linesZ sm ! y)" if "y < 128" for y
    using that secmap_okD(1) [OF ok] by (simp add: sm'_def put_lineZ_def)
  have other: "fix \<noteq> zfix (linesZ sm ! y)" if "y < 128" "y \<noteq> x" "isF (linesZ sm ! y)" for y
    using lineF_of_spec(2) [OF ok, of y] that fx(2) by auto
  show "secmap_ok {} sm'" unfolding secmap_ok_def
  proof (intro conjI allI impI, goal_cases)
    case 1 show ?case using secmap_okD(1) [OF ok] by (simp add: sm'_def put_lineZ_def)
  next
    case 2
    have "\<forall>f\<in>set ((flist sm)[fix := ?F]). length (w64s f) = 64"
      using fl(4) w(1) subsetD [OF set_update_subset_insert] by fastforce
    moreover have "linesF_size sm \<noteq> 0" using fx(1) fl(1) by auto
    moreover have "linesF_size sm' = linesF_size sm" "linesF sm' \<noteq> None" by (simp_all add: sm'_def)
    ultimately show ?case using fl by (simp add: flines_ok_def f')
  next
    case (3 y) then show ?case using secmap_okD(3) [OF ok] l lz by simp
  next
    case (4 y) then show ?case using secmap_okD(4) [OF ok] l lz by simp
  next
    case (5 y)
    show ?case
    proof (cases "y = x")
      case True
      then show ?thesis using l [OF 5(1)] F zf fx(1) w(2) by (simp add: zline_ok_def f')
    next
      case False
      then have "zline_ok sm (linesZ sm ! y)" using secmap_okD(5) [OF ok] 5 by simp
      then show ?thesis using l [OF 5(1)] False other [of y] 5(1)
        by (cases "isF (linesZ sm ! y)") (auto simp: zline_ok_def f')
    qed
  next
    case (6 y v)
    then show ?case using l secmap_okD(6) [OF ok, of y v] other [of y] other [of v] zf
      by (cases "y = x"; cases "v = x") auto
  next
    case (7 i)
    show ?case
    proof (cases "i = fix")
      case True
      then show ?thesis using l [OF x] x F zf by (intro exI [of _ x]) simp
    next
      case False
      then have "i < length (flist sm)" "inUse (flist sm ! i)" using 7 by (simp_all add: f')
      from secmap_okD(7) [OF ok this] l show ?thesis by auto
    qed
  qed
  show "same_lines x sm sm'"
  proof (rule same_linesI)
    fix y assume "y < 128" "y \<noteq> x" "isF (linesZ sm ! y)"
    then show "flist sm' ! zfix (linesZ sm ! y) = flist sm ! zfix (linesZ sm ! y)" using other [of y] by (simp add: f')
  qed (use l in simp)
  show "linesZ sm' ! x = lz" "isF lz" using l [OF x] F by simp_all
  show "flist sm' ! zfix lz = ?F" using zf fx(1) by (simp add: f')
qed

section \<open>The primary map\<close>

definition sm_at :: "'u zsm \<Rightarrow> Addr \<Rightarrow> SecMap_ptr option" where
  "sm_at z k = map_option snd (lookupFM (map_shmem z) k)"

text \<open>
  Keys are addresses of secondary maps, below the limit of the addresses of a client program
  (47 bits), so that there are at most \<^term>\<open>2 ^ 34 :: nat\<close> of them.
\<close>

definition key_ok :: "Addr \<Rightarrow> bool" where
  "key_ok k \<longleftrightarrow> k AND 8191 = 0 \<and> k < 2 ^ 47"

definition shape_ok :: "'u zsm \<Rightarrow> bool" where
  "shape_ok z \<longleftrightarrow> fm_inv cmp_unsigned_Words (\<lambda>w. w) (map_shmem z) \<and>
     (\<forall>k s. sm_at z k = Some s \<longrightarrow> s < length (secmaps z) \<and> key_ok k) \<and>
     (\<forall>k k' s. sm_at z k = Some s \<and> sm_at z k' = Some s \<longrightarrow> k = k') \<and>
     (\<forall>s<length (secmaps z). \<exists>k. sm_at z k = Some s) \<and>
     length (smCache z) = 3 \<and>
     (\<forall>e\<in>set (smCache z). fst e = 1 \<or> (\<exists>s. snd e = Some s \<and> sm_at z (fst e) = Some s))"

definition new_SecMap :: SecMap where
  "new_SecMap = \<lparr>magic = SecMap_MAGIC, linesZ = replicate N_SECMAP_ZLINES new_LineZ, linesF = None, linesF_size = 0\<rparr>"

lemma shape_okD:
  assumes "shape_ok z"
  shows "fm_inv cmp_unsigned_Words (\<lambda>w. w) (map_shmem z)"
    "\<And>k s. sm_at z k = Some s \<Longrightarrow> s < length (secmaps z)" "\<And>k s. sm_at z k = Some s \<Longrightarrow> key_ok k"
    "\<And>k k' s. sm_at z k = Some s \<Longrightarrow> sm_at z k' = Some s \<Longrightarrow> k = k'"
    "\<And>s. s < length (secmaps z) \<Longrightarrow> \<exists>k. sm_at z k = Some s" "length (smCache z) = 3"
    "\<And>e. e \<in> set (smCache z) \<Longrightarrow> fst e = 1 \<or> (\<exists>s. snd e = Some s \<and> sm_at z (fst e) = Some s)"
  using assms unfolding shape_ok_def by blast+

lemma base_mod: "unat (shmem__round_to_SecMap_base a) = unat a - unat a mod 8192"
proof -
  have m: "(8191 :: Addr) = mask 13" by (simp add: mask_eq_exp_minus_1)
  have "(a AND NOT (mask 13)) + (a AND mask 13) = a"
    by (subst disjunctive_add) (auto simp: bit_simps intro!: bit_word_eqI)
  moreover have "(a AND NOT (mask 13)) \<le> a" by (simp add: word_and_le2)
  ultimately have "unat a = unat (a AND NOT (mask 13)) + unat (a AND mask 13)"
    by (metis add_diff_cancel_left' add_diff_cancel_right' unat_sub le_add_diff_inverse word_le_nat_alt)
  moreover have "unat (a AND mask 13) = unat a mod 8192" using unat_and_mask [of a 13] by simp
  ultimately show ?thesis by (simp add: shmem__round_to_SecMap_base_def N_SECMAP_ARANGE_def m)
qed

lemma base_key_ok: "a < 2 ^ 47 \<Longrightarrow> key_ok (shmem__round_to_SecMap_base a)"
proof -
  assume "a < 2 ^ 47"
  then have "unat a < 2 ^ 47" by (simp add: word_less_nat_alt)
  moreover have "(unat a - unat a mod 8192) mod 8192 = 0" by (simp add: minus_mod_eq_mult_div)
  ultimately show ?thesis using base_mod [of a]
    by (simp add: key_ok_def word_less_nat_alt and_mask_mod unat_eq_0 [symmetric])
qed

lemma base_not_1: "shmem__round_to_SecMap_base a \<noteq> 1"
proof
  assume "shmem__round_to_SecMap_base a = 1"
  then have "unat a - unat a mod 8192 = 1" using base_mod [of a] by simp
  moreover have "(unat a - unat a mod 8192) mod 8192 = 0" by (simp add: minus_mod_eq_mult_div)
  ultimately show False by simp
qed

lemma secmaps_bound:
  assumes "shape_ok z"
  shows "length (secmaps z) \<le> 2 ^ 34"
proof -
  define key where "key s = (SOME k. sm_at z k = Some s)" for s
  have key: "sm_at z (key s) = Some s" if "s < length (secmaps z)" for s
    unfolding key_def using someI_ex [OF shape_okD(5) [OF assms that]] .
  let ?f = "\<lambda>s. unat (key s) div 8192"
  have trans_sym: "x = y \<Longrightarrow> x' = y \<Longrightarrow> x = x'" for x x' y :: nat by simp
  have ko: "unat (key s) mod 8192 = 0 \<and> unat (key s) < 2 ^ 47" if "s < length (secmaps z)" for s
    using shape_okD(3) [OF assms key [OF that]]
    by (simp add: key_ok_def word_less_nat_alt and_mask_mod unat_eq_0 [symmetric])
  have inj: "inj_on ?f {..<length (secmaps z)}"
  proof (rule inj_onI)
    fix s s' assume s: "s \<in> {..<length (secmaps z)}" "s' \<in> {..<length (secmaps z)}" "?f s = ?f s'"
    have "unat (key r) = 8192 * ?f r" if "r \<in> {..<length (secmaps z)}" for r
      using ko [of r] that mult_div_mod_eq [of 8192 "unat (key r)"] by simp
    from this [OF s(1)] this [OF s(2)] have "unat (key s) = unat (key s')" unfolding s(3) by (rule trans_sym)
    then have "key s = key s'" by (simp add: word_unat_eq_iff)
    moreover have "sm_at z (key s) = Some s" "sm_at z (key s') = Some s'" using key s(1,2) by blast+
    ultimately show "s = s'" by (metis option.inject)
  qed
  have "?f ` {..<length (secmaps z)} \<subseteq> {..<2 ^ 34}"
  proof
    fix n assume "n \<in> ?f ` {..<length (secmaps z)}"
    then obtain s where "s < length (secmaps z)" "n = ?f s" by blast
    with ko [of s] have "unat (key s) < 2 ^ 34 * 8192" "n = unat (key s) div 8192" by auto
    then show "n \<in> {..<2 ^ 34}" by (simp only: lessThan_iff less_mult_imp_div_less)
  qed
  from card_inj_on_le [OF inj this] show ?thesis by simp
qed

text \<open>Looking up a secondary map, through the small cache.\<close>

definition frame :: "'u zsm \<Rightarrow> 'u zsm \<Rightarrow> bool" where
  "frame z z' \<longleftrightarrow> rcinc z' = rcinc z \<and> rcdec z' = rcdec z \<and> tags0 z' = tags0 z \<and> lyns0 z' = lyns0 z"

lemma frame_refl [simp]: "frame z z"
  by (simp add: frame_def)

lemma frame_trans: "frame z z1 \<Longrightarrow> frame z1 z2 \<Longrightarrow> frame z z2"
  by (simp add: frame_def)

lemma find_SecMap_spec:
  assumes "shape_ok z"
  shows "\<exists>c. shmem__find_SecMap a z = (sm_at z (shmem__round_to_SecMap_base a), z\<lparr>smCache := c\<rparr>) \<and> shape_ok (z\<lparr>smCache := c\<rparr>)"
proof -
  let ?k = "shmem__round_to_SecMap_base a"
  note ok = shape_okD [OF assms]
  from ok(6) obtain c0 c1 c2 where c: "smCache z = [c0, c1, c2]"
    by (auto simp: numeral_eq_Suc length_Suc_conv)
  have hit: "snd e = sm_at z ?k" if "e \<in> {c0, c1, c2}" "?k = fst e" for e
    using ok(7) [of e] that c base_not_1 [of a] by auto
  have shp: "shape_ok (z\<lparr>smCache := d\<rparr>)" if "length d = 3" "\<And>e. e \<in> set d \<Longrightarrow> fst e = 1 \<or> (\<exists>s. snd e = Some s \<and> sm_at z (fst e) = Some s)" for d
    using assms that by (simp add: shape_ok_def sm_at_def)
  note old = ok(7) [unfolded c]
  consider "?k = fst c0" | "?k \<noteq> fst c0" "?k = fst c1" | "?k \<noteq> fst c0" "?k \<noteq> fst c1" "?k = fst c2"
    | "?k \<noteq> fst c0" "?k \<noteq> fst c1" "?k \<noteq> fst c2" "lookupFM (map_shmem z) ?k = None"
    | k' s where "?k \<noteq> fst c0" "?k \<noteq> fst c1" "?k \<noteq> fst c2" "lookupFM (map_shmem z) ?k = Some (k', s)"
    by (metis not_None_eq surj_pair)
  then show ?thesis
  proof cases
    case 1
    then show ?thesis using hit [of c0] shp [of "[c0, c1, c2]"] old c
      by (intro exI [of _ "[c0, c1, c2]"]) (auto simp: shmem__find_SecMap_def Let_def)
  next
    case 2
    then show ?thesis using hit [of c1] shp [of "[c1, c0, c2]"] old c
      by (intro exI [of _ "[c1, c0, c2]"]) (auto simp: shmem__find_SecMap_def Let_def)
  next
    case 3
    then show ?thesis using hit [of c2] shp [of "[c0, c2, c1]"] old c
      by (intro exI [of _ "[c0, c2, c1]"]) (auto simp: shmem__find_SecMap_def Let_def numeral_2_eq_2)
  next
    case 4
    then show ?thesis using shp [of "[c0, c1, c2]"] old c
      by (intro exI [of _ "[c0, c1, c2]"]) (auto simp: shmem__find_SecMap_def Let_def sm_at_def numeral_2_eq_2)
  next
    case 5
    have "sm_at z ?k = Some s" using 5 by (simp add: sm_at_def)
    moreover have "shape_ok (z\<lparr>smCache := [(?k, Some s), c0, c1]\<rparr>)"
      by (rule shp) (use calculation old in auto)
    ultimately show ?thesis using 5 c
      by (intro exI [of _ "[(?k, Some s), c0, c1]"]) (auto simp: shmem__find_SecMap_def Let_def numeral_2_eq_2)
  qed
qed

lemma find_or_alloc_spec:
  assumes "shape_ok z" "a < 2 ^ 47"
  shows "\<exists>s z'. shmem__find_or_alloc_SecMap a z = Some (s, z') \<and> shape_ok z' \<and> frame z z' \<and> zsm_user z' = zsm_user z \<and>
     sm_at z' (shmem__round_to_SecMap_base a) = Some s \<and>
     (secmaps z' = secmaps z \<and> sm_at z' = sm_at z \<or>
      secmaps z' = secmaps z @ [new_SecMap] \<and> sm_at z (shmem__round_to_SecMap_base a) = None \<and> s = length (secmaps z) \<and>
      sm_at z' = (sm_at z)(shmem__round_to_SecMap_base a \<mapsto> s))"
proof -
  let ?k = "shmem__round_to_SecMap_base a"
  from find_SecMap_spec [OF assms(1), of a] obtain c where
    c: "shmem__find_SecMap a z = (sm_at z ?k, z\<lparr>smCache := c\<rparr>)" "shape_ok (z\<lparr>smCache := c\<rparr>)" by blast
  show ?thesis
  proof (cases "sm_at z ?k")
    case (Some s)
    moreover have "sm_at (z\<lparr>smCache := c\<rparr>) = sm_at z" by (simp add: sm_at_def fun_eq_iff)
    ultimately show ?thesis using c
      by (intro exI [of _ s] exI [of _ "z\<lparr>smCache := c\<rparr>"])
        (simp add: shmem__find_or_alloc_SecMap_def frame_def)
  next
    case None
    let ?s = "length (secmaps z)" and ?z = "z\<lparr>smCache := c\<rparr>"
    have "lookupFM (map_shmem z) ?k = None" using None by (simp add: sm_at_def)
    with unboxed.fm.add_lookup_fresh [OF shape_okD(1) [OF assms(1)], of ?k ?s] obtain fm where
      fm: "addToFM (map_shmem z) ?k ?s = Some (False, fm)" "fm_inv cmp_unsigned_Words (\<lambda>w. w) fm"
      "\<And>j. lookupFM fm j = (if j = ?k then Some (?k, ?s) else lookupFM (map_shmem z) j)" by blast
    define z' where "z' = ?z\<lparr>secmaps := secmaps z @ [new_SecMap], map_shmem := fm\<rparr>"
    have at: "sm_at z' = (sm_at z)(?k \<mapsto> ?s)" using fm(3) by (auto simp: sm_at_def z'_def fun_eq_iff)
    have at': "sm_at ?z = sm_at z" by (simp add: sm_at_def fun_eq_iff)
    have "shape_ok z'" unfolding shape_ok_def
    proof (intro conjI allI impI ballI, goal_cases)
      case 1 show ?case using fm(2) by (simp add: z'_def)
    next
      case (2 k s) then show ?case using shape_okD(2) [OF assms(1), of k s] by (auto simp: at split: if_splits) (auto simp: z'_def)
    next
      case (3 k s) then show ?case using shape_okD(3) [OF assms(1), of k s] base_key_ok [OF assms(2)]
        by (auto simp: at split: if_splits)
    next
      case (4 k k' s) then show ?case
        using shape_okD(4) [OF assms(1), of k s k'] shape_okD(2) [OF assms(1), of k s] shape_okD(2) [OF assms(1), of k' s]
        by (auto simp: at split: if_splits)
    next
      case (5 s)
      show ?case
      proof (cases "s = ?s")
        case True then show ?thesis by (intro exI [of _ ?k]) (simp add: at)
      next
        case False
        with 5 have "s < length (secmaps z)" by (simp add: z'_def)
        from shape_okD(5) [OF assms(1) this] obtain k where "sm_at z k = Some s" by blast
        with None show ?thesis by (intro exI [of _ k]) (auto simp: at)
      qed
    next
      case 6 show ?case using shape_okD(6) [OF c(2)] by (simp add: z'_def)
    next
      case (7 e)
      then have "e \<in> set (smCache ?z)" by (simp add: z'_def)
      from shape_okD(7) [OF c(2) this] None show ?case by (auto simp: at at')
    qed
    moreover have "shmem__find_or_alloc_SecMap a z = Some (?s, z')"
      using None c(1) fm(1) by (simp add: shmem__find_or_alloc_SecMap_def shmem__alloc_SecMap_def z'_def new_SecMap_def)
    ultimately show ?thesis using None
      by (intro exI [of _ ?s] exI [of _ z']) (simp add: at, simp add: z'_def frame_def)
  qed
qed

section \<open>The backing store\<close>

text \<open>The line of a secondary map that a tag belongs to.\<close>

definition zix_of :: "Addr \<Rightarrow> nat" where
  "zix_of t = shmem__get_SecMap_offset t div 64"

definition tag_ok :: "Addr \<Rightarrow> bool" where
  "tag_ok t \<longleftrightarrow> is_valid_scache_tag t \<and> t < 2 ^ 47"

lemma SecMap_offset_mod: "shmem__get_SecMap_offset t = unat t mod 8192"
  by (simp add: shmem__get_SecMap_offset_def N_SECMAP_ARANGE_def and_mask_mod)

lemma valid_tag_mod: "is_valid_scache_tag t \<longleftrightarrow> unat t mod 64 = 0"
  by (auto simp: is_valid_scache_tag_def N_LINE_ARANGE_def and_mask_mod [symmetric] unat_eq_0)

lemma and_63: "(n :: nat) AND 63 = n mod 64"
  using take_bit_eq_mask [of 6 n] take_bit_eq_mod [of 6 n] by (simp add: mask_eq_exp_minus_1)

lemma zix_less: "zix_of t < 128"
proof -
  have "unat t mod 8192 < 8192" by simp
  then show ?thesis by (simp add: zix_of_def SecMap_offset_mod less_mult_imp_div_less)
qed

lemma zix_code:
  assumes "is_valid_scache_tag t"
  shows "0 = shmem__get_SecMap_offset t AND (N_LINE_ARANGE - 1)" "drop_bit N_LINE_BITS (shmem__get_SecMap_offset t) = zix_of t"
  using assms by (simp_all add: N_LINE_ARANGE_def N_LINE_BITS_def and_63 drop_bit_eq_div zix_of_def
      SecMap_offset_mod valid_tag_mod mod_mod_cancel)

lemma line_id_inj:
  assumes "is_valid_scache_tag t" "is_valid_scache_tag t'" "shmem__round_to_SecMap_base t = shmem__round_to_SecMap_base t'"
    "zix_of t = zix_of t'"
  shows "t = t'"
proof -
  have u: "unat s = unat (shmem__round_to_SecMap_base s) + 64 * zix_of s" if "is_valid_scache_tag s" for s
  proof -
    have "unat s mod 8192 mod 64 = 0" using that by (simp add: valid_tag_mod mod_mod_cancel)
    then have "64 * zix_of s = unat s mod 8192"
      using mult_div_mod_eq [of 64 "unat s mod 8192"] by (simp add: zix_of_def SecMap_offset_mod)
    then show ?thesis using base_mod [of s] mod_less_eq_dividend [of "unat s" 8192] by linarith
  qed
  have "unat t = unat t'" using u [OF assms(1)] u [OF assms(2)] assms(3,4) by simp
  then show ?thesis by (simp add: word_unat_eq_iff)
qed

definition line_at :: "'u zsm \<Rightarrow> nat \<times> nat \<Rightarrow> SecMap \<times> LineZ" where
  "line_at z p = (secmaps z ! fst p, linesZ (secmaps z ! fst p) ! snd p)"

definition line_vals :: "'u zsm \<Rightarrow> nat \<times> nat \<Rightarrow> SVal list" where
  "line_vals z p = zline_vals (fst (line_at z p)) (snd (line_at z p))"

definition line_refs :: "'u zsm \<Rightarrow> nat \<times> nat \<Rightarrow> SVal list" where
  "line_refs z p = zline_refs (fst (line_at z p)) (snd (line_at z p))"

definition lines_of :: "'u zsm \<Rightarrow> (nat \<times> nat) set" where
  "lines_of z = {..<length (secmaps z)} \<times> {..<128}"

text \<open>
  The store with the lines \<open>H\<close> being rewritten, the references that its other lines hold, and the
  64 values stored under a tag.
\<close>

definition store_ok :: "(nat \<times> nat) set \<Rightarrow> 'u zsm \<Rightarrow> bool" where
  "store_ok H z \<longleftrightarrow> shape_ok z \<and> (\<forall>s<length (secmaps z). secmap_ok {x. (s, x) \<in> H} (secmaps z ! s))"

definition refs :: "(nat \<times> nat) set \<Rightarrow> 'u zsm \<Rightarrow> SVal multiset" where
  "refs H z = (\<Sum>p\<in>lines_of z - H. mset (line_refs z p))"

definition store_line :: "'u zsm \<Rightarrow> Addr \<Rightarrow> SVal list" where
  "store_line z t = (case sm_at z (shmem__round_to_SecMap_base t) of
     None \<Rightarrow> replicate 64 SVal_NOACCESS | Some s \<Rightarrow> line_vals z (s, zix_of t))"

lemma finite_lines [simp]: "finite (lines_of z)"
  by (simp add: lines_of_def)

lemma line_refs_in_refs:
  assumes "p \<in> lines_of z - H" "v \<in> set (line_refs z p)" shows "v \<in># refs H z"
  using assms sum.remove [of "lines_of z - H" p "\<lambda>p. mset (line_refs z p)"] by (simp add: refs_def)

lemma line_vals_refs:
  assumes "store_ok H z" "(s, x) \<in> lines_of z - H"
  shows "length (line_vals z (s, x)) = 64" "\<forall>v\<in>set (line_vals z (s, x)). v \<noteq> SVal_INVALID \<and> v \<in># refs H z"
    "length (line_refs z (s, x)) \<le> 64"
proof -
  have ok: "secmap_ok {x. (s, x) \<in> H} (secmaps z ! s)" "x < 128" "x \<notin> {x. (s, x) \<in> H}"
    using assms by (auto simp: store_ok_def lines_of_def)
  note V = zline_vals_valid [OF ok]
  show "length (line_vals z (s, x)) = 64" "length (line_refs z (s, x)) \<le> 64"
    using V by (simp_all add: line_vals_def line_refs_def line_at_def)
  have "set (line_vals z (s, x)) \<subseteq> set (line_refs z (s, x))"
    using V(3) by (simp add: line_vals_def line_refs_def line_at_def)
  then show "\<forall>v\<in>set (line_vals z (s, x)). v \<noteq> SVal_INVALID \<and> v \<in># refs H z"
    using V(2) line_refs_in_refs [OF assms(2)] by (auto simp: line_vals_def line_at_def)
qed

lemma size_sum_mset: "finite A \<Longrightarrow> size (\<Sum>p\<in>A. mset (f p)) = (\<Sum>p\<in>A. length (f p))"
  by (induction A rule: finite_induct) auto

lemma sum_single_mset: "finite A \<Longrightarrow> (\<Sum>p\<in>A. {#x#}) = replicate_mset (card A) x"
  by (induction A rule: finite_induct) auto

lemma size_refs:
  assumes "store_ok H z" shows "size (refs H z) \<le> 2 ^ 47"
proof -
  have "size (refs H z) = (\<Sum>p\<in>lines_of z - H. length (line_refs z p))" by (simp add: refs_def size_sum_mset)
  also have "\<dots> \<le> (\<Sum>p\<in>lines_of z - H. 64)" using line_vals_refs(3) [OF assms] by (intro sum_mono) auto
  also have "\<dots> \<le> (\<Sum>p\<in>lines_of z. 64)" by (intro sum_mono2) auto
  also have "\<dots> = length (secmaps z) * 8192" by (simp add: lines_of_def card_cartesian_product)
  also have "\<dots> \<le> 2 ^ 34 * 8192" using secmaps_bound assms by (intro mult_right_mono) (auto simp: store_ok_def)
  finally show ?thesis by simp
qed

lemma store_line_valid:
  assumes "store_ok {} z"
  shows "length (store_line z t) = 64"
    "v \<in> set (store_line z t) \<Longrightarrow> v \<noteq> SVal_INVALID \<and> (v = SVal_NOACCESS \<or> v \<in># refs {} z)"
proof -
  have n: "SVal_NOACCESS \<noteq> SVal_INVALID" by (simp add: SVal_NOACCESS_def SVal_INVALID_def)
  have s: "(s, zix_of t) \<in> lines_of z - {}" if "sm_at z (shmem__round_to_SecMap_base t) = Some s" for s
    using shape_okD(2) that assms zix_less [of t] by (auto simp: store_ok_def lines_of_def)
  show "length (store_line z t) = 64"
    using line_vals_refs(1) [OF assms s] by (simp add: store_line_def split: option.splits)
  show "v \<in> set (store_line z t) \<Longrightarrow> v \<noteq> SVal_INVALID \<and> (v = SVal_NOACCESS \<or> v \<in># refs {} z)"
    using line_vals_refs(2) [OF assms s] n by (auto simp: store_line_def split: option.splits)
qed

lemma new_SecMap_ok: "secmap_ok {} new_SecMap"
  "x < 128 \<Longrightarrow> zline_vals new_SecMap (linesZ new_SecMap ! x) = replicate 64 SVal_NOACCESS"
  "x < 128 \<Longrightarrow> zline_refs new_SecMap (linesZ new_SecMap ! x) = [SVal_NOACCESS]"
proof -
  have n: "SVal_NOACCESS \<noteq> SVal_INVALID" by (simp add: SVal_NOACCESS_def SVal_INVALID_def)
  have F: "\<not> isF new_LineZ" using n by (simp add: isF_def new_LineZ_def)
  have l: "linesZ new_SecMap ! x = new_LineZ" if "x < 128" for x
    using that by (simp add: new_SecMap_def N_SECMAP_ZLINES_def)
  have v: "lineZ_val new_LineZ k = SVal_NOACCESS" if "k < 64" for k
    using that by (simp add: lineZ_val_def new_LineZ_def read_twobit_array_def Let_def twobit_div_mod less_mult_imp_div_less)
  show "secmap_ok {} new_SecMap" using l F v n
    by (auto simp: secmap_ok_def zline_ok_def lineZ_ok_def)
      (auto simp: new_SecMap_def new_LineZ_def flines_ok_def flist_def N_SECMAP_ZLINES_def)
  show "x < 128 \<Longrightarrow> zline_vals new_SecMap (linesZ new_SecMap ! x) = replicate 64 SVal_NOACCESS"
    using F v l by (auto simp: zline_vals_def intro!: nth_equalityI)
  show "x < 128 \<Longrightarrow> zline_refs new_SecMap (linesZ new_SecMap ! x) = [SVal_NOACCESS]"
    using F l by (simp add: zline_refs_def LineZ_svals_def new_LineZ_def)
qed

text \<open>Finding or making a secondary map changes no stored value and adds only references to \<^verbatim>\<open>SVal_NOACCESS\<close>.\<close>

lemma find_or_alloc_store:
  assumes "store_ok {} z" "a < 2 ^ 47"
  shows "\<exists>s z' n. shmem__find_or_alloc_SecMap a z = Some (s, z') \<and> store_ok {} z' \<and> frame z z' \<and> zsm_user z' = zsm_user z \<and>
     sm_at z' (shmem__round_to_SecMap_base a) = Some s \<and> store_line z' = store_line z \<and>
     refs {} z' = refs {} z + replicate_mset n SVal_NOACCESS"
proof -
  let ?k = "shmem__round_to_SecMap_base a"
  have shp: "shape_ok z" using assms(1) by (simp add: store_ok_def)
  from find_or_alloc_spec [OF shp assms(2)] obtain s z' where
    f: "shmem__find_or_alloc_SecMap a z = Some (s, z')" "shape_ok z'" "frame z z'" "zsm_user z' = zsm_user z"
      "sm_at z' ?k = Some s" and
    c: "secmaps z' = secmaps z \<and> sm_at z' = sm_at z \<or> secmaps z' = secmaps z @ [new_SecMap] \<and> sm_at z ?k = None \<and>
      s = length (secmaps z) \<and> sm_at z' = (sm_at z)(?k \<mapsto> s)" by blast
  from c show ?thesis
  proof
    assume "secmaps z' = secmaps z \<and> sm_at z' = sm_at z"
    then have "store_line z' = store_line z" "refs {} z' = refs {} z" "store_ok {} z'"
      using assms(1) f(2)
      by (auto simp: store_line_def fun_eq_iff line_vals_def line_at_def refs_def line_refs_def lines_of_def store_ok_def
          split: option.splits)
    with f show ?thesis by (intro exI [of _ s] exI [of _ z'] exI [of _ 0]) simp
  next
    assume n: "secmaps z' = secmaps z @ [new_SecMap] \<and> sm_at z ?k = None \<and> s = length (secmaps z) \<and> sm_at z' = (sm_at z)(?k \<mapsto> s)"
    let ?new = "Pair s ` {..<128 :: nat}"
    have old: "line_at z' p = line_at z p" if "p \<in> lines_of z" for p
      using that n by (auto simp: line_at_def lines_of_def nth_append)
    have new: "line_at z' (s, x) = (new_SecMap, linesZ new_SecMap ! x)" for x using n by (simp add: line_at_def)
    have "lines_of z' = lines_of z \<union> ?new" "lines_of z \<inter> ?new = {}" using n by (auto simp: lines_of_def less_Suc_eq)
    then have "refs {} z' = (\<Sum>p\<in>lines_of z. mset (line_refs z' p)) + (\<Sum>p\<in>?new. mset (line_refs z' p))"
      by (simp add: refs_def sum.union_disjoint)
    also have "(\<Sum>p\<in>lines_of z. mset (line_refs z' p)) = refs {} z"
      using old by (simp add: refs_def line_refs_def)
    also have "(\<Sum>p\<in>?new. mset (line_refs z' p)) = (\<Sum>p\<in>?new. {#SVal_NOACCESS#})"
      using new new_SecMap_ok(3) by (intro sum.cong) (auto simp: line_refs_def)
    also have "\<dots> = replicate_mset (card ?new) SVal_NOACCESS"
      by (rule sum_single_mset) simp
    finally have r: "refs {} z' = refs {} z + replicate_mset (card ?new) SVal_NOACCESS" .
    have "store_line z' t = store_line z t" for t
    proof (cases "shmem__round_to_SecMap_base t = ?k")
      case True
      then show ?thesis using n new new_SecMap_ok(2) [OF zix_less] by (simp add: store_line_def line_vals_def)
    next
      case False
      then have at: "sm_at z' (shmem__round_to_SecMap_base t) = sm_at z (shmem__round_to_SecMap_base t)" using n by simp
      have "line_vals z' (s', zix_of t) = line_vals z (s', zix_of t)" if "sm_at z (shmem__round_to_SecMap_base t) = Some s'" for s'
        using old [of "(s', zix_of t)"] shape_okD(2) [OF shp that] zix_less by (simp add: line_vals_def lines_of_def)
      then show ?thesis using at by (simp add: store_line_def split: option.splits)
    qed
    moreover have "store_ok {} z'" using assms(1) f(2) n new_SecMap_ok(1)
      by (auto simp: store_ok_def nth_append less_Suc_eq)
    ultimately show ?thesis using f r by (intro exI [of _ s] exI [of _ z'] exI [of _ "card ?new"]) (auto simp: fun_eq_iff)
  qed
qed

end
