(* ===== verification/ShadowCache.thy ===== *)
theory ShadowCache
  imports ShadowMem
begin

text \<open>
  Correctness of the cache of the shadow memory.  The contract that the shadow memory needs of its
  owner's reference counts is the locale \<open>rc_client\<close>; in it, writing a line back and fetching it
  again are shown to lose nothing, the value of every address is unchanged by cache misses and by a
  flush, and the counts are exact for the backing store at all times.
\<close>

section \<open>Opening and closing a line\<close>

text \<open>Replacing the secondary map \<open>s\<close> by one that differs at line \<open>x\<close> only.\<close>

lemma sm_at_put [simp]: "sm_at (put_SecMap s sm z) = sm_at z" "sm_at (z\<lparr>zsm_user := u\<rparr>) = sm_at z"
  by (simp_all add: sm_at_def fun_eq_iff put_SecMap_def)

lemma shape_put [simp]: "shape_ok (put_SecMap s sm z) = shape_ok z" "shape_ok (z\<lparr>zsm_user := u\<rparr>) = shape_ok z"
  by (simp_all add: shape_ok_def sm_at_def put_SecMap_def)

lemma store_user [simp]:
  "store_ok H (z\<lparr>zsm_user := u\<rparr>) = store_ok H z" "refs H (z\<lparr>zsm_user := u\<rparr>) = refs H z"
  "store_line (z\<lparr>zsm_user := u\<rparr>) = store_line z" "lines_of (z\<lparr>zsm_user := u\<rparr>) = lines_of z"
  by (simp_all add: store_ok_def refs_def store_line_def line_refs_def line_vals_def line_at_def lines_of_def fun_eq_iff
      split: option.splits)

lemma line_put:
  assumes "same_lines x (secmaps z ! s) sm'" "p \<in> lines_of z" "p \<noteq> (s, x)"
  shows "line_refs (put_SecMap s sm' z) p = line_refs z p" "line_vals (put_SecMap s sm' z) p = line_vals z p"
proof -
  obtain r y where p: "p = (r, y)" "r < length (secmaps z)" "y < 128" using assms(2) by (cases p) (auto simp: lines_of_def)
  have "line_refs (put_SecMap s sm' z) p = line_refs z p \<and> line_vals (put_SecMap s sm' z) p = line_vals z p"
  proof (cases "r = s")
    case True
    then have "y \<noteq> x" using assms(3) p(1) by simp
    with assms(1) p True show ?thesis
      by (simp add: line_refs_def line_vals_def line_at_def put_SecMap_def same_lines_def)
  next
    case False
    then show ?thesis using p by (simp add: line_refs_def line_vals_def line_at_def put_SecMap_def)
  qed
  then show "line_refs (put_SecMap s sm' z) p = line_refs z p" "line_vals (put_SecMap s sm' z) p = line_vals z p" by auto
qed

lemma lines_put [simp]: "lines_of (put_SecMap s sm z) = lines_of z"
  by (simp add: lines_of_def put_SecMap_def)

lemma put_store:
  assumes ok: "store_ok H z" and sx: "(s, x) \<in> lines_of z" and H: "H \<subseteq> {(s, x)}" "H' \<subseteq> {(s, x)}"
    and sm': "secmap_ok {y. (s, y) \<in> H'} sm'" "same_lines x (secmaps z ! s) sm'"
  shows "store_ok H' (put_SecMap s sm' z)" "refs {(s, x)} (put_SecMap s sm' z) = refs {(s, x)} z"
    "sm_at z (shmem__round_to_SecMap_base tag) = Some s \<Longrightarrow> x = zix_of tag \<Longrightarrow> is_valid_scache_tag tag \<Longrightarrow>
       is_valid_scache_tag t \<Longrightarrow> t \<noteq> tag \<Longrightarrow> store_line (put_SecMap s sm' z) t = store_line z t"
proof -
  let ?z = "put_SecMap s sm' z"
  have s: "s < length (secmaps z)" using sx by (simp add: lines_of_def)
  have shp: "shape_ok z" using ok by (simp add: store_ok_def)
  show "store_ok H' ?z" unfolding store_ok_def
  proof (intro conjI allI impI)
    fix r assume "r < length (secmaps ?z)"
    then have r: "r < length (secmaps z)" by (simp add: put_SecMap_def)
    show "secmap_ok {x. (r, x) \<in> H'} (secmaps ?z ! r)"
    proof (cases "r = s")
      case True
      then show ?thesis using sm'(1) s by (simp add: put_SecMap_def)
    next
      case False
      then have "{x. (r, x) \<in> H'} = {}" "{x. (r, x) \<in> H} = {}" using H by auto
      with ok r False show ?thesis by (auto simp: store_ok_def put_SecMap_def)
    qed
  qed (use shp in simp)
  show "refs {(s, x)} ?z = refs {(s, x)} z"
    unfolding refs_def lines_put using line_put(1) [OF sm'(2)] by (intro sum.cong) auto
  assume tag: "sm_at z (shmem__round_to_SecMap_base tag) = Some s" "x = zix_of tag" "is_valid_scache_tag tag"
    and t: "is_valid_scache_tag t" "t \<noteq> tag"
  show "store_line ?z t = store_line z t"
  proof (cases "sm_at z (shmem__round_to_SecMap_base t)")
    case (Some r)
    have "(r, zix_of t) \<noteq> (s, x)"
    proof
      assume "(r, zix_of t) = (s, x)"
      then have "sm_at z (shmem__round_to_SecMap_base t) = Some s" "zix_of t = zix_of tag" using Some tag by auto
      from shape_okD(4) [OF shp this(1) tag(1)] line_id_inj [OF t(1) tag(3) _ this(2)] t(2) show False by simp
    qed
    moreover have "(r, zix_of t) \<in> lines_of z" using shape_okD(2) [OF shp Some] zix_less by (simp add: lines_of_def)
    ultimately show ?thesis using line_put(2) [OF sm'(2)] Some by (simp add: store_line_def)
  qed (simp add: store_line_def)
qed

lemma refs_hole: "p \<in> lines_of z \<Longrightarrow> refs {} z = refs {p} z + mset (line_refs z p)"
  using sum.remove [of "lines_of z" p "\<lambda>p. mset (line_refs z p)"] by (simp add: refs_def)

section \<open>The contract of the callbacks\<close>

text \<open>
  What the shadow memory needs of the owner of its values: \<open>acc u M\<close> says that the reference counts in
  \<open>u\<close> account for the references \<open>M\<close>, \<open>known u v\<close> that \<open>v\<close> may be stored.  Counting a known value and
  giving back a counted one succeed, and neither makes a value unknown.  \<^verbatim>\<open>SVal_NOACCESS\<close>, which a new
  secondary map holds without a call of \<^verbatim>\<open>rcinc\<close>, is not counted.
\<close>

locale rc_client =
  fixes inc dec :: "SVal \<Rightarrow> 'u \<Rightarrow> 'u option"
    and known :: "'u \<Rightarrow> SVal \<Rightarrow> bool"
    and acc :: "'u \<Rightarrow> SVal multiset \<Rightarrow> bool"
    and kept :: "'u \<Rightarrow> 'u \<Rightarrow> bool"
  assumes kept_refl: "kept u u"
    and kept_trans: "kept u u1 \<Longrightarrow> kept u1 u2 \<Longrightarrow> kept u u2"
    and kept_known: "kept u u' \<Longrightarrow> known u v \<Longrightarrow> known u' v"
    and known_NOACCESS: "known u SVal_NOACCESS"
    and acc_NOACCESS: "acc u (add_mset SVal_NOACCESS M) \<longleftrightarrow> acc u M"
    and inc_total: "acc u M \<Longrightarrow> known u v \<Longrightarrow> size M < 2 ^ 48 \<Longrightarrow>
      \<exists>u'. inc v u = Some u' \<and> acc u' (add_mset v M) \<and> kept u u'"
    and dec_total: "acc u (add_mset v M) \<Longrightarrow> \<exists>u'. dec v u = Some u' \<and> acc u' M \<and> kept u u'"
begin

lemma acc_replicate: "acc u (M + replicate_mset n SVal_NOACCESS) \<longleftrightarrow> acc u M"
  by (induction n) (simp_all add: acc_NOACCESS)

lemma inc_all:
  "acc u M \<Longrightarrow> \<forall>v\<in>set vs. known u v \<Longrightarrow> size M + length vs \<le> 2 ^ 48 \<Longrightarrow>
   \<exists>u'. rc_all inc vs u = Some u' \<and> acc u' (M + mset vs) \<and> kept u u'"
proof (induction vs arbitrary: u M)
  case (Cons v vs)
  from inc_total [of u M v] Cons.prems obtain u1 where
    1: "inc v u = Some u1" "acc u1 (add_mset v M)" "kept u u1" by auto
  have "\<forall>w\<in>set vs. known u1 w" using Cons.prems(2) kept_known [OF 1(3)] by simp
  from Cons.IH [OF 1(2) this] Cons.prems(3) obtain u2 where
    "rc_all inc vs u1 = Some u2" "acc u2 (add_mset v M + mset vs)" "kept u1 u2" by auto
  with 1 kept_trans show ?case by auto
qed (simp add: kept_refl)

lemma dec_all:
  "acc u (M + mset vs) \<Longrightarrow> \<exists>u'. rc_all dec vs u = Some u' \<and> acc u' M \<and> kept u u'"
proof (induction vs arbitrary: u)
  case (Cons v vs)
  from dec_total [of u v "M + mset vs"] Cons.prems obtain u1 where
    1: "dec v u = Some u1" "acc u1 (M + mset vs)" "kept u u1" by auto
  from Cons.IH [OF 1(2)] 1 kept_trans show ?case by auto
qed (simp add: kept_refl)

definition linked :: "'u zsm \<Rightarrow> bool" where
  "linked z \<longleftrightarrow> rcinc z = inc \<and> rcdec z = dec"

text \<open>The store with its reference counts.\<close>

definition counted :: "(nat \<times> nat) set \<Rightarrow> 'u zsm \<Rightarrow> bool" where
  "counted H z \<longleftrightarrow> linked z \<and> store_ok H z \<and> acc (zsm_user z) (refs H z) \<and> (\<forall>v\<in>#refs H z. known (zsm_user z) v)"

lemma counted_find_or_alloc:
  assumes "counted {} z" "a < 2 ^ 47"
  shows "\<exists>s z'. shmem__find_or_alloc_SecMap a z = Some (s, z') \<and> counted {} z' \<and> frame z z' \<and> zsm_user z' = zsm_user z \<and>
     sm_at z' (shmem__round_to_SecMap_base a) = Some s \<and> store_line z' = store_line z"
proof -
  have "store_ok {} z" using assms(1) by (simp add: counted_def)
  from find_or_alloc_store [OF this assms(2)] obtain s z' n where
    "shmem__find_or_alloc_SecMap a z = Some (s, z')" "store_ok {} z'" "frame z z'" "zsm_user z' = zsm_user z"
    "sm_at z' (shmem__round_to_SecMap_base a) = Some s" "store_line z' = store_line z"
    "refs {} z' = refs {} z + replicate_mset n SVal_NOACCESS" by blast
  with assms(1) show ?thesis
    by (intro exI [of _ s] exI [of _ z'])
      (auto simp: counted_def acc_replicate linked_def frame_def known_NOACCESS split: if_splits)
qed

lemma find_Z_for_writing_spec:
  assumes c: "counted {} z" and t: "tag_ok tag"
  shows "\<exists>s z'. find_Z_for_writing tag z = Some ((s, zix_of tag), z') \<and> counted {(s, zix_of tag)} z' \<and> frame z z' \<and>
     kept (zsm_user z) (zsm_user z') \<and> sm_at z' (shmem__round_to_SecMap_base tag) = Some s \<and>
     (s, zix_of tag) \<in> lines_of z' \<and>
     (\<forall>t. is_valid_scache_tag t \<and> t \<noteq> tag \<longrightarrow> store_line z' t = store_line z t)"
proof -
  let ?x = "zix_of tag"
  have tag: "is_valid_scache_tag tag" "tag < 2 ^ 47" using t by (simp_all add: tag_ok_def)
  from counted_find_or_alloc [OF c tag(2)] obtain s z1 where
    1: "shmem__find_or_alloc_SecMap tag z = Some (s, z1)" "counted {} z1" "frame z z1" "zsm_user z1 = zsm_user z"
    "sm_at z1 (shmem__round_to_SecMap_base tag) = Some s" "store_line z1 = store_line z" by blast
  have st: "store_ok {} z1" and lk: "linked z1" using 1(2) by (simp_all add: counted_def)
  have s: "s < length (secmaps z1)" using shape_okD(2) [OF _ 1(5)] st by (simp add: store_ok_def)
  have p: "(s, ?x) \<in> lines_of z1" using s zix_less by (simp add: lines_of_def)
  let ?sm = "secmaps z1 ! s"
  have sm: "secmap_ok {} ?sm" using st s by (simp add: store_ok_def)
  have "refs {} z1 = refs {(s, ?x)} z1 + mset (line_refs z1 (s, ?x))" using refs_hole [OF p] .
  then have "acc (zsm_user z1) (refs {(s, ?x)} z1 + mset (line_refs z1 (s, ?x)))" using 1(2) by (simp add: counted_def)
  from dec_all [OF this] obtain u where u: "rc_all dec (line_refs z1 (s, ?x)) (zsm_user z1) = Some u"
    "acc u (refs {(s, ?x)} z1)" "kept (zsm_user z1) u" by blast
  have kn: "\<forall>v\<in>#refs {(s, ?x)} z1. known u v"
    using 1(2) kept_known [OF u(3)] refs_hole [OF p] by (auto simp: counted_def)
  define sm' where "sm' = (if isF (linesZ ?sm ! ?x)
    then set_inUse (zfix (linesZ ?sm ! ?x)) (flist ?sm ! zfix (linesZ ?sm ! ?x)) ?sm else ?sm)"
  have sm': "secmap_ok {?x} sm'" "same_lines ?x ?sm sm'"
    using open_F [OF sm zix_less] open_Z [OF sm zix_less] same_lines_refl by (auto simp: sm'_def)
  define z' where "z' = (put_SecMap s sm' z1)\<lparr>zsm_user := u\<rparr>"
  note P = put_store [OF st p _ _ _ sm'(2), where H' = "{(s, ?x)}"]
  have "counted {(s, ?x)} z'"
    using P(1,2) sm'(1) u(2) kn lk by (simp add: counted_def z'_def linked_def) (simp add: put_SecMap_def)
  moreover have "find_Z_for_writing tag z = Some ((s, ?x), z')"
  proof (cases "isF (linesZ ?sm ! ?x)")
    case True
    note F = lineF_of_spec [OF sm zix_less _ True, simplified]
    have "line_refs z1 (s, ?x) = w64s (flist ?sm ! zfix (linesZ ?sm ! ?x))"
      using True by (simp add: line_refs_def zline_refs_def line_at_def)
    with u(1) 1(1) lk F(1,2) True s zix_code [OF tag(1)] zix_less [of tag] show ?thesis
      by (simp add: find_Z_for_writing_def isF_def Let_def rcdec_LineF_def rc_apply_def linked_def z'_def sm'_def
          put_SecMap_def N_SECMAP_ZLINES_def set_inUse_def)
  next
    case False
    have "line_refs z1 (s, ?x) = LineZ_svals (linesZ ?sm ! ?x)"
      using False by (simp add: line_refs_def zline_refs_def line_at_def)
    with u(1) 1(1) lk False s zix_code [OF tag(1)] zix_less [of tag] show ?thesis
      by (simp add: find_Z_for_writing_def isF_def Let_def rcdec_LineZ_def rc_apply_def linked_def z'_def sm'_def
          put_SecMap_def N_SECMAP_ZLINES_def)
  qed
  moreover have "store_line z' t' = store_line z t'" if "is_valid_scache_tag t'" "t' \<noteq> tag" for t'
    using P(3) [OF _ _ _ 1(5) refl tag(1) that] sm'(1) 1(6) by (simp add: z'_def)
  moreover have "frame z z'" using 1(3) by (simp add: frame_def z'_def put_SecMap_def)
  ultimately show ?thesis using u(3) 1(4,5) p by (intro exI [of _ s] exI [of _ z']) (simp add: z'_def)
qed

lemma close_line:
  assumes c: "counted {(s, x)} z" and p: "(s, x) \<in> lines_of z"
    and at: "sm_at z (shmem__round_to_SecMap_base tag) = Some s" "x = zix_of tag" "is_valid_scache_tag tag"
    and sm': "secmap_ok {} sm'" "same_lines x (secmaps z ! s) sm'"
    and vs: "zline_refs sm' (linesZ sm' ! x) = vs" "\<forall>v\<in>set vs. known (zsm_user z) v" "length vs \<le> 64"
  shows "\<exists>z'. rc_apply inc vs (put_SecMap s sm' z) = Some z' \<and> counted {} z' \<and> frame z z' \<and> kept (zsm_user z) (zsm_user z') \<and>
     store_line z' tag = zline_vals sm' (linesZ sm' ! x) \<and>
     (\<forall>t. is_valid_scache_tag t \<and> t \<noteq> tag \<longrightarrow> store_line z' t = store_line z t)"
proof -
  have st: "store_ok {(s, x)} z" and a: "acc (zsm_user z) (refs {(s, x)} z)" using c by (simp_all add: counted_def)
  have s: "s < length (secmaps z)" using p by (simp add: lines_of_def)
  have "size (refs {(s, x)} z) + length vs \<le> 2 ^ 47 + 64" using size_refs [OF st] vs(3) by simp
  then have "size (refs {(s, x)} z) + length vs \<le> 2 ^ 48" by simp
  from inc_all [OF a vs(2) this] obtain u where u: "rc_all inc vs (zsm_user z) = Some u"
    "acc u (refs {(s, x)} z + mset vs)" "kept (zsm_user z) u" by blast
  define z' where "z' = (put_SecMap s sm' z)\<lparr>zsm_user := u\<rparr>"
  note P = put_store [OF st p _ _ _ sm'(2), where H' = "{}"]
  have l: "line_refs (put_SecMap s sm' z) (s, x) = vs" "line_vals (put_SecMap s sm' z) (s, x) = zline_vals sm' (linesZ sm' ! x)"
    using vs(1) s by (simp_all add: line_refs_def line_vals_def line_at_def put_SecMap_def)
  have r: "refs {} (put_SecMap s sm' z) = refs {(s, x)} z + mset vs"
    using refs_hole [of "(s, x)" "put_SecMap s sm' z"] p P(2) sm'(1) l(1) by simp
  have "counted {} z'"
    using P(1) sm'(1) u r c vs(2) kept_known [OF u(3)]
    by (auto simp: counted_def z'_def linked_def put_SecMap_def)
  moreover have "store_line z' tag = zline_vals sm' (linesZ sm' ! x)"
    using at l(2) by (simp add: store_line_def z'_def)
  moreover have "store_line z' t = store_line z t" if "is_valid_scache_tag t" "t \<noteq> tag" for t
    using P(3) [OF _ _ _ at that] sm'(1) by (simp add: z'_def)
  moreover have "frame z z'" by (simp add: frame_def z'_def put_SecMap_def)
  moreover have "rc_apply inc vs (put_SecMap s sm' z) = Some z'"
    using u(1) by (simp add: rc_apply_def z'_def) (simp add: put_SecMap_def)
  ultimately show ?thesis using u(3) by (intro exI [of _ z']) (simp add: z'_def)
qed

end

section \<open>Writing lines back and fetching them\<close>

definition empty_dict :: "LineZ \<Rightarrow> LineZ" where
  "empty_dict lz = lz\<lparr>dict := [SVal_INVALID, SVal_INVALID, SVal_INVALID, SVal_INVALID]\<rparr>"

text \<open>Compressing the values of a whole line.\<close>

lemma compress_line:
  assumes cs: "\<forall>(m, s)\<in>set cs. m \<in> {1, 2, 4, 8} \<and> s \<noteq> SVal_INVALID" "expand cs = vs" "length vs = 64"
    and lz: "length (ix2s lz0) = 16"
  shows "\<exists>i lz. compress_loop cs 0 (empty_dict lz0) = Some (i, lz) \<and> i \<le> 64 \<and> length (ix2s lz) = 16 \<and>
     (i = 64 \<longrightarrow> lineZ_ok 64 lz \<and> \<not> isF lz \<and> map (lineZ_val lz) [0..<64] = vs \<and> set (LineZ_svals lz) \<subseteq> set vs)"
proof -
  have ok: "lineZ_ok 0 (empty_dict lz0)" using lz by (simp add: lineZ_ok_def empty_dict_def)
  have e: "dict (empty_dict lz0) = replicate 4 SVal_INVALID" by (simp add: empty_dict_def numeral_eq_Suc)
  have l: "0 + length (expand cs) \<le> 64" using cs(2,3) by simp
  from compress_spec [OF cs(1) ok l] e obtain i lz where
    c: "compress_loop cs 0 (empty_dict lz0) = Some (i, lz)" "lineZ_ok i lz" "i \<le> length (expand cs)"
      "\<forall>k<i. lineZ_val lz k = expand cs ! k" "i = 0 \<or> dict lz ! 0 \<noteq> SVal_INVALID"
      "set (dict lz) \<subseteq> insert SVal_INVALID (set (expand cs))" by auto
  have "\<not> isF lz" "map (lineZ_val lz) [0..<64] = vs" "set (LineZ_svals lz) \<subseteq> set vs" if "i = 64"
  proof -
    show F: "\<not> isF lz" using c(5) that by (simp add: isF_def)
    show "map (lineZ_val lz) [0..<64] = vs" using c(4) that cs by (intro nth_equalityI) auto
    have "length (dict lz) = 4" using c(2) by (simp add: lineZ_ok_def)
    then have "set (LineZ_svals lz) \<subseteq> set (dict lz) - {SVal_INVALID}" using F by (auto simp: LineZ_svals_def isF_def)
    with c(6) cs(2) show "set (LineZ_svals lz) \<subseteq> set vs" by auto
  qed
  with c cs show ?thesis by (intro exI [of _ i] exI [of _ lz]) (auto simp: lineZ_ok_def)
qed

context rc_client
begin

lemma wback_spec:
  assumes c: "counted {} z" and wix: "wix < N_WAY_NENT" and tag: "tag_ok (tags0 z ! wix)"
    and cl: "cl_ok (lyns0 z ! wix)" "\<forall>v\<in>set (cl_bytes (lyns0 z ! wix)). known (zsm_user z) v"
  shows "\<exists>z'. cacheline_wback wix z = Some z' \<and> counted {} z' \<and> frame z z' \<and> kept (zsm_user z) (zsm_user z') \<and>
     store_line z' (tags0 z ! wix) = cl_bytes (lyns0 z ! wix) \<and>
     (\<forall>t. is_valid_scache_tag t \<and> t \<noteq> tags0 z ! wix \<longrightarrow> store_line z' t = store_line z t)"
proof -
  let ?t = "tags0 z ! wix" and ?vs = "cl_bytes (lyns0 z ! wix)"
  let ?x = "zix_of ?t"
  have vt: "is_valid_scache_tag ?t" using tag by (simp add: tag_ok_def)
  from find_Z_for_writing_spec [OF c tag] obtain s z1 where
    1: "find_Z_for_writing ?t z = Some ((s, ?x), z1)" "counted {(s, ?x)} z1" "frame z z1" "kept (zsm_user z) (zsm_user z1)"
    "sm_at z1 (shmem__round_to_SecMap_base ?t) = Some s" "(s, ?x) \<in> lines_of z1"
    "\<forall>t. is_valid_scache_tag t \<and> t \<noteq> ?t \<longrightarrow> store_line z1 t = store_line z t" by blast
  let ?sm = "secmaps z1 ! s"
  have s: "s < length (secmaps z1)" using 1(6) by (simp add: lines_of_def)
  have "{x. (s, x) \<in> {(s, ?x)}} = {?x}" by auto
  then have sm: "secmap_ok {?x} ?sm" using 1(2) s unfolding counted_def store_ok_def by metis
  have ls: "length (svals (lyns0 z ! wix)) = 64" using cl(1) by (simp add: cl_ok_def)
  have vs: "length ?vs = 64" "\<forall>v\<in>set ?vs. v \<noteq> SVal_INVALID" "\<forall>v\<in>set ?vs. known (zsm_user z1) v"
    using length_cl_bytes [OF ls] bytes_valid [OF cl(1)] cl(2) kept_known [OF 1(4)] by (auto simp: in_set_conv_nth)
  from sequentialise_CacheLine_spec [OF cl(1)] obtain cs where
    cs: "sequentialise_CacheLine (lyns0 z ! wix) = Some cs" "expand cs = ?vs" "cs \<noteq> []" "length cs \<le> 64"
      "\<forall>(n, s)\<in>set cs. n \<in> {1, 2, 4, 8} \<and> s \<noteq> SVal_INVALID" by blast
  from compress_line [OF cs(5,2) vs(1) secmap_okD(4) [OF sm zix_less]] obtain i lz where
    cp: "compress_loop cs 0 (empty_dict (linesZ ?sm ! ?x)) = Some (i, lz)" "i \<le> 64" "length (ix2s lz) = 16"
      "i = 64 \<longrightarrow> lineZ_ok 64 lz \<and> \<not> isF lz \<and> map (lineZ_val lz) [0..<64] = ?vs \<and> set (LineZ_svals lz) \<subseteq> set ?vs"
    by blast
  have cs1: "1 \<le> length cs" using cs(3) by (cases cs) auto
  have lk: "rcinc z1 = inc" using 1(2) by (simp add: counted_def linked_def)
  note close = close_line [OF 1(2,6,5) refl vt]
  have "\<exists>z'. cacheline_wback wix z = Some z' \<and> counted {} z' \<and> frame z1 z' \<and> kept (zsm_user z1) (zsm_user z') \<and>
     store_line z' ?t = ?vs \<and> (\<forall>t. is_valid_scache_tag t \<and> t \<noteq> ?t \<longrightarrow> store_line z' t = store_line z1 t)"
  proof (cases "i = 64")
    case True
    with cp(4) have lz: "lineZ_ok 64 lz" "\<not> isF lz" "map (lineZ_val lz) [0..<64] = ?vs" "set (LineZ_svals lz) \<subseteq> set ?vs"
      by auto
    let ?sm' = "put_lineZ ?x lz ?sm"
    note C = close_Z [OF sm zix_less lz(1,2)]
    have v: "zline_refs ?sm' (linesZ ?sm' ! ?x) = LineZ_svals lz" "zline_vals ?sm' (linesZ ?sm' ! ?x) = ?vs"
      using lz C(3) by (simp_all add: zline_refs_def zline_vals_def)
    have "\<forall>v\<in>set (LineZ_svals lz). known (zsm_user z1) v" "length (LineZ_svals lz) \<le> 64"
      using lz(4) vs(3) by (auto simp: LineZ_svals_def)
    from close [OF C(1,2) v(1) this] v(2) obtain z' where
      z': "rc_apply inc (LineZ_svals lz) (put_SecMap s ?sm' z1) = Some z'" "counted {} z'" "frame z1 z'"
      "kept (zsm_user z1) (zsm_user z')" "store_line z' ?t = ?vs"
      "\<forall>t. is_valid_scache_tag t \<and> t \<noteq> ?t \<longrightarrow> store_line z' t = store_line z1 t" by auto
    have "cacheline_wback wix z = Some z'"
      using wix vt 1(1) s cs(1,4) cs1 cp(1) True z'(1) lk lz(2)
      by (simp add: cacheline_wback_def Let_def N_LINE_ARANGE_def empty_dict_def rcinc_LineZ_def isF_def) (simp add: put_SecMap_def)
    with z' show ?thesis by blast
  next
    case False
    from alloc_F_spec [OF sm zix_less] obtain fx sm1 where
      a: "alloc_F_for_writing ?sm = Some (fx, sm1)" "secmap_ok {?x} sm1" "same_lines ?x ?sm sm1" "linesZ sm1 = linesZ ?sm"
        "fx < length (flist sm1)" "\<not> inUse (flist sm1 ! fx)" "linesF sm1 = Some (flist sm1)" by blast
    have fl: "length (flist sm1) = unat (linesF_size sm1)" "length (w64s (flist sm1 ! fx)) = 64"
      using secmap_okD(2) [OF a(2)] a(5) by (auto simp: flines_ok_def)
    have pos: "linesF_size sm1 > 0" using a(5) fl(1) by (simp add: word_neq_0_conv [symmetric] unat_eq_0 [symmetric])
    define lz' where "lz' = lz\<lparr>dict := [SVal_INVALID, of_nat fx, SVal_INVALID, SVal_INVALID]\<rparr>"
    let ?F = "(flist sm1 ! fx)\<lparr>inUse := True, w64s := ?vs\<rparr>"
    let ?sm' = "put_lineZ ?x lz' (sm1\<lparr>linesF := Some ((flist sm1)[fx := ?F])\<rparr>)"
    have d: "dict lz' = [SVal_INVALID, of_nat fx, SVal_INVALID, SVal_INVALID]" "length (ix2s lz') = 16"
      using cp(3) by (simp_all add: lz'_def)
    note C = close_F [OF a(2) zix_less a(5,6) vs(1,2) d]
    have fill: "fill_loop cs 0 (w64s (flist sm1 ! fx)) = (64, ?vs)"
      using fill_spec [of 0 cs "w64s (flist sm1 ! fx)"] cs(2) vs(1) fl(2) by simp
    have v: "zline_refs ?sm' (linesZ ?sm' ! ?x) = ?vs" "zline_vals ?sm' (linesZ ?sm' ! ?x) = ?vs"
      using C(3,4,5) by (simp_all add: zline_refs_def zline_vals_def)
    from close [OF C(1) same_lines_trans [OF a(3) C(2)] v(1) vs(3)] v(2) vs(1) obtain z' where
      z': "rc_apply inc ?vs (put_SecMap s ?sm' z1) = Some z'" "counted {} z'" "frame z1 z'"
      "kept (zsm_user z1) (zsm_user z')" "store_line z' ?t = ?vs"
      "\<forall>t. is_valid_scache_tag t \<and> t \<noteq> ?t \<longrightarrow> store_line z' t = store_line z1 t" by auto
    have "i < 64" using cp(2) False by simp
    then have "cacheline_wback wix z = Some z'"
      using wix vt 1(1) s cs(1,4) cs1 cp(1) z'(1) lk a(1,5,6,7) pos fl(1) fill
      unfolding cacheline_wback_def lz'_def
      by (simp add: Let_def N_LINE_ARANGE_def empty_dict_def rcinc_LineF_def) (simp add: put_SecMap_def)
    with z' show ?thesis by blast
  qed
  then show ?thesis using frame_trans [OF 1(3)] kept_trans [OF 1(4)] 1(7) by auto
qed

lemma fetch_spec:
  assumes c: "counted {} z" and wix: "wix < N_WAY_NENT" and tag: "tag_ok (tags0 z ! wix)"
    and d: "length (descrs (lyns0 z ! wix)) = 8"
  shows "\<exists>z1 cl. cacheline_fetch wix z = Some (z1\<lparr>lyns0 := (lyns0 z)[wix := cl]\<rparr>) \<and> counted {} z1 \<and> frame z z1 \<and>
     zsm_user z1 = zsm_user z \<and> store_line z1 = store_line z \<and> cl_ok cl \<and> cl_bytes cl = store_line z (tags0 z ! wix)"
proof -
  let ?t = "tags0 z ! wix"
  let ?x = "zix_of ?t"
  have t: "is_valid_scache_tag ?t" "?t < 2 ^ 47" using tag by (simp_all add: tag_ok_def)
  from counted_find_or_alloc [OF c t(2)] obtain s z1 where
    1: "shmem__find_or_alloc_SecMap ?t z = Some (s, z1)" "counted {} z1" "frame z z1" "zsm_user z1 = zsm_user z"
    "sm_at z1 (shmem__round_to_SecMap_base ?t) = Some s" "store_line z1 = store_line z" by blast
  have st: "store_ok {} z1" using 1(2) by (simp add: counted_def)
  have s: "s < length (secmaps z1)" using shape_okD(2) [OF _ 1(5)] st by (simp add: store_ok_def)
  let ?sm = "secmaps z1 ! s" and ?vs = "store_line z ?t"
  have sm: "secmap_ok {} ?sm" using st s by (simp add: store_ok_def)
  have "store_line z1 ?t = zline_vals ?sm (linesZ ?sm ! ?x)"
    using 1(5) by (simp add: store_line_def line_vals_def line_at_def)
  then have vs: "zline_vals ?sm (linesZ ?sm ! ?x) = ?vs" using 1(6) by simp
  have v: "length ?vs = 64" "\<forall>v\<in>set ?vs. v \<noteq> SVal_INVALID"
    using zline_vals_valid(1,2) [OF sm zix_less, of ?t] vs by auto
  from normalise_CacheLine_spec [of "(lyns0 z ! wix)\<lparr>svals := ?vs\<rparr>"] v d obtain cl where
    cl: "normalise_CacheLine ((lyns0 z ! wix)\<lparr>svals := ?vs\<rparr>) = Some cl" "cl_ok cl" "cl_bytes cl = ?vs" by auto
  have "lyns0 z1 = lyns0 z" using 1(3) by (simp add: frame_def)
  moreover have "cacheline_fetch wix z = Some (z1\<lparr>lyns0 := (lyns0 z1)[wix := cl]\<rparr>)"
  proof (cases "isF (linesZ ?sm ! ?x)")
    case True
    note F = lineF_of_spec [OF sm zix_less _ True, simplified]
    have "w64s (flist ?sm ! zfix (linesZ ?sm ! ?x)) = ?vs" using vs True by (simp add: zline_vals_def)
    with wix t(1) 1(1) s zix_code [OF t(1)] zix_less [of ?t] F True cl(1) show ?thesis
      by (simp add: cacheline_fetch_def find_ZF_for_reading_def Let_def isF_def N_SECMAP_ZLINES_def)
  next
    case False
    have w: "map (lineZ_val (linesZ ?sm ! ?x)) [0..<64] = ?vs" using vs False by (simp add: zline_vals_def)
    from wix t(1) 1(1) s zix_code [OF t(1)] zix_less [of ?t] False cl(1) v(2) show ?thesis
      by (simp add: cacheline_fetch_def find_ZF_for_reading_def Let_def isF_def N_SECMAP_ZLINES_def w
          N_LINE_ARANGE_def list_all_iff del: upt_rec)
  qed
  ultimately show ?thesis using 1 cl(2,3) by (intro exI [of _ z1] exI [of _ cl]) simp
qed

end

section \<open>The shadow value of an address\<close>

definition shadow :: "'u zsm \<Rightarrow> Addr \<Rightarrow> SVal" where
  "shadow z a =
     (if tags0 z ! cache_wix a = cache_tag a then cl_bytes (lyns0 z ! cache_wix a) else store_line z (cache_tag a))
     ! get_cacheline_offset a"

lemma cache_wix_mod: "cache_wix a = unat a div 64 mod 65536"
proof -
  have "unat (drop_bit 6 a) = unat a div 64" by (simp only: unat_drop_bit_eq) (simp add: drop_bit_eq_div)
  then show ?thesis by (simp add: cache_wix_def N_WAY_NENT_def N_LINE_BITS_def and_mask_mod)
qed

lemma cache_wix_less: "cache_wix a < N_WAY_NENT"
  by (simp add: cache_wix_mod N_WAY_NENT_def)

lemma cache_tag_mod: "unat (cache_tag a) = unat a - unat a mod 64"
proof -
  have m: "(63 :: Addr) = mask 6" by (simp add: mask_eq_exp_minus_1)
  have "(a AND NOT (mask 6)) + (a AND mask 6) = a"
    by (subst disjunctive_add) (auto simp: bit_simps intro!: bit_word_eqI)
  moreover have "(a AND NOT (mask 6)) \<le> a" by (simp add: word_and_le2)
  ultimately have "unat a = unat (a AND NOT (mask 6)) + unat (a AND mask 6)"
    by (metis add_diff_cancel_left' add_diff_cancel_right' unat_sub le_add_diff_inverse word_le_nat_alt)
  moreover have "unat (a AND mask 6) = unat a mod 64" using unat_and_mask [of a 6] by simp
  ultimately show ?thesis by (simp add: cache_tag_def N_LINE_ARANGE_def m)
qed

lemma cache_tag_div: "unat (cache_tag a) = 64 * (unat a div 64)"
  using cache_tag_mod [of a] by (simp add: minus_mod_eq_mult_div)

lemma cache_wix_tag: "cache_wix (cache_tag a) = cache_wix a"
  by (simp add: cache_wix_mod cache_tag_div)

lemma cache_tag_ok: "is_valid_scache_tag (cache_tag a)" "cache_tag a \<noteq> 1" "a < 2 ^ 47 \<Longrightarrow> tag_ok (cache_tag a)"
proof -
  show v: "is_valid_scache_tag (cache_tag a)" by (simp add: valid_tag_mod cache_tag_div)
  show "cache_tag a \<noteq> 1"
  proof
    assume "cache_tag a = 1"
    with v have "is_valid_scache_tag 1" by simp
    then show False by (simp add: valid_tag_mod)
  qed
  assume "a < 2 ^ 47"
  then have "unat a < 2 ^ 47" by (simp add: word_less_nat_alt)
  then show "tag_ok (cache_tag a)" using v cache_tag_mod [of a] by (simp add: tag_ok_def word_less_nat_alt)
qed

lemma tag_offset: "unat a = unat (cache_tag a) + get_cacheline_offset a"
  using cache_tag_mod [of a] offset_mod [of a] mod_less_eq_dividend [of "unat a" 64] by linarith

lemma tag_offset_inj: "cache_tag x = cache_tag a \<Longrightarrow> get_cacheline_offset x = get_cacheline_offset a \<Longrightarrow> x = a"
proof -
  assume "cache_tag x = cache_tag a" "get_cacheline_offset x = get_cacheline_offset a"
  then have "unat (cache_tag x) + get_cacheline_offset x = unat (cache_tag a) + get_cacheline_offset a" by (simp only:)
  with tag_offset [of x] tag_offset [of a] have "unat x = unat a" by linarith
  then show "x = a" by (rule word_unat_eq_iff [THEN iffD2])
qed

lemma cache_wix_of_tag: "is_valid_scache_tag t \<Longrightarrow> cache_tag t = t"
  using cache_tag_mod [of t] by (simp add: valid_tag_mod word_unat_eq_iff)

lemma fold_invalidate:
  "n \<le> length (tags0 z) \<Longrightarrow>
   fold (\<lambda>wix z. z\<lparr>tags0 := (tags0 z)[wix := 1]\<rparr>) [0..<n] z = z\<lparr>tags0 := replicate n 1 @ drop n (tags0 z)\<rparr>"
proof (induction n)
  case (Suc n)
  then have "drop n (tags0 z) = tags0 z ! n # drop (Suc n) (tags0 z)" by (simp add: Cons_nth_drop_Suc)
  with Suc show ?case by (simp add: list_update_append replicate_append_same)
qed simp

lemma invalidate_scache: "length (tags0 z) = N_WAY_NENT \<Longrightarrow> shmem__invalidate_scache z = z\<lparr>tags0 := replicate N_WAY_NENT 1\<rparr>"
  using fold_invalidate [of N_WAY_NENT z] by (simp add: shmem__invalidate_scache_def)

lemma store_cache [simp]:
  "store_ok H (z\<lparr>tags0 := t\<rparr>) = store_ok H z" "refs H (z\<lparr>tags0 := t\<rparr>) = refs H z"
  "store_line (z\<lparr>tags0 := t\<rparr>) = store_line z" "store_ok H (z\<lparr>lyns0 := l\<rparr>) = store_ok H z"
  "refs H (z\<lparr>lyns0 := l\<rparr>) = refs H z" "store_line (z\<lparr>lyns0 := l\<rparr>) = store_line z"
  by (simp_all add: store_ok_def shape_ok_def sm_at_def refs_def line_refs_def line_vals_def line_at_def lines_of_def
      store_line_def fun_eq_iff split: option.splits)

context rc_client
begin

lemma counted_cache [simp]:
  "counted H (z\<lparr>tags0 := t\<rparr>) = counted H z" "counted H (z\<lparr>lyns0 := l\<rparr>) = counted H z"
  by (simp_all add: counted_def linked_def)

definition way_ok :: "'u zsm \<Rightarrow> nat \<Rightarrow> bool" where
  "way_ok z wix \<longleftrightarrow> length (descrs (lyns0 z ! wix)) = 8 \<and>
     (tags0 z ! wix = 1 \<or> tag_ok (tags0 z ! wix) \<and> cache_wix (tags0 z ! wix) = wix \<and> cl_ok (lyns0 z ! wix) \<and>
        (\<forall>v\<in>set (cl_bytes (lyns0 z ! wix)). known (zsm_user z) v))"

definition zsm_inv :: "'u zsm \<Rightarrow> bool" where
  "zsm_inv z \<longleftrightarrow> counted {} z \<and> length (lyns0 z) = N_WAY_NENT \<and> length (tags0 z) = N_WAY_NENT \<and>
     (\<forall>wix<N_WAY_NENT. way_ok z wix)"

lemma zsm_invD:
  assumes "zsm_inv z"
  shows "counted {} z" "length (lyns0 z) = N_WAY_NENT" "length (tags0 z) = N_WAY_NENT"
    "\<And>wix. wix < N_WAY_NENT \<Longrightarrow> way_ok z wix"
  using assms by (simp_all add: zsm_inv_def)

lemma counted_known:
  assumes "counted {} z" "v \<in> set (store_line z t)" shows "known (zsm_user z) v"
  using store_line_valid(2) [of z v t] assms known_NOACCESS by (auto simp: counted_def)

lemma shadow_known:
  assumes "zsm_inv z" shows "known (zsm_user z) (shadow z a)" "shadow z a \<noteq> SVal_INVALID"
proof -
  have w: "way_ok z (cache_wix a)" using zsm_invD(4) [OF assms cache_wix_less] .
  have st: "store_ok {} z" using zsm_invD(1) [OF assms] by (simp add: counted_def)
  have "known (zsm_user z) (shadow z a) \<and> shadow z a \<noteq> SVal_INVALID"
  proof (cases "tags0 z ! cache_wix a = cache_tag a")
    case True
    then have k: "cl_ok (lyns0 z ! cache_wix a)" "\<forall>v\<in>set (cl_bytes (lyns0 z ! cache_wix a)). known (zsm_user z) v"
      using w cache_tag_ok(2) [of a] by (auto simp: way_ok_def)
    have "length (cl_bytes (lyns0 z ! cache_wix a)) = 64" using k(1) length_cl_bytes by (simp add: cl_ok_def)
    with k True bytes_valid [OF k(1) offset_less] show ?thesis using offset_less [of a] by (simp add: shadow_def)
  next
    case False
    have "get_cacheline_offset a < length (store_line z (cache_tag a))"
      using store_line_valid(1) [OF st] offset_less by simp
    then have "shadow z a \<in> set (store_line z (cache_tag a))" using False by (simp add: shadow_def)
    then show ?thesis using counted_known [OF zsm_invD(1) [OF assms]] store_line_valid(2) [OF st] by blast
  qed
  then show "known (zsm_user z) (shadow z a)" "shadow z a \<noteq> SVal_INVALID" by auto
qed

text \<open>Two ways of different index hold different tags.\<close>

lemma way_tag_neq: "way_ok z wix \<Longrightarrow> wix \<noteq> cache_wix x \<Longrightarrow> tags0 z ! wix \<noteq> cache_tag x"
  using cache_tag_ok(2) [of x] cache_wix_tag [of x] by (auto simp: way_ok_def)

lemma way_ok_frame:
  "way_ok z wix \<Longrightarrow> frame z z' \<Longrightarrow> kept (zsm_user z) (zsm_user z') \<Longrightarrow> way_ok z' wix"
  using kept_known by (auto simp: way_ok_def frame_def)

text \<open>Writing back a way and then replacing its tag by the invalid one changes no shadow value.\<close>

lemma evict_spec:
  assumes z: "zsm_inv z" and wix: "wix < N_WAY_NENT" and tag: "tags0 z ! wix \<noteq> 1"
  shows "\<exists>z'. cacheline_wback wix z = Some z' \<and> counted {} z' \<and> frame z z' \<and> kept (zsm_user z) (zsm_user z') \<and>
     zsm_inv (z'\<lparr>tags0 := (tags0 z')[wix := 1]\<rparr>) \<and> shadow (z'\<lparr>tags0 := (tags0 z')[wix := 1]\<rparr>) = shadow z"
proof -
  note I = zsm_invD [OF z]
  have w: "tag_ok (tags0 z ! wix)" "cache_wix (tags0 z ! wix) = wix" "cl_ok (lyns0 z ! wix)"
    "\<forall>v\<in>set (cl_bytes (lyns0 z ! wix)). known (zsm_user z) v" using I(4) [OF wix] tag by (auto simp: way_ok_def)
  from wback_spec [OF I(1) wix w(1,3,4)] obtain z' where
    z': "cacheline_wback wix z = Some z'" "counted {} z'" "frame z z'" "kept (zsm_user z) (zsm_user z')"
    "store_line z' (tags0 z ! wix) = cl_bytes (lyns0 z ! wix)"
    "\<forall>t. is_valid_scache_tag t \<and> t \<noteq> tags0 z ! wix \<longrightarrow> store_line z' t = store_line z t" by blast
  let ?z = "z'\<lparr>tags0 := (tags0 z')[wix := 1]\<rparr>"
  have fr: "tags0 z' = tags0 z" "lyns0 z' = lyns0 z" using z'(3) by (simp_all add: frame_def)
  have cnt: "counted {} ?z" and sl: "store_line ?z = store_line z'" using z'(2) by simp_all
  have "way_ok ?z v" if "v < N_WAY_NENT" for v
    using way_ok_frame [OF I(4) [OF that] z'(3,4)] that I(3) wix fr by (cases "v = wix") (auto simp: way_ok_def)
  then have "zsm_inv ?z" using cnt I(2,3) fr by (simp add: zsm_inv_def)
  moreover have "shadow ?z x = shadow z x" for x
  proof (cases "cache_wix x = wix")
    case True
    have "store_line z' (cache_tag x) = (if tags0 z ! wix = cache_tag x then cl_bytes (lyns0 z ! wix) else store_line z (cache_tag x))"
      using z'(5,6) cache_tag_ok(1) [of x] by auto
    moreover have "(1 :: Addr) \<noteq> cache_tag x" using cache_tag_ok(2) [of x] by auto
    ultimately show ?thesis using True fr sl I(3) wix by (simp add: shadow_def)
  next
    case False
    have "cache_tag x \<noteq> tags0 z ! wix" using False w(2) cache_wix_tag [of x] by auto
    then show ?thesis using False fr sl z'(6) cache_tag_ok(1) by (simp add: shadow_def)
  qed
  ultimately show ?thesis using z' by (auto simp: fun_eq_iff)
qed

lemma miss_fetch:
  assumes z: "zsm_inv z" and a: "a < 2 ^ 47" and tag: "tags0 z ! cache_wix a = 1"
  shows "\<exists>z'. cacheline_fetch (cache_wix a) (z\<lparr>tags0 := (tags0 z)[cache_wix a := cache_tag a]\<rparr>) = Some z' \<and> zsm_inv z' \<and>
     kept (zsm_user z) (zsm_user z') \<and> tags0 z' ! cache_wix a = cache_tag a \<and> shadow z' = shadow z"
proof -
  note I = zsm_invD [OF z]
  let ?w = "cache_wix a"
  let ?z = "z\<lparr>tags0 := (tags0 z)[?w := cache_tag a]\<rparr>"
  have cnt: "counted {} ?z" and sl: "store_line ?z = store_line z" using I(1) by simp_all
  have tw: "tags0 ?z ! ?w = cache_tag a" using I(3) cache_wix_less by simp
  have d8: "length (descrs (lyns0 ?z ! ?w)) = 8" using I(4) [OF cache_wix_less] by (simp add: way_ok_def)
  from fetch_spec [OF cnt cache_wix_less _ d8] tw cache_tag_ok(3) [OF a] obtain z1 cl where
    f: "cacheline_fetch ?w ?z = Some (z1\<lparr>lyns0 := (lyns0 z)[?w := cl]\<rparr>)" "counted {} z1" "frame ?z z1"
    "zsm_user z1 = zsm_user z" "store_line z1 = store_line z" "cl_ok cl" "cl_bytes cl = store_line z (cache_tag a)"
    by (auto simp: sl)
  let ?y = "z1\<lparr>lyns0 := (lyns0 z)[?w := cl]\<rparr>"
  have fr: "tags0 z1 = (tags0 z)[?w := cache_tag a]" using f(3) by (simp add: frame_def)
  have sy: "store_line ?y = store_line z" and cy: "counted {} ?y" using f(2,5) by simp_all
  have kn: "\<forall>v\<in>set (cl_bytes cl). known (zsm_user z) v" using f(7) counted_known [OF I(1)] by auto
  have way: "way_ok ?y v" if "v < N_WAY_NENT" for v
    using I(4) [OF that] that I(2,3) fr f(4,6) kn cache_tag_ok(3) [OF a] cache_wix_tag [of a]
    by (cases "v = ?w") (auto simp: way_ok_def cl_ok_def)
  then have "zsm_inv ?y" using cy I(2,3) fr by (simp add: zsm_inv_def)
  moreover have "shadow ?y x = shadow z x" for x
  proof (cases "cache_wix x = ?w")
    case True
    moreover have "(1 :: Addr) \<noteq> cache_tag x" using cache_tag_ok(2) [of x] by auto
    ultimately show ?thesis using fr sy f(7) tag I(2,3) cache_wix_less by (auto simp: shadow_def)
  next
    case False
    then show ?thesis using fr sy by (simp add: shadow_def)
  qed
  moreover have "tags0 ?y ! ?w = cache_tag a" using fr I(3) cache_wix_less by simp
  ultimately show ?thesis using f(1,4) kept_refl by (auto simp: fun_eq_iff)
qed

lemma get_cacheline_spec:
  assumes z: "zsm_inv z" and a: "a < 2 ^ 47"
  shows "\<exists>z'. get_cacheline a z = Some (cache_wix a, z') \<and> zsm_inv z' \<and> kept (zsm_user z) (zsm_user z') \<and>
     tags0 z' ! cache_wix a = cache_tag a \<and> shadow z' = shadow z"
proof (cases "cache_tag a = tags0 z ! cache_wix a")
  case True
  then show ?thesis using z kept_refl by (intro exI [of _ z]) (simp add: get_cacheline_def)
next
  case False
  let ?w = "cache_wix a"
  have v1: "\<not> is_valid_scache_tag 1" by (simp add: valid_tag_mod)
  show ?thesis
  proof (cases "tags0 z ! ?w = 1")
    case True
    from miss_fetch [OF z a True] True False v1 show ?thesis
      by (auto simp: get_cacheline_def get_cacheline_MISS_def Let_def)
  next
    case neq: False
    have vt: "is_valid_scache_tag (tags0 z ! ?w)"
      using zsm_invD(4) [OF z cache_wix_less, of a] neq by (auto simp: way_ok_def tag_ok_def)
    from evict_spec [OF z cache_wix_less neq] obtain z1 where
      1: "cacheline_wback ?w z = Some z1" "frame z z1" "kept (zsm_user z) (zsm_user z1)"
        "zsm_inv (z1\<lparr>tags0 := (tags0 z1)[?w := 1]\<rparr>)" "shadow (z1\<lparr>tags0 := (tags0 z1)[?w := 1]\<rparr>) = shadow z" by blast
    let ?z = "z1\<lparr>tags0 := (tags0 z1)[?w := 1]\<rparr>"
    have len: "length (tags0 z1) = N_WAY_NENT" using zsm_invD(3) [OF 1(4)] by simp
    have t1: "tags0 ?z ! ?w = 1" using len cache_wix_less [of a] by simp
    have eq: "?z\<lparr>tags0 := (tags0 ?z)[?w := cache_tag a]\<rparr> = z1\<lparr>tags0 := (tags0 z1)[?w := cache_tag a]\<rparr>" by simp
    from miss_fetch [OF 1(4) a t1] obtain z2 where
      2: "cacheline_fetch ?w (z1\<lparr>tags0 := (tags0 z1)[?w := cache_tag a]\<rparr>) = Some z2" "zsm_inv z2"
      "kept (zsm_user ?z) (zsm_user z2)" "tags0 z2 ! ?w = cache_tag a" "shadow z2 = shadow ?z" unfolding eq by blast
    have "get_cacheline a z = Some (?w, z2)"
      using False vt 1(1) 2(1) by (simp add: get_cacheline_def get_cacheline_MISS_def Let_def)
    moreover have "kept (zsm_user z) (zsm_user z2)" using 2(3) kept_trans [OF 1(3)] by simp
    ultimately show ?thesis using 1(5) 2 by auto
  qed
qed

text \<open>Storing a changed line in its way.\<close>

lemma put_line_spec:
  assumes z: "zsm_inv z" and tag: "tags0 z ! cache_wix a = cache_tag a" and a: "a < 2 ^ 47" and cl: "cl_ok cl"
    and u: "\<And>v. known (zsm_user z) v \<Longrightarrow> known u v" "acc u (refs {} z)" "\<forall>v\<in>set (cl_bytes cl). known u v"
  defines "z' \<equiv> z\<lparr>zsm_user := u, lyns0 := (lyns0 z)[cache_wix a := cl]\<rparr>"
  shows "zsm_inv z'" "tags0 z' ! cache_wix a = cache_tag a"
    "shadow z' x = (if cache_tag x = cache_tag a then cl_bytes cl ! get_cacheline_offset x else shadow z x)"
proof -
  note I = zsm_invD [OF z]
  have sl: "store_line z' = store_line z" by (simp add: z'_def)
  have cnt: "counted {} z'" using I(1) u by (simp add: z'_def counted_def linked_def)
  have "way_ok z' v" if "v < N_WAY_NENT" for v
    using I(4) [OF that] that I(2) tag cl u cache_tag_ok(3) [OF a] cache_wix_tag [of a]
    by (cases "v = cache_wix a") (auto simp: z'_def way_ok_def cl_ok_def)
  then show "zsm_inv z'" using cnt I(2,3) by (simp add: zsm_inv_def z'_def)
  show "tags0 z' ! cache_wix a = cache_tag a" using tag by (simp add: z'_def)
  have "cache_wix x = cache_wix a" if "cache_tag x = cache_tag a" using that cache_wix_tag [of x] cache_wix_tag [of a] by simp
  then show "shadow z' x = (if cache_tag x = cache_tag a then cl_bytes cl ! get_cacheline_offset x else shadow z x)"
    using tag I(2) cache_wix_less [of a] sl by (auto simp: shadow_def z'_def nth_list_update)
qed

text \<open>Changing the owner's state.\<close>

lemma user_change:
  assumes z: "zsm_inv z" and u: "\<And>v. known (zsm_user z) v \<Longrightarrow> known u v" "acc u (refs {} z)"
  shows "zsm_inv (z\<lparr>zsm_user := u\<rparr>)" "shadow (z\<lparr>zsm_user := u\<rparr>) = shadow z"
proof -
  note I = zsm_invD [OF z]
  have "counted {} (z\<lparr>zsm_user := u\<rparr>)" using I(1) u by (simp add: counted_def linked_def)
  moreover have "way_ok (z\<lparr>zsm_user := u\<rparr>) v" if "v < N_WAY_NENT" for v using I(4) [OF that] u(1) by (auto simp: way_ok_def)
  ultimately show "zsm_inv (z\<lparr>zsm_user := u\<rparr>)" using I(2,3) by (simp add: zsm_inv_def)
  show "shadow (z\<lparr>zsm_user := u\<rparr>) = shadow z" by (simp add: shadow_def fun_eq_iff)
qed

end

section \<open>Flushing the cache\<close>

context rc_client
begin

lemma flush_loop_spec:
  assumes "zsm_inv z" "distinct ws" "\<forall>w\<in>set ws. w < N_WAY_NENT"
  shows "\<exists>z'. flush_loop ws z = Some z' \<and> zsm_inv z' \<and> kept (zsm_user z) (zsm_user z') \<and> shadow z' = shadow z \<and>
     (\<forall>w<N_WAY_NENT. tags0 z' ! w = (if w \<in> set ws then 1 else tags0 z ! w))"
  using assms
proof (induction ws arbitrary: z)
  case Nil
  then show ?case using kept_refl by auto
next
  case (Cons w ws)
  note I = zsm_invD [OF Cons.prems(1)]
  have w: "w < N_WAY_NENT" "w \<notin> set ws" using Cons.prems by auto
  have "\<exists>z1. (if tags0 z ! w = 1 then Some z else do { tl_assert (is_valid_scache_tag (tags0 z ! w)); cacheline_wback w z }) = Some z1 \<and>
     kept (zsm_user z) (zsm_user z1) \<and> tags0 z1 = tags0 z \<and> zsm_inv (z1\<lparr>tags0 := (tags0 z1)[w := 1]\<rparr>) \<and>
     shadow (z1\<lparr>tags0 := (tags0 z1)[w := 1]\<rparr>) = shadow z"
  proof (cases "tags0 z ! w = 1")
    case True
    then have "z\<lparr>tags0 := (tags0 z)[w := 1]\<rparr> = z" using list_update_id [of "tags0 z" w] by simp
    then show ?thesis using True Cons.prems(1) kept_refl by (intro exI [of _ z]) simp
  next
    case False
    then have "is_valid_scache_tag (tags0 z ! w)" using I(4) [OF w(1)] by (auto simp: way_ok_def tag_ok_def)
    with evict_spec [OF Cons.prems(1) w(1) False] False show ?thesis by (auto simp: frame_def)
  qed
  then obtain z1 where 1: "(if tags0 z ! w = 1 then Some z
       else do { tl_assert (is_valid_scache_tag (tags0 z ! w)); cacheline_wback w z }) = Some z1"
     "kept (zsm_user z) (zsm_user z1)" "tags0 z1 = tags0 z" "zsm_inv (z1\<lparr>tags0 := (tags0 z1)[w := 1]\<rparr>)"
     "shadow (z1\<lparr>tags0 := (tags0 z1)[w := 1]\<rparr>) = shadow z" by blast
  from Cons.IH [OF 1(4)] Cons.prems obtain z' where
    2: "flush_loop ws (z1\<lparr>tags0 := (tags0 z1)[w := 1]\<rparr>) = Some z'" "zsm_inv z'" "kept (zsm_user z1) (zsm_user z')"
    "shadow z' = shadow z" "\<forall>v<N_WAY_NENT. tags0 z' ! v = (if v \<in> set ws then 1 else (tags0 z1)[w := 1] ! v)"
    by (auto simp: 1(5))
  have "flush_loop (w # ws) z = Some z'" using 1(1) 2(1) by (simp add: Let_def)
  moreover have "\<forall>v<N_WAY_NENT. tags0 z' ! v = (if v \<in> set (w # ws) then 1 else tags0 z ! v)"
    using 2(5) 1(3) I(3) w by (auto simp: nth_list_update)
  ultimately show ?case using 2(2,4) kept_trans [OF 1(2) 2(3)] by blast
qed

lemma flush_cache_spec:
  assumes "zsm_inv z"
  shows "\<exists>z'. zsm_flush_cache z = Some z' \<and> zsm_inv z' \<and> kept (zsm_user z) (zsm_user z') \<and> shadow z' = shadow z \<and>
     (\<forall>w<N_WAY_NENT. tags0 z' ! w = 1)"
  using flush_loop_spec [OF assms, of "[0..<N_WAY_NENT]"]
  by (auto simp: zsm_flush_cache_def shmem__flush_and_invalidate_scache_def)

text \<open>With an empty cache, every shadow value is counted.\<close>

lemma flushed_counted:
  assumes z: "zsm_inv z" and fl: "\<forall>w<N_WAY_NENT. tags0 z ! w = 1"
  shows "shadow z a = SVal_NOACCESS \<or> shadow z a \<in># refs {} z"
proof -
  have st: "store_ok {} z" using zsm_invD(1) [OF z] by (simp add: counted_def)
  have "tags0 z ! cache_wix a \<noteq> cache_tag a" using fl cache_wix_less cache_tag_ok(2) [of a] by auto
  moreover have "get_cacheline_offset a < length (store_line z (cache_tag a))"
    using store_line_valid(1) [OF st] offset_less by simp
  ultimately have "shadow z a \<in> set (store_line z (cache_tag a))" by (simp add: shadow_def)
  then show ?thesis using store_line_valid(2) [OF st] by blast
qed

text \<open>With an empty cache, the owner may forget every value that is not counted.\<close>

lemma flushed_change:
  assumes z: "zsm_inv z" and fl: "\<forall>w<N_WAY_NENT. tags0 z ! w = 1"
    and u: "acc u (refs {} z)" "\<forall>v\<in>#refs {} z. known u v"
  shows "zsm_inv (z\<lparr>zsm_user := u\<rparr>)" "shadow (z\<lparr>zsm_user := u\<rparr>) = shadow z"
proof -
  note I = zsm_invD [OF z]
  have "counted {} (z\<lparr>zsm_user := u\<rparr>)" using I(1) u by (simp add: counted_def linked_def)
  moreover have "way_ok (z\<lparr>zsm_user := u\<rparr>) v" if "v < N_WAY_NENT" for v using I(4) [OF that] fl that by (auto simp: way_ok_def)
  ultimately show "zsm_inv (z\<lparr>zsm_user := u\<rparr>)" using I(2,3) by (simp add: zsm_inv_def)
  show "shadow (z\<lparr>zsm_user := u\<rparr>) = shadow z" by (simp add: shadow_def fun_eq_iff)
qed

lemma init_spec:
  assumes "acc u {#}"
  shows "zsm_inv (zsm_init inc dec u)" "shadow (zsm_init inc dec u) a = SVal_NOACCESS" "zsm_user (zsm_init inc dec u) = u"
proof -
  let ?z = "zsm_init inc dec u"
  have z: "?z = \<lparr>rcinc = inc, rcdec = dec, zsm_user = u, map_shmem = newFM cmp_unsigned_Words, secmaps = [],
        smCache = [(1, None), (1, None), (1, None)],
        lyns0 = replicate N_WAY_NENT \<lparr>descrs = replicate N_LINE_TREES 0, svals = replicate N_LINE_ARANGE 0\<rparr>,
        tags0 = replicate N_WAY_NENT 1\<rparr>"
    unfolding zsm_init_def by (subst invalidate_scache) simp_all
  have at: "sm_at ?z k = None" for k by (simp add: sm_at_def z unboxed.fm.lookup_new)
  have shp: "shape_ok ?z" using unboxed.fm.inv_new at by (simp add: shape_ok_def) (simp add: z)
  have st: "store_ok {} ?z" using shp by (simp add: store_ok_def z)
  have r: "refs {} ?z = {#}" by (simp add: refs_def lines_of_def z)
  have "counted {} ?z" using st r assms by (simp add: counted_def linked_def) (simp add: z)
  moreover have "way_ok ?z w" if "w < N_WAY_NENT" for w using that by (simp add: way_ok_def z N_LINE_TREES_def)
  ultimately show "zsm_inv ?z" by (simp add: zsm_inv_def) (simp add: z)
  have "tags0 ?z ! cache_wix a \<noteq> cache_tag a" using cache_tag_ok(2) [of a] cache_wix_less [of a] by (auto simp: z)
  then show "shadow ?z a = SVal_NOACCESS" using at offset_less by (simp add: shadow_def store_line_def)
  show "zsm_user ?z = u" by (simp add: z)
qed

end

section \<open>When a line can be compressed\<close>

definition dict_ok :: "SVal set \<Rightarrow> SVal list \<Rightarrow> bool" where
  "dict_ok S d \<longleftrightarrow> length d = 4 \<and> set d \<subseteq> insert SVal_INVALID S \<and> distinct (filter (\<lambda>s. s \<noteq> SVal_INVALID) d)"

lemma list_of_4: "length d = 4 \<Longrightarrow> \<exists>a b c e. d = [a, b, c, e]"
  by (cases d; cases "tl d"; cases "tl (tl d)"; cases "tl (tl (tl d))") auto

lemma dict_slot_fits:
  assumes d: "dict_ok S d" and S: "finite S" "card S \<le> 4" "sv \<in> S" "sv \<noteq> SVal_INVALID"
  shows "\<exists>j d'. dict_slot sv d = Some (j, d') \<and> dict_ok S d'"
proof -
  obtain a b c e where abc: "d = [a, b, c, e]" using list_of_4 [of d] d unfolding dict_ok_def by blast
  have False if n: "dict_slot sv d = None"
  proof -
    have v: "sv \<notin> set d" "SVal_INVALID \<notin> set d" using n by (auto simp: dict_slot_def abc split: if_splits)
    have "filter (\<lambda>s. s \<noteq> SVal_INVALID) d = d" using v(2) by (auto simp: filter_id_conv)
    then have "card (set d) = 4" using d distinct_card [of d] by (simp add: dict_ok_def)
    moreover have "set d \<subseteq> S - {sv}" using d v by (auto simp: dict_ok_def)
    then have "card (set d) \<le> card (S - {sv})" using S(1) by (intro card_mono) auto
    ultimately show False using S by (simp add: card_Diff_singleton)
  qed
  moreover have "dict_ok S d'" if "dict_slot sv d = Some (j, d')" for j d'
    using that d S(3,4) by (auto simp: dict_slot_def dict_ok_def abc split: if_splits)
  ultimately show ?thesis by (cases "dict_slot sv d") auto
qed

lemma compress_fits:
  assumes "\<forall>(m, s)\<in>set cs. m \<in> {1, 2, 4, 8} \<and> s \<noteq> SVal_INVALID \<and> s \<in> S" "finite S" "card S \<le> 4" "dict_ok S (dict lz)"
  shows "\<exists>lz'. compress_loop cs i lz = Some (i + length (expand cs), lz')"
  using assms(1,4)
proof (induction cs arbitrary: i lz)
  case Nil
  then show ?case by (simp add: expand_def)
next
  case (Cons c cs)
  obtain m sv where c: "c = (m, sv)" by (cases c)
  from Cons.prems c have m: "m \<in> {1, 2, 4, 8}" "sv \<noteq> SVal_INVALID" "sv \<in> S" by auto
  from dict_slot_fits [OF Cons.prems(2) assms(2,3) m(3,2)] obtain j d' where
    j: "dict_slot sv (dict lz) = Some (j, d')" "dict_ok S d'" by blast
  let ?lz = "lz\<lparr>dict := d', ix2s := write_twobit_run (ix2s lz) i m j\<rparr>"
  from Cons.IH [of ?lz "i + m"] Cons.prems(1) j(2) obtain lz' where "compress_loop cs (i + m) ?lz = Some (i + m + length (expand cs), lz')" by auto
  then show ?case using j(1) m(1) by (auto simp: c length_expand_Cons)
qed

text \<open>
  C22.  The loop of \<^verbatim>\<open>cacheline_wback\<close> covers a whole sane line (so that the compressed representation is
  used) if and only if the line has at most four different values; then every byte of the compressed
  line, read back as in \<^verbatim>\<open>cacheline_fetch\<close>, has the value it had, and its first dictionary entry marks it
  as compressed.
\<close>

theorem compressed_line_roundtrip:
  assumes "cl_ok cl" "length (ix2s lz0) = 16" "sequentialise_CacheLine cl = Some cs"
  shows "\<exists>i lz. compress_loop cs 0 (lz0\<lparr>dict := [SVal_INVALID, SVal_INVALID, SVal_INVALID, SVal_INVALID]\<rparr>) = Some (i, lz) \<and>
     (i = 64 \<longleftrightarrow> card (set (cl_bytes cl)) \<le> 4) \<and>
     (i = 64 \<longrightarrow> map (lineZ_val lz) [0..<64] = cl_bytes cl \<and> dict lz ! 0 \<noteq> SVal_INVALID)"
proof -
  let ?vs = "cl_bytes cl"
  from sequentialise_CacheLine_spec [OF assms(1)] assms(3) have
    cs: "expand cs = ?vs" "\<forall>(m, s)\<in>set cs. m \<in> {1, 2, 4, 8} \<and> s \<noteq> SVal_INVALID" by auto
  have len: "length ?vs = 64" using assms(1) length_cl_bytes [of cl] by (simp add: cl_ok_def)
  from compress_line [OF cs(2,1) len assms(2)] obtain i lz where
    c: "compress_loop cs 0 (empty_dict lz0) = Some (i, lz)"
      "i = 64 \<Longrightarrow> lineZ_ok 64 lz \<and> \<not> isF lz \<and> map (lineZ_val lz) [0..<64] = ?vs" by blast
  have "i = 64" if "card (set ?vs) \<le> 4"
  proof -
    have "s \<in> set (expand cs)" if "(m, s) \<in> set cs" "m \<noteq> 0" for m s
      using that by (auto simp: expand_def intro!: bexI [of _ "(m, s)"])
    then have v: "\<forall>(m, s)\<in>set cs. m \<in> {1, 2, 4, 8} \<and> s \<noteq> SVal_INVALID \<and> s \<in> set ?vs"
      using cs(2) unfolding cs(1) by fastforce
    have "dict_ok (set ?vs) (dict (empty_dict lz0))" by (simp add: dict_ok_def empty_dict_def)
    from compress_fits [OF v finite_set that this, of 0] show ?thesis using c(1) cs(1) len by auto
  qed
  moreover have "card (set ?vs) \<le> 4" if "i = 64"
  proof -
    have "lineZ_val lz k \<in> set (dict lz)" for k
      using c(2) [OF that] read_twobit_less [of "ix2s lz" k] by (auto simp: lineZ_val_def lineZ_ok_def word_less_nat_alt)
    then have "set ?vs \<subseteq> set (dict lz)" using c(2) [OF that] by (metis image_subsetI set_map)
    then show ?thesis using c(2) [OF that] card_length [of "dict lz"] card_mono [of "set (dict lz)"] by (auto simp: lineZ_ok_def intro: order_trans)
  qed
  ultimately show ?thesis using c unfolding empty_dict_def isF_def by (intro exI [of _ i] exI [of _ lz]) blast
qed

theorem compressed_line_roundtrip_witness:
  "\<exists>cl cs lz. sequentialise_CacheLine cl = Some cs \<and> compress_loop cs 0 (new_LineZ\<lparr>dict := [SVal_INVALID, SVal_INVALID, SVal_INVALID, SVal_INVALID]\<rparr>) = Some (64, lz) \<and>
     map (lineZ_val lz) [0..<64] = replicate 64 SVal_NOACCESS"
proof -
  obtain cl where cl: "cl_ok cl" "cl_bytes cl = replicate 64 SVal_NOACCESS" using noaccess_line by blast
  obtain cs where cs: "sequentialise_CacheLine cl = Some cs" using sequentialise_CacheLine_spec [OF cl(1)] by blast
  have "length (ix2s new_LineZ) = 16" by (simp add: new_LineZ_def)
  from compressed_line_roundtrip [OF cl(1) this cs] cl(2) cs show ?thesis by auto
qed

end
