(* ===== verification/ZsmAccess.thy ===== *)
theory ZsmAccess
  imports ShadowCache MSM
begin

text \<open>
  The accessors of the shadow memory of \<^verbatim>\<open>helgrind/libhb_core.c\<close> ("Apply core MSM to specific memory
  locations", "Shadow memory range setting ops"): reading, writing and copying shadow values, setting
  the value of a range, and applying the memory state machine to a range.

  The functions \<^verbatim>\<open>zsm_apply*___msm_read\<close> and \<^verbatim>\<open>zsm_apply*___msm_write\<close> have the same text up to the function they
  apply, which is the parameter \<open>msm\<close> here; the four range functions have the same text up to the
  accessors they call.
\<close>

section \<open>Writing\<close>

text \<open>Fetching the line of an address and changing it.\<close>

definition in_line :: "(CacheLine \<Rightarrow> CacheLine option) \<Rightarrow> Addr \<Rightarrow> 'u zsm \<Rightarrow> 'u zsm option" where
  "in_line f a z =
     do {
       (wix, z) \<leftarrow> get_cacheline a z;
       cl \<leftarrow> f (lyns0 z ! wix);
       Some (z\<lparr>lyns0 := (lyns0 z)[wix := cl]\<rparr>)
     }"

definition zsm_write8 :: "Addr \<Rightarrow> SVal \<Rightarrow> 'u zsm \<Rightarrow> 'u zsm option" where
  "zsm_write8 a svNew z = in_line (line_write8 a svNew) a z"

definition zsm_write16 :: "Addr \<Rightarrow> SVal \<Rightarrow> 'u zsm \<Rightarrow> 'u zsm option" where
  "zsm_write16 a svNew z =
     (if \<not> aligned16 a then do { z \<leftarrow> zsm_write8 (a + 0) svNew z; zsm_write8 (a + 1) svNew z }
      else in_line (line_write16 a svNew) a z)"

definition zsm_write32 :: "Addr \<Rightarrow> SVal \<Rightarrow> 'u zsm \<Rightarrow> 'u zsm option" where
  "zsm_write32 a svNew z =
     (if \<not> aligned32 a then do { z \<leftarrow> zsm_write16 (a + 0) svNew z; zsm_write16 (a + 2) svNew z }
      else in_line (line_write32 a svNew) a z)"

definition zsm_write64 :: "Addr \<Rightarrow> SVal \<Rightarrow> 'u zsm \<Rightarrow> 'u zsm option" where
  "zsm_write64 a svNew z =
     (if \<not> aligned64 a then do { z \<leftarrow> zsm_write32 (a + 0) svNew z; zsm_write32 (a + 4) svNew z }
      else in_line (line_write64 a svNew) a z)"

definition zsm_read8 :: "Addr \<Rightarrow> 'u zsm \<Rightarrow> (SVal \<times> 'u zsm) option" where
  "zsm_read8 a z =
     do {
       (wix, z) \<leftarrow> get_cacheline a z;
       cl \<leftarrow> line_split8 a (lyns0 z ! wix);
       Some (svals cl ! get_cacheline_offset a, z\<lparr>lyns0 := (lyns0 z)[wix := cl]\<rparr>)
     }"

definition zsm_copy8 :: "Addr \<Rightarrow> Addr \<Rightarrow> 'u zsm \<Rightarrow> 'u zsm option" where
  "zsm_copy8 src dst z = do { (sv, z) \<leftarrow> zsm_read8 src z; zsm_write8 dst sv z }"

section \<open>Applying the state machine\<close>

type_synonym 'u msm = "SVal \<Rightarrow> Addr \<Rightarrow> nat \<Rightarrow> 'u \<Rightarrow> (SVal \<times> hb_event list \<times> 'u) option"
type_synonym 'u logged = "hb_event list \<times> 'u zsm"

text \<open>Applying the state machine to the node at the address \<open>a\<close> of the line in way \<open>wix\<close>, changed to \<open>cl\<close>.\<close>

definition apply_node :: "'u msm \<Rightarrow> Addr \<Rightarrow> nat \<Rightarrow> nat \<Rightarrow> CacheLine \<Rightarrow> 'u logged \<Rightarrow> 'u logged option" where
  "apply_node msm a szB wix cl l =
     (case l of (evs, z) \<Rightarrow>
        do {
          let cloff = get_cacheline_offset a;
          let svOld = svals cl ! cloff;
          (svNew, ev, u) \<leftarrow> msm svOld a szB (zsm_user z);
          tl_assert (svNew \<noteq> SVal_INVALID);
          Some (evs @ ev, z\<lparr>zsm_user := u, lyns0 := (lyns0 z)[wix := put_sval cloff svNew cl]\<rparr>)
        })"

definition zsm_apply8 :: "'u msm \<Rightarrow> Addr \<Rightarrow> 'u logged \<Rightarrow> 'u logged option" where
  "zsm_apply8 msm a l =
     (case l of (evs, z) \<Rightarrow>
        do {
          (wix, z) \<leftarrow> get_cacheline a z;
          cl \<leftarrow> line_split8 a (lyns0 z ! wix);
          apply_node msm a 1 wix cl (evs, z)
        })"

text \<open>
  An access of \<open>szB\<close> bytes: on the node of that size, if the address is aligned (\<open>al\<close>) and the node can be
  made, else in two halves (\<^verbatim>\<open>slowcase\<close>).
\<close>

definition apply_or_split ::
  "(Addr \<Rightarrow> bool) \<Rightarrow> (Addr \<Rightarrow> CacheLine \<Rightarrow> CacheLine option option) \<Rightarrow> nat \<Rightarrow>
   (Addr \<Rightarrow> 'u logged \<Rightarrow> 'u logged option) \<Rightarrow> Addr \<Rightarrow> 'u msm \<Rightarrow> Addr \<Rightarrow> 'u logged \<Rightarrow> 'u logged option" where
  "apply_or_split al node szB half h msm a l =
     (if \<not> al a then do { l \<leftarrow> half (a + 0) l; half (a + h) l }
      else (case l of (evs, z) \<Rightarrow>
        do {
          (wix, z) \<leftarrow> get_cacheline a z;
          r \<leftarrow> node a (lyns0 z ! wix);
          case r of
            None \<Rightarrow> do { l \<leftarrow> half (a + 0) (evs, z); half (a + h) l }
          | Some cl \<Rightarrow> apply_node msm a szB wix cl (evs, z)
        }))"

definition zsm_apply16 :: "'u msm \<Rightarrow> Addr \<Rightarrow> 'u logged \<Rightarrow> 'u logged option" where
  "zsm_apply16 msm = apply_or_split aligned16 line_node16 2 (zsm_apply8 msm) 1 msm"

definition zsm_apply32 :: "'u msm \<Rightarrow> Addr \<Rightarrow> 'u logged \<Rightarrow> 'u logged option" where
  "zsm_apply32 msm = apply_or_split aligned32 line_node32 4 (zsm_apply16 msm) 2 msm"

definition zsm_apply64 :: "'u msm \<Rightarrow> Addr \<Rightarrow> 'u logged \<Rightarrow> 'u logged option" where
  "zsm_apply64 msm = apply_or_split aligned64 line_node64 8 (zsm_apply32 msm) 4 msm"

section \<open>Ranges\<close>

text \<open>
  The walk over a range with accesses of 8, 16, 32 and 64 bits.  First the accesses up to the next
  boundary of 64 bits, then the loop, then the rest.
\<close>

type_synonym 's acc = "Addr \<Rightarrow> 's \<Rightarrow> 's option"

definition range_head :: "(Addr \<Rightarrow> bool) \<Rightarrow> UWord \<Rightarrow> 's acc \<Rightarrow> Addr \<times> UWord \<times> 's \<Rightarrow> (Addr \<times> UWord \<times> 's) option" where
  "range_head al n f r =
     (case r of (a, len, s) \<Rightarrow>
        if \<not> al a \<and> len \<ge> n then do { s \<leftarrow> f a s; tl_assert (al (a + n)); Some (a + n, len - n, s) }
        else Some (a, len, s))"

function range_loop :: "'s acc \<Rightarrow> Addr \<times> UWord \<times> 's \<Rightarrow> (Addr \<times> UWord \<times> 's) option" where
  "range_loop f64 (a, len, s) =
     (if len \<ge> 8 then do { s \<leftarrow> f64 a s; range_loop f64 (a + 8, len - 8, s) } else Some (a, len, s))"
  by pat_completeness auto

termination
proof (relation "measure (\<lambda>(f, a, len, s). unat len)")
  fix f64 :: "'s acc" and a :: Addr and len :: UWord and s s' :: 's
  assume "8 \<le> len"
  then have "unat (len - 8) < unat len" by (simp add: unat_sub word_le_nat_alt)
  then show "((f64, a + 8, len - 8, s'), (f64, a, len, s)) \<in> measure (\<lambda>(f, a, len, s). unat len)" by simp
qed simp

definition range_mid :: "'s acc \<Rightarrow> Addr \<times> UWord \<times> 's \<Rightarrow> (Addr \<times> UWord \<times> 's) option" where
  "range_mid f64 r =
     (case r of (a, len, s) \<Rightarrow>
        if len \<ge> 8 then do { tl_assert (aligned64 a); r \<leftarrow> range_loop f64 r; tl_assert (aligned64 (fst r)); Some r }
        else Some r)"

definition range_tail :: "(Addr \<Rightarrow> bool) \<Rightarrow> UWord \<Rightarrow> 's acc \<Rightarrow> Addr \<times> UWord \<times> 's \<Rightarrow> (Addr \<times> UWord \<times> 's) option" where
  "range_tail al n f r =
     (case r of (a, len, s) \<Rightarrow>
        if len \<ge> n then do { tl_assert (al a); s \<leftarrow> f a s; Some (a + n, len - n, s) } else Some (a, len, s))"

text \<open>The early returns \<^verbatim>\<open>if (len == 0) return;\<close>.\<close>

fun unless_done :: "(Addr \<times> UWord \<times> 's \<Rightarrow> 's option) \<Rightarrow> Addr \<times> UWord \<times> 's \<Rightarrow> 's option" where
  "unless_done k (a, len, s) = (if len = 0 then Some s else k (a, len, s))"

definition range_general :: "'s acc \<Rightarrow> 's acc \<Rightarrow> 's acc \<Rightarrow> 's acc \<Rightarrow> Addr \<times> UWord \<times> 's \<Rightarrow> 's option" where
  "range_general f8 f16 f32 f64 =
     unless_done (\<lambda>r. do { r \<leftarrow> range_head aligned16 1 f8 r;
     unless_done (\<lambda>r. do { r \<leftarrow> range_head aligned32 2 f16 r;
     unless_done (\<lambda>r. do { r \<leftarrow> range_head aligned64 4 f32 r;
     unless_done (\<lambda>r. do { r \<leftarrow> range_mid f64 r;
     unless_done (\<lambda>r. do { r \<leftarrow> range_tail aligned32 4 f32 r;
     unless_done (\<lambda>r. do { r \<leftarrow> range_tail aligned16 2 f16 r;
     unless_done (\<lambda>r. do { (a, len, s) \<leftarrow> range_tail (\<lambda>a. True) 1 f8 r;
       tl_assert (len = 0); Some s }) r }) r }) r }) r }) r }) r })"

definition range_walk :: "'s acc \<Rightarrow> 's acc \<Rightarrow> 's acc \<Rightarrow> 's acc \<Rightarrow> Addr \<Rightarrow> UWord \<Rightarrow> 's \<Rightarrow> 's option" where
  "range_walk f8 f16 f32 f64 a len s =
     (if len = 4 \<and> aligned32 a then f32 a s
      else if len = 8 \<and> aligned64 a then f64 a s
      else range_general f8 f16 f32 f64 (a, len, s))"

definition zsm_apply_range :: "'u msm \<Rightarrow> Addr \<Rightarrow> UWord \<Rightarrow> 'u zsm \<Rightarrow> 'u logged option" where
  "zsm_apply_range msm a len z =
     range_walk (zsm_apply8 msm) (zsm_apply16 msm) (zsm_apply32 msm) (zsm_apply64 msm) a len ([], z)"

definition zsm_set_range_SMALL :: "Addr \<Rightarrow> UWord \<Rightarrow> SVal \<Rightarrow> 'u zsm \<Rightarrow> 'u zsm option" where
  "zsm_set_range_SMALL a len svNew z =
     range_walk (\<lambda>a. zsm_write8 a svNew) (\<lambda>a. zsm_write16 a svNew) (\<lambda>a. zsm_write32 a svNew) (\<lambda>a. zsm_write64 a svNew)
       a len z"

fun copy_loop :: "nat list \<Rightarrow> Addr \<Rightarrow> Addr \<Rightarrow> 'u zsm \<Rightarrow> 'u zsm option" where
  "copy_loop [] src dst z = Some z"
| "copy_loop (i # is) src dst z = do { z \<leftarrow> zsm_copy8 (src + of_nat i) (dst + of_nat i) z; copy_loop is src dst z }"

definition zsm_copy_range :: "Addr \<Rightarrow> Addr \<Rightarrow> UWord \<Rightarrow> 'u zsm \<Rightarrow> 'u zsm option" where
  "zsm_copy_range src dst len z =
     (if len = 0 then Some z
      else do {
        tl_assert (src + len \<le> dst \<or> dst + len \<le> src);
        copy_loop [0..<unat len] src dst z
      })"

section \<open>Setting large ranges\<close>

definition cacheline_ROUNDUP :: "Addr \<Rightarrow> Addr" where
  "cacheline_ROUNDUP a = (a + of_nat N_LINE_ARANGE - 1) AND NOT (of_nat N_LINE_ARANGE - 1)"

definition cacheline_ROUNDDN :: "Addr \<Rightarrow> Addr" where
  "cacheline_ROUNDDN a = a AND NOT (of_nat N_LINE_ARANGE - 1)"

text \<open>One round of the loop: the line in the cache, or its compressed form in the store.\<close>

definition set_line :: "Addr \<Rightarrow> SVal \<Rightarrow> 'u zsm \<Rightarrow> 'u zsm option" where
  "set_line aligned_start svNew z =
     do {
       tl_assert (get_cacheline_offset aligned_start = 0);
       let tag = cache_tag aligned_start;
       let wix = cache_wix aligned_start;
       if tag = tags0 z ! wix
       then fold (\<lambda>i r. Option.bind r (zsm_write64 (aligned_start + of_nat i * 8) svNew)) [0..<N_LINE_TREES] (Some z)
       else
         do {
           ((smp, zix), z) \<leftarrow> find_Z_for_writing tag z;
           sm \<leftarrow> index_opt (secmaps z) smp;
           tl_assert (zix < N_SECMAP_ZLINES);
           let lineZ = \<lparr>dict = [svNew, SVal_INVALID, SVal_INVALID, SVal_INVALID], ix2s = replicate 16 0\<rparr>;
           rcinc_LineZ lineZ (put_SecMap smp (put_lineZ zix lineZ sm) z)
         }
     }"

partial_function (option) set_lines :: "Addr \<Rightarrow> Addr \<Rightarrow> UWord \<Rightarrow> SVal \<Rightarrow> 'u zsm \<Rightarrow> (Addr \<times> UWord \<times> 'u zsm) option" where
  "set_lines aligned_start after_start aligned_len svNew z =
     (if aligned_start \<ge> after_start then Some (aligned_start, aligned_len, z)
      else do {
        z \<leftarrow> set_line aligned_start svNew z;
        set_lines (aligned_start + of_nat N_LINE_ARANGE) after_start (aligned_len - of_nat N_LINE_ARANGE) svNew z
      })"

definition zsm_set_range :: "Addr \<Rightarrow> UWord \<Rightarrow> SVal \<Rightarrow> 'u zsm \<Rightarrow> 'u zsm option" where
  "zsm_set_range a len svNew z =
     do {
       tl_assert (svNew \<noteq> SVal_INVALID);
       if len < 2 * of_nat N_LINE_ARANGE then zsm_set_range_SMALL a len svNew z
       else
         do {
           let before_start = a;
           let aligned_start = cacheline_ROUNDUP a;
           let after_start = cacheline_ROUNDDN (a + len);
           let before_len = aligned_start - before_start;
           let aligned_len = after_start - aligned_start;
           let after_len = a + len - after_start;
           tl_assert (before_start \<le> aligned_start);
           tl_assert (aligned_start \<le> after_start);
           tl_assert (before_len < of_nat N_LINE_ARANGE);
           tl_assert (after_len < of_nat N_LINE_ARANGE);
           tl_assert (get_cacheline_offset aligned_start = 0);
           tl_assert (get_cacheline_offset a = 0 \<longrightarrow> before_len = 0 \<and> a = aligned_start);
           tl_assert (get_cacheline_offset (a + len) = 0 \<longrightarrow> after_len = 0 \<and> after_start = a + len);
           z \<leftarrow> (if before_len > 0 then zsm_set_range_SMALL before_start before_len svNew z else Some z);
           z \<leftarrow> (if after_len > 0 then zsm_set_range_SMALL after_start after_len svNew z else Some z);
           (aligned_start, aligned_len, z) \<leftarrow> set_lines aligned_start after_start aligned_len svNew z;
           tl_assert (aligned_start = after_start);
           tl_assert (aligned_len = 0);
           Some z
         }
     }"

section \<open>Ranges of addresses\<close>

definition in_range :: "Addr \<Rightarrow> nat \<Rightarrow> Addr \<Rightarrow> bool" where
  "in_range a n x \<longleftrightarrow> unat (x - a) < n"

lemma in_range_0 [simp]: "\<not> in_range a 0 x"
  by (simp add: in_range_def)

lemma unat_add_no_wrap: "unat (a :: Addr) + k < 2 ^ 64 \<Longrightarrow> unat (a + of_nat k) = unat a + k"
  by (simp add: unat_word_ariths unsigned_of_nat take_bit_nat_eq_self)

lemma in_range_iff:
  assumes "unat a + n \<le> 2 ^ 64"
  shows "in_range a n x \<longleftrightarrow> unat a \<le> unat x \<and> unat x < unat a + n"
proof (cases "a \<le> x")
  case True
  then show ?thesis using unat_sub [of a x] by (auto simp: in_range_def word_le_nat_alt)
next
  case False
  then have lt: "unat x < unat a" by (simp add: word_le_nat_alt)
  have "unat (x - a) = 2 ^ 64 - unat (a - x)"
  proof -
    have "unat (a - x) = unat a - unat x" using lt by (simp add: unat_sub word_le_nat_alt)
    moreover have "x - a = of_nat (2 ^ 64 + unat x - unat a)"
      using lt unsigned_less [of a, where 'a = nat] by (simp add: of_nat_diff)
    moreover have "2 ^ 64 + unat x - unat a < 2 ^ 64" using lt by simp
    ultimately show ?thesis using lt by (simp add: unsigned_of_nat take_bit_nat_eq_self)
  qed
  moreover have "unat (a - x) = unat a - unat x" using lt by (simp add: unat_sub word_le_nat_alt)
  ultimately show ?thesis using lt assms by (simp add: in_range_def)
qed

lemma in_range_split:
  assumes "unat a + m + n \<le> 2 ^ 64"
  shows "in_range a (m + n) x \<longleftrightarrow> in_range a m x \<or> in_range (a + of_nat m) n x"
proof (cases "n = 0")
  case False
  then have u: "unat (a + of_nat m) = unat a + m" using unat_add_no_wrap [of a m] assms by simp
  show ?thesis using in_range_iff [of a "m + n" x] in_range_iff [of a m x] in_range_iff [of "a + of_nat m" n x] u assms by auto
qed simp

lemma in_range_disjoint:
  assumes "unat a + m + n \<le> 2 ^ 64" "in_range a m x" shows "\<not> in_range (a + of_nat m) n x"
proof (cases "n = 0")
  case False
  then have u: "unat (a + of_nat m) = unat a + m" using unat_add_no_wrap [of a m] assms by simp
  show ?thesis using in_range_iff [of a m x] in_range_iff [of "a + of_nat m" n x] u assms by auto
qed simp

lemma in_range_line:
  assumes "get_cacheline_offset a + n \<le> 64"
  shows "in_range a n x \<longleftrightarrow> cache_tag x = cache_tag a \<and> get_cacheline_offset a \<le> get_cacheline_offset x \<and>
     get_cacheline_offset x < get_cacheline_offset a + n"
proof -
  have "unat (cache_tag a) mod 64 = 0" "unat (cache_tag a) < 2 ^ 64"
    using cache_tag_ok(1) [of a] unsigned_less [of "cache_tag a", where 'a = nat] by (simp_all add: valid_tag_mod)
  then have "unat (cache_tag a) + 64 \<le> 2 ^ 64"
  proof -
    assume m: "unat (cache_tag a) mod 64 = 0" "unat (cache_tag a) < 2 ^ 64"
    from m(1) obtain k where k: "unat (cache_tag a) = 64 * k" by (metis mod_0_imp_dvd dvdE)
    with m(2) have "k < 2 ^ 58" by simp
    then have "64 * Suc k \<le> 64 * 2 ^ 58" by (intro mult_le_mono) simp_all
    then show ?thesis using k by simp
  qed
  then have w: "unat a + n \<le> 2 ^ 64" using tag_offset [of a] assms by linarith
  have t: "unat (cache_tag y) = 64 * (unat y div 64)" for y using cache_tag_div [of y] .
  have tag_eq: "cache_tag x = cache_tag a \<longleftrightarrow> unat (cache_tag x) = unat (cache_tag a)" by (rule word_unat_eq_iff)
  show ?thesis
  proof
    assume "in_range a n x"
    then have i: "unat a \<le> unat x" "unat x < unat a + n" using in_range_iff [OF w] by auto
    have "64 * (unat a div 64) \<le> unat x" "unat x < 64 * (unat a div 64) + 64"
      using i assms tag_offset [of a] t [of a] by linarith+
    then have "unat x div 64 = unat a div 64" by (intro div_nat_eqI) (simp_all add: algebra_simps)
    then have "cache_tag x = cache_tag a" unfolding tag_eq t by simp
    with i tag_offset [of a] tag_offset [of x] show "cache_tag x = cache_tag a \<and> get_cacheline_offset a \<le> get_cacheline_offset x \<and>
       get_cacheline_offset x < get_cacheline_offset a + n" by simp
  next
    assume "cache_tag x = cache_tag a \<and> get_cacheline_offset a \<le> get_cacheline_offset x \<and>
       get_cacheline_offset x < get_cacheline_offset a + n"
    then show "in_range a n x" using in_range_iff [OF w] tag_offset [of a] tag_offset [of x] by simp
  qed
qed

lemma mod_room:
  assumes "n dvd 64" "0 < n" "x mod n = 0" shows "x mod 64 + n \<le> (64 :: nat)"
proof -
  have "x mod 64 mod n = 0" using assms(1,3) by (simp add: mod_mod_cancel)
  then obtain k where k: "x mod 64 = n * k" by (metis mod_0_imp_dvd dvdE)
  obtain j where j: "64 = n * j" using assms(1) unfolding dvd_def by blast
  have "n * k < n * j" using k j by (metis mod_less_divisor zero_less_numeral)
  then have "n * Suc k \<le> n * j" using assms(2) by (intro mult_le_mono) simp_all
  then show ?thesis using k j by simp
qed

lemma offset_room: "aligned16 a \<Longrightarrow> get_cacheline_offset a + 2 \<le> 64" "aligned32 a \<Longrightarrow> get_cacheline_offset a + 4 \<le> 64"
  "aligned64 a \<Longrightarrow> get_cacheline_offset a + 8 \<le> 64" "get_cacheline_offset a + 1 \<le> 64"
  unfolding aligned_mod offset_mod using mod_room [of 2 "unat a"] mod_room [of 4 "unat a"] mod_room [of 8 "unat a"] mod_room [of 1 "unat a"]
  by simp_all

section \<open>Writes\<close>

text \<open>Client addresses: the range stays below the limit of 47 bits.\<close>

definition client_range :: "Addr \<Rightarrow> nat \<Rightarrow> bool" where
  "client_range a n \<longleftrightarrow> unat a + n \<le> 2 ^ 47"

lemma client_range_addr: "client_range a n \<Longrightarrow> 0 < n \<Longrightarrow> a < 2 ^ 47"
  by (simp add: client_range_def word_less_nat_alt)

lemma client_range_split:
  assumes "client_range a (m + n)"
  shows "client_range a m" "client_range (a + of_nat m) n" "unat (a + of_nat m) = unat a + m" "unat a + m + n \<le> 2 ^ 64"
  using assms unat_add_no_wrap [of a m] by (auto simp: client_range_def)

context rc_client
begin

definition wrote :: "Addr \<Rightarrow> nat \<Rightarrow> SVal \<Rightarrow> 'u zsm \<Rightarrow> 'u zsm \<Rightarrow> bool" where
  "wrote a n v z z' \<longleftrightarrow> zsm_inv z' \<and> kept (zsm_user z) (zsm_user z') \<and>
     (\<forall>x. shadow z' x = (if in_range a n x then v else shadow z x))"

lemma wrote_split:
  assumes "client_range a (m + n)" "wrote a m v z z1" "wrote (a + of_nat m) n v z1 z2"
  shows "wrote a (m + n) v z z2"
  using assms in_range_split [OF client_range_split(4) [OF assms(1)]] kept_trans by (auto simp: wrote_def)

lemma wrote_0: "zsm_inv z \<Longrightarrow> wrote a 0 v z z"
  by (simp add: wrote_def kept_refl)

lemma in_line_spec:
  assumes z: "zsm_inv z" and a: "a < 2 ^ 47" and v: "known (zsm_user z) v"
    and f: "\<And>cl. cl_ok cl \<Longrightarrow> \<exists>cl'. f cl = Some cl' \<and> line_wrote (get_cacheline_offset a) n v cl cl'"
    and n: "get_cacheline_offset a + n \<le> 64"
  shows "\<exists>z'. in_line f a z = Some z' \<and> wrote a n v z z'"
proof -
  from get_cacheline_spec [OF z a] obtain z1 where
    1: "get_cacheline a z = Some (cache_wix a, z1)" "zsm_inv z1" "kept (zsm_user z) (zsm_user z1)"
      "tags0 z1 ! cache_wix a = cache_tag a" "shadow z1 = shadow z" by blast
  let ?cl = "lyns0 z1 ! cache_wix a"
  have w: "cl_ok ?cl" "\<forall>b\<in>set (cl_bytes ?cl). known (zsm_user z1) b"
    using zsm_invD(4) [OF 1(2) cache_wix_less, of a] 1(4) cache_tag_ok(2) [of a] by (auto simp: way_ok_def)
  from f [OF w(1)] obtain cl' where cl': "f ?cl = Some cl'" "line_wrote (get_cacheline_offset a) n v ?cl cl'" by blast
  have ok: "cl_ok cl'" and b: "\<And>i. i < 64 \<Longrightarrow> cl_bytes cl' ! i =
      (if get_cacheline_offset a \<le> i \<and> i < get_cacheline_offset a + n then v else cl_bytes ?cl ! i)"
    using cl'(2) by (auto simp: line_wrote_def)
  have len: "length (cl_bytes cl') = 64" "length (cl_bytes ?cl) = 64" using ok w(1) length_cl_bytes by (simp_all add: cl_ok_def)
  have kn: "\<forall>b\<in>set (cl_bytes cl'). known (zsm_user z1) b"
  proof
    fix c assume "c \<in> set (cl_bytes cl')"
    then obtain i where i: "i < 64" "c = cl_bytes cl' ! i" using len by (auto simp: in_set_conv_nth)
    have "cl_bytes ?cl ! i \<in> set (cl_bytes ?cl)" using i(1) len by simp
    then show "known (zsm_user z1) c" using b [OF i(1)] i(2) w(2) kept_known [OF 1(3) v] by auto
  qed
  have ac: "acc (zsm_user z1) (refs {} z1)" using zsm_invD(1) [OF 1(2)] by (simp add: counted_def)
  note P = put_line_spec [OF 1(2,4) a ok kept_known [OF kept_refl] ac kn]
  let ?z = "z1\<lparr>zsm_user := zsm_user z1, lyns0 := (lyns0 z1)[cache_wix a := cl']\<rparr>"
  have "shadow ?z x = (if in_range a n x then v else shadow z x)" for x
  proof (cases "cache_tag x = cache_tag a")
    case True
    have "cache_wix x = cache_wix a" using True cache_wix_tag [of x] cache_wix_tag [of a] by simp
    then have "shadow z x = cl_bytes ?cl ! get_cacheline_offset x"
      using 1(4) True fun_cong [OF 1(5), of x] by (simp add: shadow_def)
    then show ?thesis using P(3) [of x] True b [OF offset_less] in_range_line [OF n, of x] by simp
  next
    case False
    then show ?thesis using P(3) [of x] 1(5) in_range_line [OF n, of x] by simp
  qed
  then have "wrote a n v z ?z" using P(1) 1(3) by (simp add: wrote_def)
  then show ?thesis using 1(1) cl'(1) by (intro exI [of _ ?z]) (simp add: in_line_def)
qed

lemma write8_spec:
  assumes "zsm_inv z" "client_range a 1" "known (zsm_user z) v" "v \<noteq> SVal_INVALID"
  shows "\<exists>z'. zsm_write8 a v z = Some z' \<and> wrote a 1 v z z'"
  unfolding zsm_write8_def using assms client_range_addr line_write8_spec offset_room(4) by (intro in_line_spec) auto

text \<open>Two halves of an access that cannot be done at once.\<close>

lemma write_halves:
  assumes "\<And>z b. zsm_inv z \<Longrightarrow> client_range b n \<Longrightarrow> known (zsm_user z) v \<Longrightarrow> \<exists>z'. f b z = Some z' \<and> wrote b n v z z'"
    and "zsm_inv z" "client_range a (n + n)" "known (zsm_user z) v"
  shows "\<exists>z'. do { z \<leftarrow> f (a + 0) z; f (a + of_nat n) z } = Some z' \<and> wrote a (n + n) v z z'"
proof -
  note C = client_range_split [OF assms(3)]
  from assms(1) [OF assms(2) C(1) assms(4)] obtain z1 where 1: "f a z = Some z1" "wrote a n v z z1" by blast
  then have "zsm_inv z1" "known (zsm_user z1) v" using kept_known assms(4) by (auto simp: wrote_def)
  from assms(1) [OF this(1) C(2) this(2)] obtain z2 where 2: "f (a + of_nat n) z1 = Some z2" "wrote (a + of_nat n) n v z1 z2" by blast
  from wrote_split [OF assms(3) 1(2) 2(2)] 1(1) 2(1) show ?thesis by auto
qed

lemma write16_spec:
  assumes "zsm_inv z" "client_range a 2" "known (zsm_user z) v" "v \<noteq> SVal_INVALID"
  shows "\<exists>z'. zsm_write16 a v z = Some z' \<and> wrote a 2 v z z'"
proof (cases "aligned16 a")
  case True
  then show ?thesis using assms client_range_addr [of a 2] in_line_spec [OF assms(1) _ assms(3) line_write16_spec offset_room(1)]
    by (simp add: zsm_write16_def)
next
  case False
  have "client_range a (1 + 1)" using assms(2) by (simp add: numeral_2_eq_2)
  from write_halves [OF write8_spec assms(1) this assms(3)] False assms(4) show ?thesis
    by (simp add: zsm_write16_def numeral_2_eq_2)
qed

lemma write32_spec:
  assumes "zsm_inv z" "client_range a 4" "known (zsm_user z) v" "v \<noteq> SVal_INVALID"
  shows "\<exists>z'. zsm_write32 a v z = Some z' \<and> wrote a 4 v z z'"
proof (cases "aligned32 a")
  case True
  then show ?thesis using assms client_range_addr [of a 4] in_line_spec [OF assms(1) _ assms(3) line_write32_spec offset_room(2)]
    by (simp add: zsm_write32_def)
next
  case False
  have "client_range a (2 + 2)" using assms(2) by simp
  from write_halves [OF write16_spec assms(1) this assms(3)] False assms(4) show ?thesis by (simp add: zsm_write32_def)
qed

lemma write64_spec:
  assumes "zsm_inv z" "client_range a 8" "known (zsm_user z) v" "v \<noteq> SVal_INVALID"
  shows "\<exists>z'. zsm_write64 a v z = Some z' \<and> wrote a 8 v z z'"
proof (cases "aligned64 a")
  case True
  then show ?thesis using assms client_range_addr [of a 8] in_line_spec [OF assms(1) _ assms(3) line_write64_spec offset_room(3)]
    by (simp add: zsm_write64_def)
next
  case False
  have "client_range a (4 + 4)" using assms(2) by simp
  from write_halves [OF write32_spec assms(1) this assms(3)] False assms(4) show ?thesis by (simp add: zsm_write64_def)
qed

end

section \<open>The walk over a range\<close>

text \<open>
  The contract of the accessors that a range function calls: \<open>ready a k s\<close> says that the \<open>k\<close> bytes from \<open>a\<close>
  on can be accessed in the state \<open>s\<close>, \<open>eff a n s s'\<close> is the effect of accessing \<open>n\<close> bytes from \<open>a\<close> on.
\<close>

locale range_acc =
  fixes ready :: "Addr \<Rightarrow> nat \<Rightarrow> 's \<Rightarrow> bool"
    and eff :: "Addr \<Rightarrow> nat \<Rightarrow> 's \<Rightarrow> 's \<Rightarrow> bool"
    and f8 f16 f32 f64 :: "'s acc"
  assumes eff_0: "ready a k s \<Longrightarrow> eff a 0 s s"
    and eff_trans: "client_range a (m + n) \<Longrightarrow> eff a m s s1 \<Longrightarrow> eff (a + of_nat m) n s1 s2 \<Longrightarrow> eff a (m + n) s s2"
    and f8: "ready a (1 + k) s \<Longrightarrow> client_range a 1 \<Longrightarrow> \<exists>s'. f8 a s = Some s' \<and> eff a 1 s s' \<and> ready (a + 1) k s'"
    and f16: "ready a (2 + k) s \<Longrightarrow> client_range a 2 \<Longrightarrow> \<exists>s'. f16 a s = Some s' \<and> eff a 2 s s' \<and> ready (a + 2) k s'"
    and f32: "ready a (4 + k) s \<Longrightarrow> client_range a 4 \<Longrightarrow> \<exists>s'. f32 a s = Some s' \<and> eff a 4 s s' \<and> ready (a + 4) k s'"
    and f64: "ready a (8 + k) s \<Longrightarrow> client_range a 8 \<Longrightarrow> \<exists>s'. f64 a s = Some s' \<and> eff a 8 s s' \<and> ready (a + 8) k s'"
begin

definition moved :: "Addr \<Rightarrow> nat \<Rightarrow> nat \<Rightarrow> 's \<Rightarrow> Addr \<times> UWord \<times> 's \<Rightarrow> bool" where
  "moved a0 n k s0 r \<longleftrightarrow>
     (case r of (a, len, s) \<Rightarrow> \<exists>m. m + unat len = n \<and> a = a0 + of_nat m \<and> client_range a0 n \<and> eff a0 m s0 s \<and> ready a (unat len + k) s)"

definition finished :: "Addr \<Rightarrow> nat \<Rightarrow> nat \<Rightarrow> 's \<Rightarrow> 's option \<Rightarrow> bool" where
  "finished a0 n k s0 r \<longleftrightarrow> (\<exists>s. r = Some s \<and> eff a0 n s0 s \<and> ready (a0 + of_nat n) k s)"

lemma moved_start: "client_range a (unat len) \<Longrightarrow> ready a (unat len + k) s \<Longrightarrow> moved a (unat len) k s (a, len, s)"
  using eff_0 by (auto simp: moved_def)

lemma moved_done: "moved a0 n k s0 (a, len, s) \<Longrightarrow> len = 0 \<Longrightarrow> finished a0 n k s0 (Some s)"
  by (auto simp: moved_def finished_def)

lemma unless_done_spec:
  assumes "moved a0 n k s0 r" "fst (snd r) \<noteq> 0 \<Longrightarrow> finished a0 n k s0 (K r)"
  shows "finished a0 n k s0 (unless_done K r)"
  using assms moved_done by (cases r) auto

text \<open>One access of \<open>w\<close> bytes.\<close>

lemma moved_access:
  assumes m: "moved a0 n k s0 (a, len, s)" and w: "w \<le> len"
    and f: "\<And>k s a. ready a (unat w + k) s \<Longrightarrow> client_range a (unat w) \<Longrightarrow> \<exists>s'. f a s = Some s' \<and> eff a (unat w) s s' \<and> ready (a + w) k s'"
  shows "\<exists>s'. f a s = Some s' \<and> moved a0 n k s0 (a + w, len - w, s') \<and> unat (a + w) = unat a + unat w \<and>
     unat (len - w) = unat len - unat w"
proof -
  from m obtain j where j: "j + unat len = n" "a = a0 + of_nat j" "client_range a0 n" "eff a0 j s0 s" "ready a (unat len + k) s"
    by (auto simp: moved_def)
  have wl: "unat w \<le> unat len" "unat (len - w) = unat len - unat w" using w by (simp_all add: unat_sub word_le_nat_alt)
  define l where "l = unat len - unat w"
  have l: "unat len = unat w + l" "unat (len - w) = l" using wl by (simp_all add: l_def)
  have cr: "client_range a0 (j + (unat w + l))" using j(1,3) l by simp
  note C = client_range_split [OF cr]
  note D = client_range_split [OF C(2)]
  have rd: "ready a (unat w + (l + k)) s" using j(5) l(1) by (simp add: add.assoc)
  from f [OF rd] D(1) j(2) obtain s' where s': "f a s = Some s'" "eff a (unat w) s s'" "ready (a + w) (l + k) s'" by blast
  have cj: "client_range a0 (j + unat w)" using cr client_range_split(1) [of a0 "j + unat w" l] by (simp add: add.assoc)
  have "eff a0 (j + unat w) s0 s'" using eff_trans [OF cj j(4)] s'(2) j(2) by simp
  moreover have "a + w = a0 + of_nat (j + unat w)" using j(2) by simp
  ultimately have "moved a0 n k s0 (a + w, len - w, s')"
    using j(1,3) l s'(3) by (auto simp: moved_def intro!: exI [of _ "j + unat w"])
  moreover have "unat (a + w) = unat a + unat w" using D(3) j(2) by simp
  ultimately show ?thesis using s'(1) l wl by auto
qed

lemma access8: "moved a0 n k s0 (a, len, s) \<Longrightarrow> 1 \<le> len \<Longrightarrow>
    \<exists>s'. f8 a s = Some s' \<and> moved a0 n k s0 (a + 1, len - 1, s') \<and> unat (a + 1) = unat a + 1 \<and> unat (len - 1) = unat len - 1"
  using moved_access [of a0 n k s0 a len s 1 f8] f8 by simp

lemma access16: "moved a0 n k s0 (a, len, s) \<Longrightarrow> 2 \<le> len \<Longrightarrow>
    \<exists>s'. f16 a s = Some s' \<and> moved a0 n k s0 (a + 2, len - 2, s') \<and> unat (a + 2) = unat a + 2 \<and> unat (len - 2) = unat len - 2"
  using moved_access [of a0 n k s0 a len s 2 f16] f16 by simp

lemma access32: "moved a0 n k s0 (a, len, s) \<Longrightarrow> 4 \<le> len \<Longrightarrow>
    \<exists>s'. f32 a s = Some s' \<and> moved a0 n k s0 (a + 4, len - 4, s') \<and> unat (a + 4) = unat a + 4 \<and> unat (len - 4) = unat len - 4"
  using moved_access [of a0 n k s0 a len s 4 f32] f32 by simp

lemma access64: "moved a0 n k s0 (a, len, s) \<Longrightarrow> 8 \<le> len \<Longrightarrow>
    \<exists>s'. f64 a s = Some s' \<and> moved a0 n k s0 (a + 8, len - 8, s') \<and> unat (a + 8) = unat a + 8 \<and> unat (len - 8) = unat len - 8"
  using moved_access [of a0 n k s0 a len s 8 f64] f64 by simp

text \<open>The phases of the walk, with the alignment that each leaves behind.\<close>

lemma head16:
  assumes "moved a0 n k s0 r"
  shows "\<exists>r'. range_head aligned16 1 f8 r = Some r' \<and> moved a0 n k s0 r' \<and> (1 \<le> unat (fst (snd r')) \<longrightarrow> aligned16 (fst r'))"
proof (cases r)
  case (fields a len s)
  have "aligned16 (a + 1)" if "\<not> aligned16 a" "unat (a + 1) = unat a + 1" using that unfolding aligned_mod by presburger
  then show ?thesis using access8 [of a0 n k s0 a len s] assms fields
    by (auto simp: range_head_def word_le_nat_alt)
qed

lemma head32:
  assumes "moved a0 n k s0 r" "1 \<le> unat (fst (snd r)) \<longrightarrow> aligned16 (fst r)"
  shows "\<exists>r'. range_head aligned32 2 f16 r = Some r' \<and> moved a0 n k s0 r' \<and> (2 \<le> unat (fst (snd r')) \<longrightarrow> aligned32 (fst r'))"
proof (cases r)
  case (fields a len s)
  have "aligned32 (a + 2)" if "\<not> aligned32 a" "aligned16 a" "unat (a + 2) = unat a + 2" using that unfolding aligned_mod by presburger
  then show ?thesis using access16 [of a0 n k s0 a len s] assms fields
    by (auto simp: range_head_def word_le_nat_alt)
qed

lemma head64:
  assumes "moved a0 n k s0 r" "2 \<le> unat (fst (snd r)) \<longrightarrow> aligned32 (fst r)"
  shows "\<exists>r'. range_head aligned64 4 f32 r = Some r' \<and> moved a0 n k s0 r' \<and>
     (2 \<le> unat (fst (snd r')) \<longrightarrow> aligned32 (fst r')) \<and> (4 \<le> unat (fst (snd r')) \<longrightarrow> aligned64 (fst r'))"
proof (cases r)
  case (fields a len s)
  have "aligned64 (a + 4)" if "\<not> aligned64 a" "aligned32 a" "unat (a + 4) = unat a + 4" using that unfolding aligned_mod by presburger
  moreover have "aligned32 b" if "aligned64 b" for b using that unfolding aligned_mod by presburger
  ultimately show ?thesis using access32 [of a0 n k s0 a len s] assms fields
    by (auto simp: range_head_def word_le_nat_alt)
qed

lemma loop64:
  assumes "moved a0 n k s0 (a, len, s)" "aligned64 a"
  shows "\<exists>r'. range_loop f64 (a, len, s) = Some r' \<and> moved a0 n k s0 r' \<and> aligned64 (fst r') \<and> unat (fst (snd r')) < 8"
  using assms
proof (induction "unat len" arbitrary: a len s rule: less_induct)
  case less
  show ?case
  proof (cases "8 \<le> len")
    case True
    from access64 [OF less.prems(1) True] obtain s' where
      s': "f64 a s = Some s'" "moved a0 n k s0 (a + 8, len - 8, s')" "unat (a + 8) = unat a + 8" "unat (len - 8) = unat len - 8" by blast
    have "aligned64 (a + 8)" using less.prems(2) s'(3) unfolding aligned_mod by presburger
    moreover have "unat (len - 8) < unat len" using True s'(4) by (simp add: word_le_nat_alt)
    ultimately have "\<exists>r'. range_loop f64 (a + 8, len - 8, s') = Some r' \<and> moved a0 n k s0 r' \<and> aligned64 (fst r') \<and> unat (fst (snd r')) < 8"
      using less.hyps s'(2) by blast
    then show ?thesis using s'(1) True by (subst range_loop.simps) simp
  next
    case False
    then show ?thesis using less.prems by (subst range_loop.simps) (simp add: word_le_nat_alt)
  qed
qed

lemma mid64:
  assumes "moved a0 n k s0 r" "2 \<le> unat (fst (snd r)) \<longrightarrow> aligned32 (fst r)" "4 \<le> unat (fst (snd r)) \<longrightarrow> aligned64 (fst r)"
  shows "\<exists>r'. range_mid f64 r = Some r' \<and> moved a0 n k s0 r' \<and> (2 \<le> unat (fst (snd r')) \<longrightarrow> aligned32 (fst r')) \<and> unat (fst (snd r')) < 8"
proof (cases r)
  case (fields a len s)
  have "aligned32 b" if "aligned64 b" for b using that unfolding aligned_mod by presburger
  then show ?thesis using loop64 [of a0 n k s0 a len s] assms fields
    by (auto simp: range_mid_def word_le_nat_alt simp del: range_loop.simps)
qed

lemma tail32:
  assumes "moved a0 n k s0 r" "2 \<le> unat (fst (snd r)) \<longrightarrow> aligned32 (fst r)" "unat (fst (snd r)) < 8"
  shows "\<exists>r'. range_tail aligned32 4 f32 r = Some r' \<and> moved a0 n k s0 r' \<and> (2 \<le> unat (fst (snd r')) \<longrightarrow> aligned16 (fst r')) \<and> unat (fst (snd r')) < 4"
proof (cases r)
  case (fields a len s)
  have "aligned16 (a + 4)" if "aligned32 a" "unat (a + 4) = unat a + 4" using that unfolding aligned_mod by presburger
  moreover have "aligned16 b" if "aligned32 b" for b using that unfolding aligned_mod by presburger
  ultimately show ?thesis using access32 [of a0 n k s0 a len s] assms fields
    by (auto simp: range_tail_def word_le_nat_alt)
qed

lemma tail16:
  assumes "moved a0 n k s0 r" "2 \<le> unat (fst (snd r)) \<longrightarrow> aligned16 (fst r)" "unat (fst (snd r)) < 4"
  shows "\<exists>r'. range_tail aligned16 2 f16 r = Some r' \<and> moved a0 n k s0 r' \<and> unat (fst (snd r')) < 2"
  using access16 [of a0 n k s0 "fst r" "fst (snd r)" "snd (snd r)"] assms
  by (cases r) (auto simp: range_tail_def word_le_nat_alt)

lemma tail8:
  assumes "moved a0 n k s0 r" "unat (fst (snd r)) < 2"
  shows "\<exists>a s. range_tail (\<lambda>a. True) 1 f8 r = Some (a, 0, s) \<and> moved a0 n k s0 (a, 0, s)"
proof (cases r)
  case (fields a len s)
  show ?thesis
  proof (cases "1 \<le> len")
    case True
    with assms fields have "len = 1" by (auto simp: word_le_nat_alt word_unat_eq_iff)
    then show ?thesis using access8 [of a0 n k s0 a len s] assms fields by (auto simp: range_tail_def)
  next
    case False
    then have "len = 0" by (simp add: word_le_nat_alt word_unat_eq_iff)
    then show ?thesis using assms fields by (auto simp: range_tail_def)
  qed
qed

lemma phase:
  assumes "moved a0 n k s0 r" "\<exists>r'. x r = Some r' \<and> Q r'" "\<And>r'. Q r' \<Longrightarrow> finished a0 n k s0 (K r')"
  shows "finished a0 n k s0 (unless_done (\<lambda>r. do { r \<leftarrow> x r; K r }) r)"
  using assms by (intro unless_done_spec) auto

lemma range_general_spec:
  assumes "moved a0 n k s0 r" shows "finished a0 n k s0 (range_general f8 f16 f32 f64 r)"
  unfolding range_general_def
  apply (rule phase, rule assms, rule head16, rule assms, elim conjE)
  apply (rule phase, assumption, rule head32, assumption, assumption, elim conjE)
  apply (rule phase, assumption, rule head64, assumption, assumption, elim conjE)
  apply (rule phase, assumption, rule mid64, assumption, assumption, assumption, elim conjE)
  apply (rule phase, assumption, rule tail32, assumption, assumption, assumption, elim conjE)
  apply (rule phase, assumption, rule tail16, assumption, assumption, assumption, elim conjE)
  apply (rule unless_done_spec, assumption)
  subgoal for r1 r2 r3 r4 r5 r6 using tail8 [of a0 n k s0 r6] moved_done by auto
  done

lemma range_walk_spec:
  assumes "client_range a (unat len)" "ready a (unat len + k) s"
  shows "\<exists>s'. range_walk f8 f16 f32 f64 a len s = Some s' \<and> eff a (unat len) s s' \<and> ready (a + len) k s'"
  using range_general_spec [OF moved_start [OF assms]] f32 [of a k s] f64 [of a k s] assms
  by (auto simp: range_walk_def finished_def)

end

section \<open>Setting and copying ranges\<close>

lemma cl_bytes_same: "line_same cl cl' \<Longrightarrow> cl_ok cl \<Longrightarrow> cl_ok cl' \<and> cl_bytes cl' = cl_bytes cl"
  using length_cl_bytes by (auto simp: line_same_def cl_ok_def intro!: nth_equalityI)

lemma lineZ_val_zero: "k < 64 \<Longrightarrow> lineZ_val \<lparr>dict = v # ds, ix2s = replicate 16 0\<rparr> k = v"
  by (simp add: lineZ_val_def read_twobit_array_def drop_bit_eq_div nth_replicate less_mult_imp_div_less)

lemma word_of_unat: "of_nat (unat (x :: UWord)) = x"
  by simp

lemma mod_64_rest: "(x + b) mod 64 = 0 \<Longrightarrow> x mod 64 = 0 \<Longrightarrow> b < 64 \<Longrightarrow> b = (0 :: nat)"
  by (metis add_0 mod_add_left_eq mod_less)

lemma client_range_le: "client_range a n \<Longrightarrow> m \<le> n \<Longrightarrow> client_range a m"
  by (simp add: client_range_def)

context rc_client
begin

definition may_write :: "SVal \<Rightarrow> Addr \<Rightarrow> nat \<Rightarrow> 'u zsm \<Rightarrow> bool" where
  "may_write v b k z \<longleftrightarrow> zsm_inv z \<and> known (zsm_user z) v \<and> v \<noteq> SVal_INVALID"

lemma wrote_may_write: "may_write v b k z \<Longrightarrow> wrote a n v z z' \<Longrightarrow> may_write v c j z'"
  using kept_known by (auto simp: may_write_def wrote_def)

end

sublocale rc_client \<subseteq> setter: range_acc "may_write v" "\<lambda>a n. wrote a n v"
  "\<lambda>a. zsm_write8 a v" "\<lambda>a. zsm_write16 a v" "\<lambda>a. zsm_write32 a v" "\<lambda>a. zsm_write64 a v" for v
proof unfold_locales
  fix k a s
  show "may_write v a k s \<Longrightarrow> wrote a 0 v s s" using wrote_0 by (simp add: may_write_def)
next
  fix a m n s s1 s2
  show "client_range a (m + n) \<Longrightarrow> wrote a m v s s1 \<Longrightarrow> wrote (a + of_nat m) n v s1 s2 \<Longrightarrow> wrote a (m + n) v s s2"
    by (rule wrote_split)
next
  fix k s a
  assume r: "may_write v a (1 + k) s" "client_range a 1"
  with write8_spec [of s a v] obtain s' where "zsm_write8 a v s = Some s'" "wrote a 1 v s s'" by (auto simp: may_write_def)
  with wrote_may_write [OF r(1)] show "\<exists>s'. zsm_write8 a v s = Some s' \<and> wrote a 1 v s s' \<and> may_write v (a + 1) k s'" by blast
next
  fix k s a
  assume r: "may_write v a (2 + k) s" "client_range a 2"
  with write16_spec [of s a v] obtain s' where "zsm_write16 a v s = Some s'" "wrote a 2 v s s'" by (auto simp: may_write_def)
  with wrote_may_write [OF r(1)] show "\<exists>s'. zsm_write16 a v s = Some s' \<and> wrote a 2 v s s' \<and> may_write v (a + 2) k s'" by blast
next
  fix k s a
  assume r: "may_write v a (4 + k) s" "client_range a 4"
  with write32_spec [of s a v] obtain s' where "zsm_write32 a v s = Some s'" "wrote a 4 v s s'" by (auto simp: may_write_def)
  with wrote_may_write [OF r(1)] show "\<exists>s'. zsm_write32 a v s = Some s' \<and> wrote a 4 v s s' \<and> may_write v (a + 4) k s'" by blast
next
  fix k s a
  assume r: "may_write v a (8 + k) s" "client_range a 8"
  with write64_spec [of s a v] obtain s' where "zsm_write64 a v s = Some s'" "wrote a 8 v s s'" by (auto simp: may_write_def)
  with wrote_may_write [OF r(1)] show "\<exists>s'. zsm_write64 a v s = Some s' \<and> wrote a 8 v s s' \<and> may_write v (a + 8) k s'" by blast
qed

context rc_client
begin

lemma set_range_SMALL_spec:
  assumes "zsm_inv z" "client_range a (unat len)" "known (zsm_user z) v" "v \<noteq> SVal_INVALID"
  shows "\<exists>z'. zsm_set_range_SMALL a len v z = Some z' \<and> wrote a (unat len) v z z'"
  using setter.range_walk_spec [where v = v and k = 0 and s = z and a = a and len = len] assms
  by (auto simp: zsm_set_range_SMALL_def may_write_def)

lemma read8_spec:
  assumes z: "zsm_inv z" and a: "client_range a 1"
  shows "\<exists>z'. zsm_read8 a z = Some (shadow z a, z') \<and> zsm_inv z' \<and> kept (zsm_user z) (zsm_user z') \<and> shadow z' = shadow z"
proof -
  have a47: "a < 2 ^ 47" using client_range_addr [OF a] by simp
  from get_cacheline_spec [OF z a47] obtain z1 where
    1: "get_cacheline a z = Some (cache_wix a, z1)" "zsm_inv z1" "kept (zsm_user z) (zsm_user z1)"
      "tags0 z1 ! cache_wix a = cache_tag a" "shadow z1 = shadow z" by blast
  let ?cl = "lyns0 z1 ! cache_wix a"
  have w: "cl_ok ?cl" "\<forall>b\<in>set (cl_bytes ?cl). known (zsm_user z1) b"
    using zsm_invD(4) [OF 1(2) cache_wix_less, of a] 1(4) cache_tag_ok(2) [of a] by (auto simp: way_ok_def)
  from line_split8_spec [OF w(1), of a] obtain cl' where
    cl': "line_split8 a ?cl = Some cl'" "line_same ?cl cl'" "node_at cl' (get_cacheline_offset a) 1" by blast
  have same: "cl_ok cl'" "cl_bytes cl' = cl_bytes ?cl" using cl_bytes_same [OF cl'(2) w(1)] by auto
  have ac: "acc (zsm_user z1) (refs {} z1)" using zsm_invD(1) [OF 1(2)] by (simp add: counted_def)
  have kn: "\<forall>v\<in>set (cl_bytes cl'). known (zsm_user z1) v" using w(2) same by simp
  note P = put_line_spec [OF 1(2,4) a47 same(1) kept_known [OF kept_refl] ac kn]
  let ?z = "z1\<lparr>zsm_user := zsm_user z1, lyns0 := (lyns0 z1)[cache_wix a := cl']\<rparr>"
  have sh: "shadow z1 x = cl_bytes ?cl ! get_cacheline_offset x" if "cache_tag x = cache_tag a" for x
    using that 1(4) cache_wix_tag [of x] cache_wix_tag [of a] by (simp add: shadow_def)
  have "shadow ?z x = shadow z x" for x using P(3) [of x] same(2) sh 1(5) by (simp split: if_splits)
  moreover have "svals cl' ! get_cacheline_offset a = shadow z a"
    using node_at_bytes(1) [OF same(1) offset_less cl'(3), of "get_cacheline_offset a"] same(2) sh [of a] 1(5) by simp
  ultimately show ?thesis using 1(1,3) cl'(1) P(1) by (intro exI [of _ ?z]) (auto simp: zsm_read8_def fun_eq_iff)
qed

lemma copy8_spec:
  assumes "zsm_inv z" "client_range src 1" "client_range dst 1"
  shows "\<exists>z'. zsm_copy8 src dst z = Some z' \<and> wrote dst 1 (shadow z src) z z'"
proof -
  from read8_spec [OF assms(1,2)] obtain z1 where
    1: "zsm_read8 src z = Some (shadow z src, z1)" "zsm_inv z1" "kept (zsm_user z) (zsm_user z1)" "shadow z1 = shadow z" by blast
  have "known (zsm_user z1) (shadow z src)" "shadow z src \<noteq> SVal_INVALID"
    using kept_known [OF 1(3)] shadow_known [OF assms(1)] by blast+
  from write8_spec [OF 1(2) assms(3) this] obtain z2 where
    "zsm_write8 dst (shadow z src) z1 = Some z2" "wrote dst 1 (shadow z src) z1 z2" by blast
  with 1 kept_trans show ?thesis by (auto simp: zsm_copy8_def wrote_def)
qed

text \<open>The state after copying the first \<open>n\<close> bytes.\<close>

definition copied :: "Addr \<Rightarrow> Addr \<Rightarrow> nat \<Rightarrow> 'u zsm \<Rightarrow> 'u zsm \<Rightarrow> bool" where
  "copied src dst n z z' \<longleftrightarrow> zsm_inv z' \<and> kept (zsm_user z) (zsm_user z') \<and>
     (\<forall>x. shadow z' x = (if in_range dst n x then shadow z (src + (x - dst)) else shadow z x))"

lemma copy_loop_append: "copy_loop (xs @ ys) src dst z = Option.bind (copy_loop xs src dst z) (copy_loop ys src dst)"
  by (induction xs arbitrary: z) (auto split: bind_splits)

lemma copy_loop_spec:
  assumes "zsm_inv z" "client_range src n" "client_range dst n"
    and disj: "unat src + n \<le> unat dst \<or> unat dst + n \<le> unat src"
    and "k \<le> n"
  shows "\<exists>z'. copy_loop [0..<k] src dst z = Some z' \<and> copied src dst k z z'"
  using assms(5)
proof (induction k)
  case 0
  then show ?case using assms(1) kept_refl by (simp add: copied_def)
next
  case (Suc k)
  then obtain z1 where 1: "copy_loop [0..<k] src dst z = Some z1" "copied src dst k z z1" by auto
  have c: "client_range src (k + 1)" "client_range dst (k + 1)"
    using client_range_le [OF assms(2), of "k + 1"] client_range_le [OF assms(3), of "k + 1"] Suc.prems by auto
  note S = client_range_split [OF c(1)] and D = client_range_split [OF c(2)]
  have "zsm_inv z1" using 1(2) by (simp add: copied_def)
  from copy8_spec [OF this S(2) D(2)] obtain z2 where
    2: "zsm_copy8 (src + of_nat k) (dst + of_nat k) z1 = Some z2"
      "wrote (dst + of_nat k) 1 (shadow z1 (src + of_nat k)) z1 z2" by blast
  have "\<not> in_range dst k (src + of_nat k)"
    using in_range_iff [of dst k "src + of_nat k"] D(4) S(3) disj Suc.prems by auto
  then have v: "shadow z1 (src + of_nat k) = shadow z (src + of_nat k)" using 1(2) by (simp add: copied_def)
  have sp: "in_range dst (Suc k) x \<longleftrightarrow> in_range dst k x \<or> in_range (dst + of_nat k) 1 x" for x
    using in_range_split [OF D(4), of x] by simp
  have one: "in_range (dst + of_nat k) 1 x \<Longrightarrow> x - dst = of_nat k" for x by (simp add: in_range_def unat_eq_0 diff_diff_eq [symmetric])
  have "shadow z2 x = (if in_range dst (Suc k) x then shadow z (src + (x - dst)) else shadow z x)" for x
  proof (cases "in_range (dst + of_nat k) 1 x")
    case True
    then show ?thesis using 2(2) v sp [of x] one [of x] by (simp add: wrote_def)
  next
    case False
    then show ?thesis using 2(2) 1(2) sp [of x] by (simp add: wrote_def copied_def)
  qed
  then have "copied src dst (Suc k) z z2" using 1(2) 2(2) kept_trans by (auto simp: copied_def wrote_def)
  then show ?case using 1(1) 2(1) by (auto simp: copy_loop_append)
qed

lemma copy_range_spec:
  assumes "zsm_inv z" "client_range src (unat len)" "client_range dst (unat len)"
    and disj: "unat src + unat len \<le> unat dst \<or> unat dst + unat len \<le> unat src"
  shows "\<exists>z'. zsm_copy_range src dst len z = Some z' \<and> copied src dst (unat len) z z'"
proof -
  have "unat (a + len) = unat a + unat len" if "client_range a (unat len)" for a
    using unat_add_no_wrap [of a "unat len"] that by (simp add: client_range_def)
  then have "src + len \<le> dst \<or> dst + len \<le> src" using assms by (auto simp: word_le_nat_alt)
  then show ?thesis using copy_loop_spec [OF assms order_refl] assms(1) kept_refl
    by (auto simp: zsm_copy_range_def copied_def)
qed

lemma fold_write64:
  assumes "may_write v a 0 z" "client_range a (8 * n)" "k \<le> n"
  shows "\<exists>z'. fold (\<lambda>i r. Option.bind r (zsm_write64 (a + of_nat i * 8) v)) [0..<k] (Some z) = Some z' \<and> wrote a (8 * k) v z z'"
  using assms(3)
proof (induction k)
  case 0
  then show ?case using assms(1) wrote_0 by (simp add: may_write_def)
next
  case (Suc k)
  then obtain z1 where 1: "fold (\<lambda>i r. Option.bind r (zsm_write64 (a + of_nat i * 8) v)) [0..<k] (Some z) = Some z1"
    "wrote a (8 * k) v z z1" by auto
  have c: "client_range a (8 * k + 8)" using client_range_le [OF assms(2)] Suc.prems by simp
  note C = client_range_split [OF c]
  have m: "may_write v a 0 z1" using wrote_may_write [OF assms(1) 1(2)] .
  then obtain z2 where 2: "zsm_write64 (a + of_nat (8 * k)) v z1 = Some z2" "wrote (a + of_nat (8 * k)) 8 v z1 z2"
    using write64_spec [of z1 "a + of_nat (8 * k)" v] C(2) by (auto simp: may_write_def)
  have "wrote a (8 * Suc k) v z z2" using wrote_split [OF c 1(2) 2(2)] by (simp add: add.commute)
  then show ?case using 1(1) 2(1) by (simp add: mult.commute)
qed

lemma whole_line: "get_cacheline_offset a = 0 \<Longrightarrow> cache_tag a = a"
  using tag_offset [of a] by (simp add: word_unat_eq_iff)

text \<open>Replacing the stored form of a line that is not in the cache.\<close>

lemma set_stored_line:
  assumes z: "zsm_inv z" and a: "get_cacheline_offset a = 0" "client_range a 64"
    and v: "known (zsm_user z) v" "v \<noteq> SVal_INVALID" and miss: "tags0 z ! cache_wix a \<noteq> cache_tag a"
  shows "\<exists>z'. set_line a v z = Some z' \<and> wrote a 64 v z z'"
proof -
  let ?x = "zix_of (cache_tag a)"
  let ?lz = "\<lparr>dict = [v, SVal_INVALID, SVal_INVALID, SVal_INVALID], ix2s = replicate 16 0\<rparr>"
  have tag: "tag_ok (cache_tag a)" "is_valid_scache_tag (cache_tag a)" using cache_tag_ok(3) client_range_addr [OF a(2)] by (simp_all add: tag_ok_def)
  from find_Z_for_writing_spec [OF zsm_invD(1) [OF z] tag(1)] obtain s z1 where
    1: "find_Z_for_writing (cache_tag a) z = Some ((s, ?x), z1)" "counted {(s, ?x)} z1" "frame z z1" "kept (zsm_user z) (zsm_user z1)"
    "sm_at z1 (shmem__round_to_SecMap_base (cache_tag a)) = Some s" "(s, ?x) \<in> lines_of z1"
    "\<forall>t. is_valid_scache_tag t \<and> t \<noteq> cache_tag a \<longrightarrow> store_line z1 t = store_line z t" by blast
  have s: "s < length (secmaps z1)" using 1(6) by (simp add: lines_of_def)
  have "{x. (s, x) \<in> {(s, ?x)}} = {?x}" by auto
  then have sm: "secmap_ok {?x} (secmaps z1 ! s)" using 1(2) s unfolding counted_def store_ok_def by metis
  have val: "lineZ_val ?lz k = v" if "k < 64" for k using that by (simp add: lineZ_val_zero)
  have lz: "lineZ_ok 64 ?lz" "\<not> isF ?lz" using val v(2) by (simp_all add: lineZ_ok_def isF_def)
  let ?sm = "put_lineZ ?x ?lz (secmaps z1 ! s)"
  note C = close_Z [OF sm zix_less lz]
  have r: "zline_refs ?sm (linesZ ?sm ! ?x) = LineZ_svals ?lz" "zline_vals ?sm (linesZ ?sm ! ?x) = replicate 64 v"
    using C(3) lz(2) val by (simp_all add: zline_refs_def zline_vals_def list_eq_iff_nth_eq)
  have "\<forall>w\<in>set (LineZ_svals ?lz). known (zsm_user z1) w" "length (LineZ_svals ?lz) \<le> 64"
    using v kept_known [OF 1(4)] by (auto simp: LineZ_svals_def)
  from close_line [OF 1(2,6,5) refl tag(2) C(1,2) r(1) this] r(2) obtain z2 where
    2: "rc_apply inc (LineZ_svals ?lz) (put_SecMap s ?sm z1) = Some z2" "counted {} z2" "frame z1 z2" "kept (zsm_user z1) (zsm_user z2)"
      "store_line z2 (cache_tag a) = replicate 64 v"
      "\<forall>t. is_valid_scache_tag t \<and> t \<noteq> cache_tag a \<longrightarrow> store_line z2 t = store_line z1 t" by auto
  have fr: "frame z z2" and kp: "kept (zsm_user z) (zsm_user z2)" using frame_trans [OF 1(3) 2(3)] kept_trans [OF 1(4) 2(4)] .
  have eq: "tags0 z2 = tags0 z" "lyns0 z2 = lyns0 z" using fr by (simp_all add: frame_def)
  have "zsm_inv z2" using 2(2) zsm_invD [OF z] way_ok_frame [OF _ fr kp] eq by (simp add: zsm_inv_def)
  moreover have "shadow z2 x = (if in_range a 64 x then v else shadow z x)" for x
  proof (cases "cache_tag x = cache_tag a")
    case True
    then have "cache_wix x = cache_wix a" using cache_wix_tag [of x] cache_wix_tag [of a] by simp
    then show ?thesis using True miss eq 2(5) offset_less [of x] in_range_line [of a 64 x] a(1) by (simp add: shadow_def)
  next
    case False
    then show ?thesis using eq 1(7) 2(6) cache_tag_ok(1) [of x] in_range_line [of a 64 x] a(1) by (simp add: shadow_def)
  qed
  ultimately have "wrote a 64 v z z2" using kp by (simp add: wrote_def)
  moreover have "set_line a v z = Some z2"
    using miss a(1) v(2) 1(1) s 2(1) 1(2) zix_less [of "cache_tag a"]
    by (simp add: set_line_def Let_def rcinc_LineZ_def counted_def linked_def N_SECMAP_ZLINES_def) (simp add: put_SecMap_def)
  ultimately show ?thesis by blast
qed

lemma set_line_spec:
  assumes z: "zsm_inv z" and a: "get_cacheline_offset a = 0" "client_range a 64"
    and v: "known (zsm_user z) v" "v \<noteq> SVal_INVALID"
  shows "\<exists>z'. set_line a v z = Some z' \<and> wrote a 64 v z z'"
proof (cases "tags0 z ! cache_wix a = cache_tag a")
  case True
  from fold_write64 [of v a z 8 8] z a v obtain z' where
    "fold (\<lambda>i r. Option.bind r (zsm_write64 (a + of_nat i * 8) v)) [0..<8] (Some z) = Some z'" "wrote a 64 v z z'"
    by (auto simp: may_write_def)
  with True a(1) show ?thesis by (simp add: set_line_def Let_def N_LINE_TREES_def del: upt_rec)
qed (use set_stored_line assms in blast)

text \<open>The loop over whole lines ends, having set each of them.\<close>

lemma set_lines_spec:
  assumes "zsm_inv z" "client_range a (64 * n)" "get_cacheline_offset a = 0" "known (zsm_user z) v" "v \<noteq> SVal_INVALID"
  shows "\<exists>z'. set_lines a (a + of_nat (64 * n)) (of_nat (64 * n)) v z = Some (a + of_nat (64 * n), 0, z') \<and> wrote a (64 * n) v z z'"
  using assms
proof (induction n arbitrary: a z)
  case 0
  then show ?case using wrote_0 by (subst set_lines.simps) simp
next
  case (Suc n)
  have c: "client_range a (64 + 64 * n)" using Suc.prems(2) by simp
  note C = client_range_split [OF c]
  from set_line_spec [OF Suc.prems(1,3) C(1) Suc.prems(4,5)] obtain z1 where
    1: "set_line a v z = Some z1" "wrote a 64 v z z1" by blast
  have "zsm_inv z1" "known (zsm_user z1) v" using 1(2) Suc.prems(4) kept_known by (auto simp: wrote_def)
  moreover have off: "get_cacheline_offset (a + 64) = 0" using Suc.prems(3) C(3) by (simp add: offset_mod)
  moreover have c2: "client_range (a + 64) (64 * n)" using C(2) by simp
  ultimately obtain z2 where 2: "set_lines (a + 64) (a + 64 + of_nat (64 * n)) (of_nat (64 * n)) v z1 = Some (a + 64 + of_nat (64 * n), 0, z2)"
    "wrote (a + 64) (64 * n) v z1 z2" using Suc.IH [OF _ c2 off _ Suc.prems(5)] by blast
  have lt: "\<not> a + of_nat (64 * Suc n) \<le> a"
    using unat_add_no_wrap [of a "64 * Suc n"] Suc.prems(2) by (simp add: word_le_nat_alt client_range_def)
  have eq: "a + of_nat (64 * Suc n) = a + 64 + of_nat (64 * n)" "of_nat (64 * Suc n) - 64 = (of_nat (64 * n) :: UWord)" by simp_all
  have "set_lines a (a + of_nat (64 * Suc n)) (of_nat (64 * Suc n)) v z = Some (a + of_nat (64 * Suc n), 0, z2)"
    using lt 1(1) 2(1) unfolding eq(1) by (subst set_lines.simps) (simp add: N_LINE_ARANGE_def)
  moreover have "wrote a (64 * Suc n) v z z2" using wrote_split [OF c 1(2)] 2(2) by simp
  ultimately show ?case by blast
qed

end

text \<open>Rounding to line boundaries.\<close>

lemma round_down: "unat (cacheline_ROUNDDN a) = 64 * (unat a div 64)"
  using cache_tag_div [of a] by (simp add: cacheline_ROUNDDN_def cache_tag_def)

lemma round_up: "unat a + 63 < 2 ^ 64 \<Longrightarrow> unat (cacheline_ROUNDUP a) = 64 * ((unat a + 63) div 64)"
  using round_down [of "a + of_nat 63"] unat_add_no_wrap [of a 63]
  by (simp add: cacheline_ROUNDUP_def cacheline_ROUNDDN_def N_LINE_ARANGE_def add.commute)

text \<open>The three parts of a large range.\<close>

lemma range_parts:
  assumes "client_range a (unat len)" "128 \<le> unat len"
  shows "\<exists>b n c. unat len = b + (64 * n + c) \<and> b < 64 \<and> c < 64 \<and> cacheline_ROUNDUP a = a + of_nat b \<and>
     cacheline_ROUNDDN (a + len) = a + of_nat b + of_nat (64 * n) \<and> (unat a + b) mod 64 = 0"
proof -
  define U D where "U = 64 * ((unat a + 63) div 64)" and "D = 64 * ((unat a + unat len) div 64)"
  have l: "unat (a + len) = unat a + unat len" using unat_add_no_wrap [of a "unat len"] assms(1) by (simp add: client_range_def)
  have u: "unat (cacheline_ROUNDUP a) = U" "unat (cacheline_ROUNDDN (a + len)) = D"
    using round_up [of a] round_down [of "a + len"] l assms(1) by (simp_all add: U_def D_def client_range_def)
  have U: "unat a \<le> U" "U < unat a + 64" and D: "D \<le> unat a + unat len" "unat a + unat len < D + 64"
    using mult_div_mod_eq [of 64 "unat a + 63"] mod_less_divisor [of 64 "unat a + 63"]
      mult_div_mod_eq [of 64 "unat a + unat len"] mod_less_divisor [of 64 "unat a + unat len"]
    unfolding U_def [symmetric] D_def [symmetric] by linarith+
  have "(unat a + 63) div 64 \<le> (unat a + unat len) div 64" using assms(2) by (intro div_le_mono) simp
  then obtain n where n: "D = U + 64 * n" unfolding U_def D_def by (metis le_Suc_ex add_mult_distrib2)
  define b c where "b = U - unat a" and "c = unat a + unat len - D"
  have bc: "U = unat a + b" "unat a + unat len = D + c" "b < 64" "c < 64" using U D by (simp_all add: b_def c_def)
  have "cacheline_ROUNDUP a = of_nat U" "cacheline_ROUNDDN (a + len) = of_nat D" using u by (metis word_of_unat)+
  then have "cacheline_ROUNDUP a = a + of_nat b" "cacheline_ROUNDDN (a + len) = a + of_nat b + of_nat (64 * n)"
    using bc(1) n by simp_all
  moreover have "(unat a + b) mod 64 = 0" unfolding bc(1) [symmetric] U_def by simp
  moreover have "unat len = b + (64 * n + c)" using bc n by linarith
  ultimately show ?thesis using bc by (intro exI [of _ b] exI [of _ n] exI [of _ c]) simp
qed

context rc_client
begin

lemma wrote_swap:
  assumes cr: "client_range a (m + n)" and 1: "wrote (a + of_nat m) n v z z1" and 2: "wrote a m v z1 z2"
  shows "wrote a (m + n) v z z2"
  using assms in_range_split [OF client_range_split(4) [OF cr]] kept_trans by (auto simp: wrote_def)

lemma set_range_spec:
  assumes z: "zsm_inv z" and c: "client_range a (unat len)" and v: "known (zsm_user z) v" "v \<noteq> SVal_INVALID"
  shows "\<exists>z'. zsm_set_range a len v z = Some z' \<and> wrote a (unat len) v z z'"
proof (cases "len < 128")
  case True
  then show ?thesis using set_range_SMALL_spec [OF z c v] v by (simp add: zsm_set_range_def N_LINE_ARANGE_def)
next
  case False
  then have "128 \<le> unat len" by (simp add: word_less_nat_alt)
  from range_parts [OF c this] obtain b n r where
    p: "unat len = b + (64 * n + r)" "b < 64" "r < 64" "cacheline_ROUNDUP a = a + of_nat b"
      "cacheline_ROUNDDN (a + len) = a + of_nat b + of_nat (64 * n)" "(unat a + b) mod 64 = 0" by (elim exE conjE) (rule that; assumption)
  have cr: "client_range a (b + (64 * n + r))" using c p(1) by simp
  note B = client_range_split [OF cr]
  note M = client_range_split [OF B(2)]
  let ?s = "a + of_nat b" and ?e = "a + of_nat b + of_nat (64 * n)"
  have bl: "unat (of_nat b :: UWord) = b" "unat (of_nat r :: UWord) = r" using p(2,3) by (simp_all add: unsigned_of_nat take_bit_nat_eq_self)
  have small: "\<exists>z'. (if (of_nat k :: UWord) > 0 then zsm_set_range_SMALL x (of_nat k) v y else Some y) = Some z' \<and> wrote x k v y z'"
    if "zsm_inv y" "known (zsm_user y) v" "client_range x k" "k < 64" for x y k
  proof -
    have k: "unat (of_nat k :: UWord) = k" using that(4) by (simp add: unsigned_of_nat take_bit_nat_eq_self)
    show ?thesis
    proof (cases "k = 0")
      case False
      then have "(of_nat k :: UWord) > 0" using k by (simp add: word_less_nat_alt)
      then show ?thesis using set_range_SMALL_spec [OF that(1) _ that(2) v(2), of x "of_nat k"] that(3) k by simp
    qed (use that wrote_0 in simp)
  qed
  from small [OF z v(1) B(1) p(2)] obtain z1 where 1: "(if (of_nat b :: UWord) > 0 then zsm_set_range_SMALL a (of_nat b) v z else Some z) = Some z1"
    "wrote a b v z z1" by blast
  have k1: "zsm_inv z1" "known (zsm_user z1) v" using 1(2) v(1) kept_known by (auto simp: wrote_def)
  from small [OF k1 M(2) p(3)] obtain z2 where 2: "(if (of_nat r :: UWord) > 0 then zsm_set_range_SMALL ?e (of_nat r) v z1 else Some z1) = Some z2"
    "wrote ?e r v z1 z2" by blast
  have k2: "zsm_inv z2" "known (zsm_user z2) v" using 2(2) k1(2) kept_known by (auto simp: wrote_def)
  have off: "get_cacheline_offset ?s = 0" using B(3) p(6) by (simp add: offset_mod)
  from set_lines_spec [OF k2(1) M(1) off k2(2) v(2)] obtain z3 where
    3: "set_lines ?s ?e (of_nat (64 * n)) v z2 = Some (?e, 0, z3)" "wrote ?s (64 * n) v z2 z3" by blast
  have "wrote a (unat len) v z z3"
    unfolding p(1) using wrote_split [OF cr 1(2) wrote_swap [OF B(2) 2(2) 3(2)]] .
  moreover have "zsm_set_range a len v z = Some z3"
  proof -
    have al: "a + len = ?e + of_nat r" using word_of_unat [of len] unfolding p(1) by simp
    have le: "a \<le> ?s" "?s \<le> ?e" using B(3) M(3) by (simp_all add: word_le_nat_alt)
    have lt: "(of_nat b :: UWord) < 64" "(of_nat r :: UWord) < 64" using bl p(2,3) by (simp_all add: word_less_nat_alt)
    have b0: "get_cacheline_offset a = 0 \<longrightarrow> (of_nat b :: UWord) = 0"
      using mod_64_rest [OF p(6) _ p(2)] by (auto simp: offset_mod)
    have "unat (a + len) = unat ?s + 64 * n + r" unfolding al using B(3) M(3) unat_add_no_wrap [of ?e r] cr by (simp add: client_range_def)
    moreover have "unat ?s mod 64 = 0" using off by (simp add: offset_mod)
    ultimately have r0: "get_cacheline_offset (a + len) = 0 \<longrightarrow> (of_nat r :: UWord) = 0"
      using mod_64_rest [of "unat ?s + 64 * n" r] p(3) by (auto simp: offset_mod)
    show ?thesis using False v(2) le lt off b0 r0 1(1) 2(1) 3(1)
      unfolding zsm_set_range_def p(4) al p(5) [unfolded al] by (simp add: N_LINE_ARANGE_def Let_def cong: if_cong split del: if_split)
  qed
  ultimately show ?thesis by blast
qed

end

end
