(* ===== verification/ZsmApply.thy ===== *)
theory ZsmApply
  imports ZsmAccess
begin

text \<open>
  Correctness of applying the memory state machine to ranges of addresses.  The contract of the state
  machine is the locale \<open>msm_client\<close>: an abstract value for every shadow value, the step that one access
  makes on it and whether the access is a race.  In it, a range access is shown to make that step on
  every byte of the range and on no other, and to report exactly the racing bytes.
\<close>

section \<open>The contract of the state machine\<close>

text \<open>
  \<open>val u v\<close> is the abstract value of \<open>v\<close> in the owner's state \<open>u\<close>, \<open>fit\<close> the values that can be accessed.
  An access uses up room in the owner's state: \<open>room n u\<close> says that \<open>n\<close> accesses are possible.
\<close>

locale msm_client = rc_client inc dec known acc kept
  for inc dec :: "SVal \<Rightarrow> 'u \<Rightarrow> 'u option" and known acc kept +
  fixes msm :: "'u msm" and p :: Thr_ptr and isW :: bool
    and later :: "'u \<Rightarrow> 'u \<Rightarrow> bool" and room :: "nat \<Rightarrow> 'u \<Rightarrow> bool"
    and val :: "'u \<Rightarrow> SVal \<Rightarrow> 'c" and step :: "'c \<Rightarrow> 'c" and racy fit :: "'c \<Rightarrow> bool"
  assumes later_trans: "later u u1 \<Longrightarrow> later u1 u2 \<Longrightarrow> later u u2"
    and kept_later: "kept u u' \<Longrightarrow> later u u'"
    and later_known: "later u u' \<Longrightarrow> known u v \<Longrightarrow> known u' v"
    and later_val: "later u u' \<Longrightarrow> known u v \<Longrightarrow> val u' v = val u v"
    and kept_room: "kept u u' \<Longrightarrow> room k u \<Longrightarrow> room k u'"
    and room_less: "room (m + k) u \<Longrightarrow> room k u"
    and msm_total: "acc u M \<Longrightarrow> known u v \<Longrightarrow> v \<noteq> SVal_INVALID \<Longrightarrow> fit (val u v) \<Longrightarrow> room (Suc k) u \<Longrightarrow>
      \<exists>v' ev u'. msm v a n u = Some (v', ev, u') \<and> v' \<noteq> SVal_INVALID \<and> known u' v' \<and> acc u' M \<and> later u u' \<and> room k u' \<and>
        val u' v' = step (val u v) \<and> filter is_race ev = (if racy (val u v) then [RecordRace p a n isW] else [])"
begin

text \<open>The bytes that a list of events reports.\<close>

definition flagged :: "hb_event list \<Rightarrow> Addr \<Rightarrow> bool" where
  "flagged evs x \<longleftrightarrow> (\<exists>e\<in>set (filter is_race evs). in_range (ev_addr e) (ev_szB e) x)"

definition applied :: "Addr \<Rightarrow> nat \<Rightarrow> 'u logged \<Rightarrow> 'u logged \<Rightarrow> bool" where
  "applied a n l l' \<longleftrightarrow>
     (case l of (evs, z) \<Rightarrow> case l' of (evs', z') \<Rightarrow>
        zsm_inv z' \<and> later (zsm_user z) (zsm_user z') \<and> (\<forall>k. room (n + k) (zsm_user z) \<longrightarrow> room k (zsm_user z')) \<and>
        (\<forall>x. if in_range a n x
             then val (zsm_user z') (shadow z' x) = step (val (zsm_user z) (shadow z x))
             else shadow z' x = shadow z x) \<and>
        (\<forall>x. flagged evs' x \<longleftrightarrow> flagged evs x \<or> in_range a n x \<and> racy (val (zsm_user z) (shadow z x))) \<and>
        (\<forall>e\<in>set (filter is_race evs'). e \<in> set evs \<or> ev_thr e = p \<and> ev_isW e = isW))"

definition may_apply :: "Addr \<Rightarrow> nat \<Rightarrow> 'u logged \<Rightarrow> bool" where
  "may_apply a k l \<longleftrightarrow>
     (case l of (evs, z) \<Rightarrow> zsm_inv z \<and> room k (zsm_user z) \<and> client_range a k \<and>
        (\<forall>x. in_range a k x \<longrightarrow> fit (val (zsm_user z) (shadow z x))))"

lemma later_refl: "later u u"
  using kept_later kept_refl by blast

lemma applied_0: "may_apply a k l \<Longrightarrow> applied a 0 l l"
  by (auto simp: applied_def may_apply_def later_refl)

lemma applied_split:
  assumes cr: "client_range a (m + n)" and inv: "zsm_inv (snd l)" and 1: "applied a m l l1" and 2: "applied (a + of_nat m) n l1 l2"
  shows "applied a (m + n) l l2"
proof (cases l; cases l1; cases l2)
  fix evs z evs1 z1 evs2 z2
  assume l: "l = (evs, z)" "l1 = (evs1, z1)" "l2 = (evs2, z2)"
  let ?b = "a + of_nat m"
  note sp = in_range_split [OF client_range_split(4) [OF cr]] and dj = in_range_disjoint [OF client_range_split(4) [OF cr]]
  have k: "zsm_inv z" "zsm_inv z1" using inv 1 l by (simp_all add: applied_def)
  have lt: "later (zsm_user z) (zsm_user z1)" "later (zsm_user z1) (zsm_user z2)" using 1 2 l by (simp_all add: applied_def)
  have v1: "val (zsm_user z1) (shadow z x) = val (zsm_user z) (shadow z x)" for x
    using later_val [OF lt(1)] shadow_known(1) [OF k(1)] by blast
  have v2: "val (zsm_user z2) (shadow z1 x) = val (zsm_user z1) (shadow z1 x)" for x
    using later_val [OF lt(2)] shadow_known(1) [OF k(2)] by blast
  have s1: "if in_range a m x then val (zsm_user z1) (shadow z1 x) = step (val (zsm_user z) (shadow z x)) else shadow z1 x = shadow z x" for x
    using 1 l by (simp add: applied_def)
  have s2: "if in_range ?b n x then val (zsm_user z2) (shadow z2 x) = step (val (zsm_user z1) (shadow z1 x)) else shadow z2 x = shadow z1 x" for x
    using 2 l by (simp add: applied_def)
  have f1: "flagged evs1 x \<longleftrightarrow> flagged evs x \<or> in_range a m x \<and> racy (val (zsm_user z) (shadow z x))" for x
    using 1 l by (simp add: applied_def)
  have f2: "flagged evs2 x \<longleftrightarrow> flagged evs1 x \<or> in_range ?b n x \<and> racy (val (zsm_user z1) (shadow z1 x))" for x
    using 2 l by (simp add: applied_def)
  have rm: "room (m + n + k) (zsm_user z) \<longrightarrow> room k (zsm_user z2)" for k
    using 1 2 l by (simp add: applied_def add.assoc)
  have e1: "\<forall>e\<in>set (filter is_race evs1). e \<in> set evs \<or> ev_thr e = p \<and> ev_isW e = isW"
    using 1 l by (simp add: applied_def)
  have e2: "\<forall>e\<in>set (filter is_race evs2). e \<in> set evs1 \<or> ev_thr e = p \<and> ev_isW e = isW"
    using 2 l by (simp add: applied_def)
  have "if in_range a (m + n) x then val (zsm_user z2) (shadow z2 x) = step (val (zsm_user z) (shadow z x)) else shadow z2 x = shadow z x" for x
  proof (cases "in_range a m x")
    case True
    then have "shadow z2 x = shadow z1 x" "val (zsm_user z1) (shadow z1 x) = step (val (zsm_user z) (shadow z x))"
      using s1 [of x] s2 [of x] dj [of x] by simp_all
    then show ?thesis using v2 [of x] sp [of x] True by simp
  next
    case False
    then have eq: "shadow z1 x = shadow z x" using s1 [of x] by simp
    show ?thesis using s2 [of x] sp [of x] False v1 [of x] unfolding eq by simp
  qed
  moreover have "flagged evs2 x \<longleftrightarrow> flagged evs x \<or> in_range a (m + n) x \<and> racy (val (zsm_user z) (shadow z x))" for x
    using f1 [of x] f2 [of x] s1 [of x] v1 [of x] sp [of x] dj [of x] by (auto split: if_splits)
  moreover have "\<forall>e\<in>set (filter is_race evs2). e \<in> set evs \<or> ev_thr e = p \<and> ev_isW e = isW"
    using e1 e2 by fastforce
  ultimately show ?thesis using 2 l later_trans [OF lt] rm by (simp add: applied_def)
qed

text \<open>The rest of a range can still be accessed after its first part has been.\<close>

lemma may_apply_rest:
  assumes m: "may_apply a (n + k) l" and ap: "applied a n l l'" and r: "room k (zsm_user (snd l'))"
  shows "may_apply (a + of_nat n) k l'"
proof (cases l; cases l')
  fix evs z evs' z'
  assume l: "l = (evs, z)" "l' = (evs', z')"
  have cr: "client_range a (n + k)" and inv: "zsm_inv z" using m l by (simp_all add: may_apply_def)
  note C = client_range_split [OF cr]
  have "fit (val (zsm_user z') (shadow z' x))" if x: "in_range (a + of_nat n) k x" for x
  proof -
    have nr: "\<not> in_range a n x" using in_range_disjoint [OF C(4)] x by blast
    have "fit (val (zsm_user z) (shadow z x))" using m l in_range_split [OF C(4)] x by (simp add: may_apply_def)
    moreover have "shadow z' x = shadow z x" using ap l nr by (auto simp: applied_def split: if_splits)
    moreover have "val (zsm_user z') (shadow z x) = val (zsm_user z) (shadow z x)"
      using ap l later_val shadow_known(1) [OF inv] by (auto simp: applied_def)
    ultimately show ?thesis by simp
  qed
  then show ?thesis using ap l r C(2) by (simp add: may_apply_def applied_def)
qed

definition apply_ok :: "nat \<Rightarrow> (Addr \<Rightarrow> 'u logged \<Rightarrow> 'u logged option) \<Rightarrow> bool" where
  "apply_ok n f \<longleftrightarrow> (\<forall>a k l. may_apply a (n + k) l \<longrightarrow>
     (\<exists>l'. f a l = Some l' \<and> applied a n l l' \<and> may_apply (a + of_nat n) k l'))"

text \<open>One access on a node of the line of its address.\<close>

lemma apply_node_spec:
  assumes m: "may_apply a (n + k) (evs, z)" and n: "0 < n" "get_cacheline_offset a + n \<le> 64"
    and t: "tags0 z ! cache_wix a = cache_tag a"
    and cl: "line_same (lyns0 z ! cache_wix a) cl" "node_at cl (get_cacheline_offset a) n"
  shows "\<exists>l'. apply_node msm a n (cache_wix a) cl (evs, z) = Some l' \<and> applied a n (evs, z) l' \<and> may_apply (a + of_nat n) k l'"
proof -
  let ?c = "get_cacheline_offset a" and ?w = "cache_wix a" and ?u = "zsm_user z"
  have z: "zsm_inv z" and cr: "client_range a (n + k)" and rm: "room (n + k) ?u"
    and ft: "\<And>x. in_range a (n + k) x \<Longrightarrow> fit (val ?u (shadow z x))" using m by (auto simp: may_apply_def)
  have a47: "a < 2 ^ 47" using client_range_addr [OF client_range_split(1) [OF cr] n(1)] .
  have w: "cl_ok (lyns0 z ! ?w)" using zsm_invD(4) [OF z cache_wix_less, of a] t cache_tag_ok(2) [of a] by (auto simp: way_ok_def)
  have same: "cl_ok cl" "cl_bytes cl = cl_bytes (lyns0 z ! ?w)" using cl_bytes_same [OF cl(1) w] by auto
  define v where "v = svals cl ! ?c"
  have sh: "shadow z x = cl_bytes cl ! get_cacheline_offset x" if "cache_tag x = cache_tag a" for x
    using that t same(2) cache_wix_tag [of x] cache_wix_tag [of a] by (simp add: shadow_def)
  have old: "shadow z x = v" if "in_range a n x" for x
    using that in_range_line [OF n(2), of x] sh node_at_bytes(1) [OF same(1) offset_less cl(2)] by (simp add: v_def)
  have ina: "in_range a n a" "in_range a (n + k) a" using n(1) by (simp_all add: in_range_def)
  have v: "known ?u v" "v \<noteq> SVal_INVALID" "fit (val ?u v)"
    using shadow_known [OF z, of a] ft [OF ina(2)] old [OF ina(1)] by simp_all
  have ac: "acc ?u (refs {} z)" using zsm_invD(1) [OF z] by (simp add: counted_def)
  have "room (Suc k) ?u" using room_less [of "n - 1" "Suc k" ?u] rm n(1) by simp
  from msm_total [OF ac v this, of a n] obtain v' ev u' where
    s: "msm v a n ?u = Some (v', ev, u')" "v' \<noteq> SVal_INVALID" "known u' v'" "acc u' (refs {} z)" "later ?u u'" "room k u'"
      "val u' v' = step (val ?u v)" "filter is_race ev = (if racy (val ?u v) then [RecordRace p a n isW] else [])" by blast
  let ?cl = "put_sval ?c v' cl"
  note N = node_update [OF same(1) offset_less cl(2) s(2)]
  have kb: "\<forall>b\<in>set (cl_bytes ?cl). known u' b"
  proof
    fix b assume "b \<in> set (cl_bytes ?cl)"
    then obtain i where i: "i < 64" "b = cl_bytes ?cl ! i" using length_cl_bytes N(1) by (auto simp: in_set_conv_nth cl_ok_def)
    have "cl_bytes cl ! i \<in> set (cl_bytes cl)" using i(1) length_cl_bytes same(1) by (simp add: cl_ok_def)
    then have "known ?u (cl_bytes cl ! i)"
      using zsm_invD(4) [OF z cache_wix_less, of a] t cache_tag_ok(2) [of a] same(2) by (auto simp: way_ok_def)
    then show "known u' b" using N(2) [OF i(1)] i(2) s(3) later_known [OF s(5)] by auto
  qed
  note P = put_line_spec [OF z t a47 N(1) later_known [OF s(5)] s(4) kb]
  let ?z = "z\<lparr>zsm_user := u', lyns0 := (lyns0 z)[?w := ?cl]\<rparr>"
  have new: "shadow ?z x = (if in_range a n x then v' else shadow z x)" for x
    using P(3) [of x] N(2) [OF offset_less, of x] in_range_line [OF n(2), of x] sh [of x] by auto
  have fl: "flagged (evs @ ev) x \<longleftrightarrow> flagged evs x \<or> in_range a n x \<and> racy (val ?u (shadow z x))" for x
    using s(8) old [of x] by (auto simp: flagged_def)
  have rm': "room j u'" if "room (n + j) ?u" for j
  proof -
    have "room (Suc j) ?u" using room_less [of "n - 1" "Suc j" ?u] that n(1) by simp
    from msm_total [OF ac v this, of a n] s(1) show ?thesis by auto
  qed
  have "\<forall>e\<in>set (filter is_race ev). ev_thr e = p \<and> ev_isW e = isW" using s(8) by auto
  then have ap: "applied a n (evs, z) (evs @ ev, ?z)"
    using P(1) s(5,7) new old fl rm' by (auto simp: applied_def)
  have "apply_node msm a n ?w cl (evs, z) = Some (evs @ ev, ?z)"
    using s(1,2) by (simp add: apply_node_def v_def [symmetric])
  then show ?thesis using ap may_apply_rest [OF m ap] s(6) by auto
qed

end

section \<open>Accesses of 8 to 64 bits\<close>

context msm_client
begin

lemma may_apply_fetched:
  assumes m: "may_apply a k (evs, z)" and b: "b < 2 ^ 47"
  shows "\<exists>z1. get_cacheline b z = Some (cache_wix b, z1) \<and> may_apply a k (evs, z1) \<and> tags0 z1 ! cache_wix b = cache_tag b \<and>
     cl_ok (lyns0 z1 ! cache_wix b) \<and> (\<forall>n l'. applied a n (evs, z1) l' \<longrightarrow> applied a n (evs, z) l')"
proof -
  have z: "zsm_inv z" using m by (simp add: may_apply_def)
  from get_cacheline_spec [OF z b] obtain z1 where
    1: "get_cacheline b z = Some (cache_wix b, z1)" "zsm_inv z1" "kept (zsm_user z) (zsm_user z1)"
      "tags0 z1 ! cache_wix b = cache_tag b" "shadow z1 = shadow z" by blast
  have v: "val (zsm_user z1) (shadow z x) = val (zsm_user z) (shadow z x)" for x
    using later_val [OF kept_later [OF 1(3)]] shadow_known(1) [OF z] by blast
  have "may_apply a k (evs, z1)" using m 1(2,5) v kept_room [OF 1(3)] by (simp add: may_apply_def)
  moreover have "cl_ok (lyns0 z1 ! cache_wix b)"
    using zsm_invD(4) [OF 1(2) cache_wix_less, of b] 1(4) cache_tag_ok(2) [of b] by (auto simp: way_ok_def)
  moreover have "applied a n (evs, z1) l' \<Longrightarrow> applied a n (evs, z) l'" for n l'
    using v 1(5) later_trans [OF kept_later [OF 1(3)]] kept_room [OF 1(3)] by (cases l') (simp add: applied_def)
  ultimately show ?thesis using 1 by blast
qed

lemma may_apply_addr: "may_apply a (n + k) l \<Longrightarrow> 0 < n \<Longrightarrow> a < 2 ^ 47"
  using client_range_addr [of a "n + k"] by (auto simp: may_apply_def)

lemma apply8_ok: "apply_ok 1 (zsm_apply8 msm)"
  unfolding apply_ok_def
proof (intro allI impI)
  fix a k l
  assume m: "may_apply a (1 + k) l"
  obtain evs z where l: "l = (evs, z)" by (cases l)
  from may_apply_fetched [OF m [unfolded l] may_apply_addr [OF m]] obtain z1 where
    1: "get_cacheline a z = Some (cache_wix a, z1)" "may_apply a (1 + k) (evs, z1)" "tags0 z1 ! cache_wix a = cache_tag a"
      "cl_ok (lyns0 z1 ! cache_wix a)" "\<forall>n l'. applied a n (evs, z1) l' \<longrightarrow> applied a n (evs, z) l'" by auto
  from line_split8_spec [OF 1(4), of a] obtain cl where
    cl: "line_split8 a (lyns0 z1 ! cache_wix a) = Some cl" "line_same (lyns0 z1 ! cache_wix a) cl" "node_at cl (get_cacheline_offset a) 1" by blast
  from apply_node_spec [OF 1(2) _ offset_room(4) 1(3) cl(2,3)] obtain l' where
    "apply_node msm a 1 (cache_wix a) cl (evs, z1) = Some l'" "applied a 1 (evs, z1) l'" "may_apply (a + of_nat 1) k l'" by auto
  moreover from this(2) 1(5) have "applied a 1 l l'" unfolding l by blast
  ultimately show "\<exists>l'. zsm_apply8 msm a l = Some l' \<and> applied a 1 l l' \<and> may_apply (a + of_nat 1) k l'"
    using 1(1) cl(1) l by (simp add: zsm_apply8_def)
qed

text \<open>The two halves of an access.\<close>

lemma halves_ok:
  assumes h: "apply_ok n half" and m: "may_apply a (n + n + k) l"
  shows "\<exists>l'. do { l \<leftarrow> half (a + 0) l; half (a + of_nat n) l } = Some l' \<and> applied a (n + n) l l' \<and> may_apply (a + of_nat (n + n)) k l'"
proof -
  have m': "may_apply a (n + (n + k)) l" using m by (simp add: add.assoc)
  then obtain l1 where 1: "half a l = Some l1" "applied a n l l1" "may_apply (a + of_nat n) (n + k) l1" using h unfolding apply_ok_def by blast
  then obtain l2 where 2: "half (a + of_nat n) l1 = Some l2" "applied (a + of_nat n) n l1 l2" "may_apply (a + of_nat n + of_nat n) k l2"
    using h unfolding apply_ok_def by blast
  have cr: "client_range a (n + n)" and inv: "zsm_inv (snd l)"
    using m client_range_le [of a "n + n + k" "n + n"] by (auto simp: may_apply_def)
  have "applied a (n + n) l l2" using applied_split [OF cr inv 1(2) 2(2)] .
  then show ?thesis using 1(1) 2(1,3) by (simp add: add.assoc)
qed

lemma apply_or_split_ok:
  assumes half: "apply_ok n half" and n: "0 < n" and h: "h = of_nat n"
    and room: "\<And>a. al a \<Longrightarrow> get_cacheline_offset a + (n + n) \<le> 64"
    and node: "\<And>cl a. cl_ok cl \<Longrightarrow> al a \<Longrightarrow>
      \<exists>r. node a cl = Some r \<and> (\<forall>cl'. r = Some cl' \<longrightarrow> line_same cl cl' \<and> node_at cl' (get_cacheline_offset a) (n + n))"
  shows "apply_ok (n + n) (apply_or_split al node (n + n) half h msm)"
  unfolding apply_ok_def
proof (intro allI impI)
  fix a k l
  assume m: "may_apply a (n + n + k) l"
  show "\<exists>l'. apply_or_split al node (n + n) half h msm a l = Some l' \<and> applied a (n + n) l l' \<and> may_apply (a + of_nat (n + n)) k l'"
  proof (cases "al a")
    case False
    then show ?thesis using halves_ok [OF half m] h by (simp add: apply_or_split_def)
  next
    case True
    obtain evs z where l: "l = (evs, z)" by (cases l)
    from may_apply_fetched [OF m [unfolded l] may_apply_addr [OF m]] n obtain z1 where
      1: "get_cacheline a z = Some (cache_wix a, z1)" "may_apply a (n + n + k) (evs, z1)" "tags0 z1 ! cache_wix a = cache_tag a"
        "cl_ok (lyns0 z1 ! cache_wix a)" "\<forall>n l'. applied a n (evs, z1) l' \<longrightarrow> applied a n (evs, z) l'" by auto
    from node [OF 1(4) True] obtain r where r: "node a (lyns0 z1 ! cache_wix a) = Some r"
      "\<forall>cl'. r = Some cl' \<longrightarrow> line_same (lyns0 z1 ! cache_wix a) cl' \<and> node_at cl' (get_cacheline_offset a) (n + n)" by blast
    show ?thesis
    proof (cases r)
      case None
      from halves_ok [OF half 1(2)] obtain l' where
        "do { l \<leftarrow> half (a + 0) (evs, z1); half (a + of_nat n) l } = Some l'" "applied a (n + n) (evs, z1) l'"
        "may_apply (a + of_nat (n + n)) k l'" by blast
      moreover from this(2) 1(5) have "applied a (n + n) l l'" unfolding l by blast
      ultimately show ?thesis using None 1(1) r(1) True l h by (simp add: apply_or_split_def)
    next
      case (Some cl)
      with r(2) have cl: "line_same (lyns0 z1 ! cache_wix a) cl" "node_at cl (get_cacheline_offset a) (n + n)" by auto
      from apply_node_spec [OF 1(2) _ room [OF True] 1(3) cl] n obtain l' where
        "apply_node msm a (n + n) (cache_wix a) cl (evs, z1) = Some l'" "applied a (n + n) (evs, z1) l'" "may_apply (a + of_nat (n + n)) k l'" by auto
      moreover from this(2) 1(5) have "applied a (n + n) l l'" unfolding l by blast
      ultimately show ?thesis using Some 1(1) r(1) True l by (simp add: apply_or_split_def)
    qed
  qed
qed

lemma apply16_ok: "apply_ok 2 (zsm_apply16 msm)"
  using apply_or_split_ok [OF apply8_ok, of 1 aligned16 line_node16] line_node16_spec offset_room(1)
  by (simp add: zsm_apply16_def numeral_2_eq_2)

lemma apply32_ok: "apply_ok 4 (zsm_apply32 msm)"
  using apply_or_split_ok [OF apply16_ok, of 2 aligned32 line_node32] line_node32_spec offset_room(2)
  by (simp add: zsm_apply32_def)

lemma apply64_ok: "apply_ok 8 (zsm_apply64 msm)"
  using apply_or_split_ok [OF apply32_ok, of 4 aligned64 line_node64] line_node64_spec offset_room(3)
  by (simp add: zsm_apply64_def)

end

section \<open>Ranges\<close>

context msm_client
begin

definition applied_from :: "Addr \<Rightarrow> nat \<Rightarrow> 'u logged \<Rightarrow> 'u logged \<Rightarrow> bool" where
  "applied_from a n l l' \<longleftrightarrow> zsm_inv (snd l) \<and> applied a n l l'"

lemma apply_acc:
  assumes "apply_ok n f" "may_apply a (n + k) l"
  shows "\<exists>l'. f a l = Some l' \<and> applied_from a n l l' \<and> may_apply (a + of_nat n) k l'"
proof -
  have "zsm_inv (snd l)" using assms(2) by (auto simp: may_apply_def)
  then show ?thesis using assms unfolding apply_ok_def applied_from_def by blast
qed

end

sublocale msm_client \<subseteq> applier: range_acc may_apply applied_from
  "zsm_apply8 msm" "zsm_apply16 msm" "zsm_apply32 msm" "zsm_apply64 msm"
proof unfold_locales
  fix k a l
  show "may_apply a k l \<Longrightarrow> applied_from a 0 l l" using applied_0 by (auto simp: applied_from_def may_apply_def)
next
  fix a m n l l1 l2
  assume "client_range a (m + n)" "applied_from a m l l1" "applied_from (a + of_nat m) n l1 l2"
  then show "applied_from a (m + n) l l2" unfolding applied_from_def using applied_split by blast
qed (use apply_acc [OF apply8_ok] apply_acc [OF apply16_ok] apply_acc [OF apply32_ok] apply_acc [OF apply64_ok] in simp_all)

context msm_client
begin

lemma apply_range_spec:
  assumes "zsm_inv z" "room (unat len) (zsm_user z)" "client_range a (unat len)"
    "\<And>x. in_range a (unat len) x \<Longrightarrow> fit (val (zsm_user z) (shadow z x))"
  shows "\<exists>evs z'. zsm_apply_range msm a len z = Some (evs, z') \<and> applied a (unat len) ([], z) (evs, z')"
  using applier.range_walk_spec [of a len 0 "([], z)"] assms
  by (auto simp: zsm_apply_range_def may_apply_def applied_from_def)

end

end
