(* ===== verification/LibHB.thy ===== *)
theory LibHB
  imports ZsmApply Sync VtsGC
begin

text \<open>
  The library as a whole (\<^verbatim>\<open>helgrind/libhb_core.c\<close>, "Top Level API", and the access macros of
  \<^verbatim>\<open>helgrind/libhb.h\<close>): the shadow memory with the timestamps, threads and synchronisation objects as
  the owner of its values.  The contracts of the shadow memory (\<open>rc_client\<close>) and of the state machine
  (\<open>msm_client\<close>) are interpreted on the model here.

  The map of conflicting accesses (\<^verbatim>\<open>event_map_*\<close>) has its own state, which nothing below reads: calls
  into it are the events of the state machine.
\<close>

section \<open>Operations\<close>

type_synonym libhb = "hb_sync zsm"

definition hb_rcinc :: "SVal \<Rightarrow> hb_sync \<Rightarrow> hb_sync option" where
  "hb_rcinc s = upd_vts (SVal__rcinc s)"

definition hb_rcdec :: "SVal \<Rightarrow> hb_sync \<Rightarrow> hb_sync option" where
  "hb_rcdec s = upd_vts (SVal__rcdec s)"

text \<open>Running an operation that does not touch the shadow memory.\<close>

definition on_user :: "('u \<Rightarrow> 'u option) \<Rightarrow> 'u zsm \<Rightarrow> 'u zsm option" where
  "on_user f z = do { u \<leftarrow> f (zsm_user z); Some (z\<lparr>zsm_user := u\<rparr>) }"

text \<open>\<^verbatim>\<open>libhb_init\<close> with the call of \<^verbatim>\<open>zsm_init\<close>.\<close>

definition libhb_start :: "Thr_ptr \<Rightarrow> libhb option" where
  "libhb_start p = do { u \<leftarrow> libhb_init p; Some (zsm_init hb_rcinc hb_rcdec u) }"

text \<open>The state machine applied by the thread \<open>p\<close>.\<close>

definition hb_msm_read :: "bool \<Rightarrow> Thr_ptr \<Rightarrow> hb_sync msm" where
  "hb_msm_read sc p svOld a szB u =
     do {
       t \<leftarrow> hb_thrs u p;
       (svNew, evs, V) \<leftarrow> msm_read sc svOld p t a szB (hb_vts u);
       Some (svNew, evs, u\<lparr>hb_vts := V\<rparr>)
     }"

definition hb_msm_write :: "bool \<Rightarrow> Thr_ptr \<Rightarrow> hb_sync msm" where
  "hb_msm_write sc p svOld a szB u =
     do {
       t \<leftarrow> hb_thrs u p;
       (svNew, evs, V) \<leftarrow> msm_write sc svOld p t a szB (hb_vts u);
       Some (svNew, evs, u\<lparr>hb_vts := V\<rparr>)
     }"

definition zsm_apply8___msm_read :: "bool \<Rightarrow> Thr_ptr \<Rightarrow> Addr \<Rightarrow> hb_sync logged \<Rightarrow> hb_sync logged option" where
  "zsm_apply8___msm_read sc p = zsm_apply8 (hb_msm_read sc p)"

definition zsm_apply8___msm_write :: "bool \<Rightarrow> Thr_ptr \<Rightarrow> Addr \<Rightarrow> hb_sync logged \<Rightarrow> hb_sync logged option" where
  "zsm_apply8___msm_write sc p = zsm_apply8 (hb_msm_write sc p)"

definition zsm_apply16___msm_read :: "bool \<Rightarrow> Thr_ptr \<Rightarrow> Addr \<Rightarrow> hb_sync logged \<Rightarrow> hb_sync logged option" where
  "zsm_apply16___msm_read sc p = zsm_apply16 (hb_msm_read sc p)"

definition zsm_apply16___msm_write :: "bool \<Rightarrow> Thr_ptr \<Rightarrow> Addr \<Rightarrow> hb_sync logged \<Rightarrow> hb_sync logged option" where
  "zsm_apply16___msm_write sc p = zsm_apply16 (hb_msm_write sc p)"

definition zsm_apply32___msm_read :: "bool \<Rightarrow> Thr_ptr \<Rightarrow> Addr \<Rightarrow> hb_sync logged \<Rightarrow> hb_sync logged option" where
  "zsm_apply32___msm_read sc p = zsm_apply32 (hb_msm_read sc p)"

definition zsm_apply32___msm_write :: "bool \<Rightarrow> Thr_ptr \<Rightarrow> Addr \<Rightarrow> hb_sync logged \<Rightarrow> hb_sync logged option" where
  "zsm_apply32___msm_write sc p = zsm_apply32 (hb_msm_write sc p)"

definition zsm_apply64___msm_read :: "bool \<Rightarrow> Thr_ptr \<Rightarrow> Addr \<Rightarrow> hb_sync logged \<Rightarrow> hb_sync logged option" where
  "zsm_apply64___msm_read sc p = zsm_apply64 (hb_msm_read sc p)"

definition zsm_apply64___msm_write :: "bool \<Rightarrow> Thr_ptr \<Rightarrow> Addr \<Rightarrow> hb_sync logged \<Rightarrow> hb_sync logged option" where
  "zsm_apply64___msm_write sc p = zsm_apply64 (hb_msm_write sc p)"

definition zsm_apply_range___msm_read :: "bool \<Rightarrow> Thr_ptr \<Rightarrow> Addr \<Rightarrow> UWord \<Rightarrow> libhb \<Rightarrow> hb_sync logged option" where
  "zsm_apply_range___msm_read sc p a len z =
     range_walk (zsm_apply8___msm_read sc p) (zsm_apply16___msm_read sc p) (zsm_apply32___msm_read sc p)
       (zsm_apply64___msm_read sc p) a len ([], z)"

definition zsm_apply_range___msm_write :: "bool \<Rightarrow> Thr_ptr \<Rightarrow> Addr \<Rightarrow> UWord \<Rightarrow> libhb \<Rightarrow> hb_sync logged option" where
  "zsm_apply_range___msm_write sc p a len z =
     range_walk (zsm_apply8___msm_write sc p) (zsm_apply16___msm_write sc p) (zsm_apply32___msm_write sc p)
       (zsm_apply64___msm_write sc p) a len ([], z)"

text \<open>The access macros for ranges, as they are written.\<close>

definition LIBHB_READ_N :: "bool \<Rightarrow> Thr_ptr \<Rightarrow> Addr \<Rightarrow> UWord \<Rightarrow> libhb \<Rightarrow> hb_sync logged option" where
  "LIBHB_READ_N = zsm_apply_range___msm_read"

definition LIBHB_WRITE_N :: "bool \<Rightarrow> Thr_ptr \<Rightarrow> Addr \<Rightarrow> UWord \<Rightarrow> libhb \<Rightarrow> hb_sync logged option" where
  "LIBHB_WRITE_N = zsm_apply_range___msm_read"

definition libhb_range_new :: "Thr_ptr \<Rightarrow> Addr \<Rightarrow> UWord \<Rightarrow> libhb \<Rightarrow> libhb option" where
  "libhb_range_new p a szB z =
     do {
       t \<leftarrow> hb_thrs (zsm_user z) p;
       let sv = SVal__mkC (viW t) (viW t);
       (sane, V) \<leftarrow> is_sane_SVal_C sv (hb_vts (zsm_user z));
       tl_assert sane;
       zsm_set_range a szB sv (z\<lparr>zsm_user := (zsm_user z)\<lparr>hb_vts := V\<rparr>\<rparr>)
     }"

definition libhb_range_noaccess :: "Thr_ptr \<Rightarrow> Addr \<Rightarrow> UWord \<Rightarrow> libhb \<Rightarrow> libhb option" where
  "libhb_range_noaccess p a szB z = zsm_set_range a szB SVal__mkA z"

definition libhb_copy_shadow_state :: "Addr \<Rightarrow> Addr \<Rightarrow> UWord \<Rightarrow> libhb \<Rightarrow> libhb option" where
  "libhb_copy_shadow_state dst src len z = zsm_copy_range dst src len z"

text \<open>
  \<^verbatim>\<open>vts_tab__do_GC\<close> with \<^verbatim>\<open>show_stats\<close> off, as in its only call.  The message that it prints when
  \<^verbatim>\<open>VG_(clo_verbosity)\<close> is more than one asserts first that the table is not empty.
\<close>

definition vts_tab__do_GC :: "int \<Rightarrow> libhb \<Rightarrow> libhb option" where
  "vts_tab__do_GC clo_verbosity z =
     do {
       z \<leftarrow> on_user (upd_vts vts_tab__do_GC_begin) z;
       z \<leftarrow> zsm_flush_cache z;
       let nTab = length (vts_tab (hb_vts (zsm_user z)));
       z \<leftarrow> on_user (upd_vts vts_tab__do_GC_sweep) z;
       if clo_verbosity > 1 then do { tl_assert (nTab > 0); Some z } else Some z
     }"

definition libhb_maybe_GC :: "int \<Rightarrow> libhb \<Rightarrow> libhb option" where
  "libhb_maybe_GC clo_verbosity z =
     (let V = hb_vts (zsm_user z) in
      if vts_tab_freelist V \<noteq> VtsID_INVALID then Some z
      else if int (length (vts_tab V)) < vts_next_GC_at V then Some z
      else vts_tab__do_GC clo_verbosity z)"

section \<open>Reference counts of shadow values\<close>

definition sv_R :: "SVal \<Rightarrow> VtsID" where "sv_R s = ucast (drop_bit 32 s)"
definition sv_W :: "SVal \<Rightarrow> VtsID" where "sv_W s = ucast (s AND 0xFFFFFFFF)"

definition live :: "vts_state \<Rightarrow> VtsID \<Rightarrow> bool" where
  "live V v \<longleftrightarrow> vts_at V v \<noteq> None"

definition hb_known :: "hb_sync \<Rightarrow> SVal \<Rightarrow> bool" where
  "hb_known u s \<longleftrightarrow>
     (if SVal__isC s then live (hb_vts u) (sv_R s) \<and> live (hb_vts u) (sv_W s) else s = SVal_NOACCESS \<or> SVal__isE s)"

definition sval_refs :: "VtsID \<Rightarrow> SVal \<Rightarrow> int" where
  "sval_refs v s = (if SVal__isC s then one (sv_R s) v + one (sv_W s) v else 0)"

definition shadow_refs :: "SVal multiset \<Rightarrow> VtsID \<Rightarrow> int" where
  "shadow_refs M v = (\<Sum>s\<in>#M. sval_refs v s)"

text \<open>
  The counts are exact for the references from threads, synchronisation objects and the stored shadow
  values \<open>M\<close>; the first two are fewer than \<open>2 ^ 63\<close>.
\<close>

definition hb_acc :: "hb_sync \<Rightarrow> SVal multiset \<Rightarrow> bool" where
  "hb_acc u M \<longleftrightarrow> hb_inv (shadow_refs M) u \<and> (\<forall>s\<in>#M. hb_known u s) \<and>
     (\<forall>v. msum (thr_refs v) (hb_thrs u) + msum (so_refs v) (hb_sos u) < 2 ^ 63)"

definition hb_later :: "hb_sync \<Rightarrow> hb_sync \<Rightarrow> bool" where
  "hb_later u u' \<longleftrightarrow> hb_thrs u' = hb_thrs u \<and> hb_sos u' = hb_sos u \<and>
     (\<forall>v x. vts_at (hb_vts u) v = Some x \<longrightarrow> vts_at (hb_vts u') v = Some x)"

definition hb_kept :: "hb_sync \<Rightarrow> hb_sync \<Rightarrow> bool" where
  "hb_kept u u' \<longleftrightarrow> hb_later u u' \<and> length (vts_tab (hb_vts u')) \<le> length (vts_tab (hb_vts u)) \<and>
     vts_at (hb_vts u') = vts_at (hb_vts u) \<and> vts_tab_freelist (hb_vts u') = vts_tab_freelist (hb_vts u) \<and>
     (no_caches (hb_vts u) \<longrightarrow> no_caches (hb_vts u'))"

lemma sval_refs_bounds: "0 \<le> sval_refs v s" "sval_refs v s \<le> 2"
  by (simp_all add: sval_refs_def one_def)

lemma shadow_refs_bounds: "0 \<le> shadow_refs M v" "shadow_refs M v \<le> 2 * int (size M)"
proof -
  show "0 \<le> shadow_refs M v" using sval_refs_bounds(1) by (induction M) (simp_all add: shadow_refs_def)
  show "shadow_refs M v \<le> 2 * int (size M)"
  proof (induction M)
    case (add s M)
    then show ?case using sval_refs_bounds(2) [of v s] by (simp add: shadow_refs_def)
  qed (simp add: shadow_refs_def)
qed

lemma shadow_refs_add: "shadow_refs (add_mset s M) v = shadow_refs M v + sval_refs v s"
  by (simp add: shadow_refs_def)

lemma unC_sv: "SVal__isC s \<Longrightarrow> SVal__unC_Rmin s = Some (sv_R s)" "SVal__isC s \<Longrightarrow> SVal__unC_Wmin s = Some (sv_W s)"
  by (simp_all add: SVal__unC_Rmin_def SVal__unC_Wmin_def sv_R_def sv_W_def)

lemma rc_SVal:
  "SVal__rcinc s V = (if SVal__isC s then rcinc_both (sv_R s) (sv_W s) V else Some V)"
  "SVal__rcdec s V = (if SVal__isC s then rcdec_both (sv_R s) (sv_W s) V else Some V)"
  by (simp_all add: SVal__rcinc_def SVal__rcdec_def unC_sv rcinc_both_def rcdec_both_def)

text \<open>Counting changes nothing of the table but the counts.\<close>

definition only_counts :: "vts_state \<Rightarrow> vts_state \<Rightarrow> bool" where
  "only_counts V V' \<longleftrightarrow> vts_at V' = vts_at V \<and> vts_tab_freelist V' = vts_tab_freelist V \<and> (no_caches V \<longrightarrow> no_caches V')"

lemma vts_at_set_rc:
  assumes "index_opt (vts_tab V) (unat a) = Some ie"
  shows "vts_at (V\<lparr>vts_tab := (vts_tab V)[unat a := ie\<lparr>te_rc := c\<rparr>]\<rparr>) = vts_at V"
  using assms by (auto simp: fun_eq_iff vts_at_def VtsID__to_VTS_def index_opt_def nth_list_update split: if_splits)

lemma rc_only_counts:
  "VtsID__rcinc a V = Some V' \<Longrightarrow> only_counts V V'" "VtsID__rcdec a V = Some V' \<Longrightarrow> only_counts V V'"
  using vts_at_set_rc
  by (auto simp: VtsID__rcinc_def VtsID__rcdec_def only_counts_def no_caches_def bind_eq_Some_conv split: if_splits)

lemma rc_both_only_counts:
  "rcinc_both a b V = Some V' \<Longrightarrow> only_counts V V'" "rcdec_both a b V = Some V' \<Longrightarrow> only_counts V V'"
  using rc_only_counts by (fastforce simp: rcinc_both_def rcdec_both_def bind_eq_Some_conv only_counts_def)+

text \<open>A change of the table that changes the counts by \<open>d\<close>.\<close>

lemma hb_inv_counts:
  assumes inv: "hb_inv E u" and s: "vstep (own_clock u) n d (hb_vts u) V'" and E: "\<And>v. E' v = E v + d v" "\<And>v. 0 \<le> E' v"
  shows "hb_inv E' (u\<lparr>hb_vts := V'\<rparr>)" "hb_later u (u\<lparr>hb_vts := V'\<rparr>)"
proof -
  let ?u = "u\<lparr>hb_vts := V'\<rparr>"
  have own: "own_clock ?u = own_clock u" by (rule own_clock_step [OF inv s]) simp_all
  show "hb_inv E' ?u"
    using inv vstep_inv [OF s] vstep_bounded [OF s hb_inv_bounded [OF inv]] thr_ok_step [OF _ s] so_ok_step [OF _ s]
      vstep_rc [OF s] E own by (simp add: hb_inv_def)
  show "hb_later u ?u" using vstep_at [OF s] by (simp add: hb_later_def)
qed

lemma hb_known_later: "hb_later u u' \<Longrightarrow> hb_known u s \<Longrightarrow> hb_known u' s"
  by (auto simp: hb_known_def hb_later_def live_def)

lemma hb_acc_step:
  assumes a: "hb_acc u M" and s: "vstep (own_clock u) n d (hb_vts u) V'"
    and d: "\<And>v. shadow_refs M' v = shadow_refs M v + d v" and k: "\<forall>s\<in>#M'. hb_known u s"
  shows "hb_acc (u\<lparr>hb_vts := V'\<rparr>) M'" "hb_later u (u\<lparr>hb_vts := V'\<rparr>)"
proof -
  have inv: "hb_inv (shadow_refs M) u" using a by (simp add: hb_acc_def)
  note H = hb_inv_counts [OF inv s d shadow_refs_bounds(1)]
  show "hb_later u (u\<lparr>hb_vts := V'\<rparr>)" by (rule H(2))
  then show "hb_acc (u\<lparr>hb_vts := V'\<rparr>) M'" using H(1) a k hb_known_later by (auto simp: hb_acc_def)
qed

lemma hb_inc:
  assumes a: "hb_acc u M" and k: "hb_known u s" and sz: "size M < 2 ^ 48"
  shows "\<exists>u'. hb_rcinc s u = Some u' \<and> hb_acc u' (add_mset s M) \<and> hb_kept u u'"
proof (cases "SVal__isC s")
  case False
  then have "shadow_refs (add_mset s M) = shadow_refs M" by (simp add: fun_eq_iff shadow_refs_add sval_refs_def)
  then show ?thesis using False a k by (simp add: hb_rcinc_def upd_vts_def rc_SVal hb_acc_def hb_kept_def hb_later_def)
next
  case True
  let ?V = "hb_vts u"
  have inv: "hb_inv (shadow_refs M) u" using a by (simp add: hb_acc_def)
  obtain x y where xy: "vts_at ?V (sv_R s) = Some x" "vts_at ?V (sv_W s) = Some y"
    using k True by (auto simp: hb_known_def live_def)
  have "uint (vts_rc ?V v) < 2 ^ 64 - 2" for v
  proof -
    have "shadow_refs M v \<le> 2 * 2 ^ 48" using shadow_refs_bounds(2) [of M v] sz by simp
    moreover have "msum (thr_refs v) (hb_thrs u) + msum (so_refs v) (hb_sos u) < 2 ^ 63" using a by (simp add: hb_acc_def)
    ultimately show ?thesis using hb_inv_rc [OF inv, of v] by simp
  qed
  from vstep_rcinc_both [OF hb_inv_vts [OF inv] xy this this] obtain V' where
    V': "rcinc_both (sv_R s) (sv_W s) ?V = Some V'" "vstep (own_clock u) 0 (\<lambda>v. one (sv_R s) v + one (sv_W s) v) ?V V'" by blast
  have d: "shadow_refs (add_mset s M) v = shadow_refs M v + (one (sv_R s) v + one (sv_W s) v)" for v
    using True by (simp add: shadow_refs_add sval_refs_def)
  have "\<forall>t\<in>#add_mset s M. hb_known u t" using a k by (simp add: hb_acc_def)
  note H = hb_acc_step [OF a V'(2) d this]
  have "hb_kept u (u\<lparr>hb_vts := V'\<rparr>)" using H(2) vstep_len [OF V'(2)] rc_both_only_counts(1) [OF V'(1)] by (simp add: hb_kept_def only_counts_def)
  then show ?thesis using H(1) V'(1) True by (simp add: hb_rcinc_def upd_vts_def rc_SVal)
qed

lemma hb_dec:
  assumes a: "hb_acc u (add_mset s M)"
  shows "\<exists>u'. hb_rcdec s u = Some u' \<and> hb_acc u' M \<and> hb_kept u u'"
proof (cases "SVal__isC s")
  case False
  then have "shadow_refs (add_mset s M) = shadow_refs M" by (simp add: fun_eq_iff shadow_refs_add sval_refs_def)
  then show ?thesis using False a by (simp add: hb_rcdec_def upd_vts_def rc_SVal hb_acc_def hb_kept_def hb_later_def)
next
  case True
  let ?V = "hb_vts u"
  have inv: "hb_inv (shadow_refs (add_mset s M)) u" and k: "hb_known u s" "\<forall>t\<in>#M. hb_known u t" using a by (simp_all add: hb_acc_def)
  obtain x y where xy: "vts_at ?V (sv_R s) = Some x" "vts_at ?V (sv_W s) = Some y"
    using k True by (auto simp: hb_known_def live_def)
  have "one (sv_R s) v + one (sv_W s) v \<le> uint (vts_rc ?V v)" for v
  proof -
    have "0 \<le> msum (thr_refs v) (hb_thrs u)" "0 \<le> msum (so_refs v) (hb_sos u)"
      by (simp_all add: msum_nonneg thr_refs_nonneg so_refs_nonneg)
    then show ?thesis using hb_inv_rc [OF inv, of v] shadow_refs_bounds(1) [of M v] True
      by (simp add: shadow_refs_add sval_refs_def)
  qed
  from vstep_rcdec_both [OF hb_inv_vts [OF inv] xy this] obtain V' where
    V': "rcdec_both (sv_R s) (sv_W s) ?V = Some V'" "vstep (own_clock u) 0 (\<lambda>v. - one (sv_R s) v - one (sv_W s) v) ?V V'" by blast
  have d: "shadow_refs M v = shadow_refs (add_mset s M) v + (- one (sv_R s) v - one (sv_W s) v)" for v
    using True by (simp add: shadow_refs_add sval_refs_def)
  note H = hb_acc_step [OF a V'(2) d k(2)]
  have "hb_kept u (u\<lparr>hb_vts := V'\<rparr>)" using H(2) vstep_len [OF V'(2)] rc_both_only_counts(2) [OF V'(1)] by (simp add: hb_kept_def only_counts_def)
  then show ?thesis using H(1) V'(1) True by (simp add: hb_rcdec_def upd_vts_def rc_SVal)
qed

interpretation hb: rc_client hb_rcinc hb_rcdec hb_known hb_acc hb_kept
proof unfold_locales
  show "hb_kept u u" for u by (simp add: hb_kept_def hb_later_def)
  show "hb_kept u u1 \<Longrightarrow> hb_kept u1 u2 \<Longrightarrow> hb_kept u u2" for u u1 u2 by (auto simp: hb_kept_def hb_later_def)
  show "hb_kept u u' \<Longrightarrow> hb_known u v \<Longrightarrow> hb_known u' v" for u u' v by (auto simp: hb_kept_def intro: hb_known_later)
  show "hb_known u SVal_NOACCESS" for u by (simp add: hb_known_def)
  show "hb_acc u (add_mset SVal_NOACCESS M) = hb_acc u M" for u M
  proof -
    have "shadow_refs (add_mset SVal_NOACCESS M) = shadow_refs M" by (simp add: fun_eq_iff shadow_refs_add sval_refs_def)
    moreover have "hb_known u SVal_NOACCESS" by (simp add: hb_known_def)
    ultimately show ?thesis by (simp add: hb_acc_def)
  qed
qed (use hb_inc hb_dec in blast)+

section \<open>The state machine on timestamps\<close>

text \<open>
  The abstract value of a shadow value: not accessible, after an error, or constrained by the timestamps
  that reads and writes must be ordered after.
\<close>

datatype hb_val = NoAccess | AfterError | Clocks ts_array ts_array

definition hb_val_of :: "vts_state \<Rightarrow> SVal \<Rightarrow> hb_val" where
  "hb_val_of V s =
     (if SVal__isC s then Clocks (the (vts_at V (sv_R s))) (the (vts_at V (sv_W s)))
      else if s = SVal_NOACCESS then NoAccess else AfterError)"

definition vjoin :: "ts_array \<Rightarrow> ts_array \<Rightarrow> ts_array" where
  "vjoin x y = the (VTS__join x y)"

fun racy_read :: "ts_array \<Rightarrow> hb_val \<Rightarrow> bool" where
  "racy_read R (Clocks r w) \<longleftrightarrow> \<not> vts_leq r R"
| "racy_read R c \<longleftrightarrow> False"

fun racy_write :: "ts_array \<Rightarrow> hb_val \<Rightarrow> bool" where
  "racy_write W (Clocks r w) \<longleftrightarrow> \<not> vts_leq w W"
| "racy_write W c \<longleftrightarrow> False"

fun step_read :: "ts_array \<Rightarrow> ts_array \<Rightarrow> hb_val \<Rightarrow> hb_val" where
  "step_read R W (Clocks r w) = Clocks (if vts_leq r R then r else vjoin r R) (vjoin w W)"
| "step_read R W c = c"

fun step_write :: "ts_array \<Rightarrow> ts_array \<Rightarrow> hb_val \<Rightarrow> hb_val" where
  "step_write R W (Clocks r w) = (if vts_leq w W then Clocks W W else Clocks (vjoin r R) (vjoin w W))"
| "step_write R W c = c"

text \<open>An access passes the assertions of the state machine if it is no race, or the constraint is sane.\<close>

fun sane_val :: "hb_val \<Rightarrow> bool" where
  "sane_val (Clocks r w) \<longleftrightarrow> vts_leq r w"
| "sane_val c \<longleftrightarrow> True"

definition fit_for :: "(hb_val \<Rightarrow> bool) \<Rightarrow> hb_val \<Rightarrow> bool" where
  "fit_for racy c \<longleftrightarrow> (racy c \<longrightarrow> sane_val c)"

definition hb_room :: "Thr_ptr \<Rightarrow> ts_array \<Rightarrow> ts_array \<Rightarrow> nat \<Rightarrow> hb_sync \<Rightarrow> bool" where
  "hb_room p R W k u \<longleftrightarrow>
     (\<exists>t. hb_thrs u p = Some t \<and> thr_rep (hb_vts u) t R W) \<and> length (vts_tab (hb_vts u)) + 2 * k \<le> 2 ^ 30"

lemma sv_mkC: "r < 2 ^ 30 \<Longrightarrow> sv_R (SVal__mkC r w) = r" "r < 2 ^ 30 \<Longrightarrow> sv_W (SVal__mkC r w) = w"
  using unC_sv [OF isC_mkC, of r w] unC_Rmin_mkC [of r w] unC_Wmin_mkC [of r w] by simp_all

lemma vstep_vjoin:
  assumes "vts_inv V" "vts_at V a = Some x" "vts_at V b = Some y" "length (vts_tab V) < 2 ^ 30" "bounded \<beta> V"
  shows "\<exists>v V'. VtsID__join2 a b V = Some (v, V') \<and> vts_at V' v = Some (vjoin x y) \<and> vstep \<beta> 1 (\<lambda>v. 0) V V'"
  using vstep_join2 [OF assms(1-3) _ assms(5)] assms(4) by (fastforce simp: vjoin_def)

text \<open>What one access gives: a constrained value with the timestamps \<open>r'\<close> and \<open>w'\<close>.\<close>

definition clocks_out ::
  "(Thr_ptr \<Rightarrow> ULong) \<Rightarrow> vts_state \<Rightarrow> hb_event list \<Rightarrow> hb_val \<Rightarrow> (SVal \<times> hb_event list \<times> vts_state) option \<Rightarrow> bool" where
  "clocks_out \<beta> V race c res \<longleftrightarrow> (\<exists>s' evs V'. res = Some (s', evs, V') \<and> vstep \<beta> 2 (\<lambda>v. 0) V V' \<and> SVal__isC s' \<and>
     live V' (sv_R s') \<and> live V' (sv_W s') \<and> hb_val_of V' s' = c \<and> filter is_race evs = race)"

lemma clocks_outI:
  assumes r: "vts_at V' r = Some xr" "vts_at V' w = Some xw" and len: "length (vts_tab V') \<le> 2 ^ 30"
    and st: "vstep \<beta> 2 (\<lambda>v. 0) V V'"
  shows "clocks_out \<beta> V (filter is_race evs) (Clocks xr xw) (msm_out sc s (SVal__mkC r w) p a n isW evs V')"
proof -
  have r30: "r < 2 ^ 30" using live_small [OF r(1) len] .
  from msm_out_mkC [OF r(1) len, of sc s w p a n isW evs] obtain evs' where
    "msm_out sc s (SVal__mkC r w) p a n isW evs V' = Some (SVal__mkC r w, evs', V')" "filter is_race evs' = filter is_race evs" by blast
  then show ?thesis using st r isC_mkC [OF r30] sv_mkC [OF r30] by (auto simp: clocks_out_def live_def hb_val_of_def)
qed

lemma clocks_out_step:
  "vstep \<beta> 0 (\<lambda>v. 0) V V1 \<Longrightarrow> clocks_out \<beta> V1 race c res \<Longrightarrow> clocks_out \<beta> V race c res"
  using vstep_trans [of \<beta> 0 "\<lambda>v. 0" V V1 2 "\<lambda>v. 0"] unfolding clocks_out_def by (simp del: add_2_eq_Suc add_2_eq_Suc') blast

lemma race_clocks:
  assumes inv: "vts_inv V" and len: "length (vts_tab V) + 2 \<le> 2 ^ 30" and b: "bounded \<beta> V"
    and s: "vts_at V r = Some xr" "vts_at V w = Some xw" "vts_leq xr xw" and t: "thr_rep V t R W"
  shows "clocks_out \<beta> V [RecordRace p a n isW] (Clocks (vjoin xr R) (vjoin xw W))
     (do {
        (ordxx, st) \<leftarrow> VtsID__getOrdering r w V;
        tl_assert (ordxx = POrd_EQ \<or> ordxx = POrd_LT);
        (r', st) \<leftarrow> VtsID__join2 r (viR t) st;
        (w', st) \<leftarrow> VtsID__join2 w (viW t) st;
        ev \<leftarrow> record_race_info p t a n isW;
        msm_out sc s (SVal__mkC r' w') p a n isW [ev] st
      })"
proof -
  from t have T: "vts_at V (viR t) = Some R" "vts_at V (viW t) = Some W" "opaque t \<noteq> 0" by (simp_all add: thr_rep_def)
  from vstep_getOrdering [OF inv s(1,2), of \<beta>] obtain V1 where
    1: "VtsID__getOrdering r w V = Some (VTS__cmp xr xw, V1)" "vstep \<beta> 0 (\<lambda>v. 0) V V1" by blast
  note A1 = vstep_at [OF 1(2)]
  have l1: "length (vts_tab V1) < 2 ^ 30" using vstep_len [OF 1(2)] len by simp
  from vstep_vjoin [OF vstep_inv [OF 1(2)] A1 [OF s(1)] A1 [OF T(1)] l1 vstep_bounded [OF 1(2) b]] obtain r' V2 where
    2: "VtsID__join2 r (viR t) V1 = Some (r', V2)" "vts_at V2 r' = Some (vjoin xr R)" "vstep \<beta> 1 (\<lambda>v. 0) V1 V2" by blast
  have s2: "vstep \<beta> 1 (\<lambda>v. 0) V V2" using vstep_trans [OF 1(2) 2(3)] by simp
  note A2 = vstep_at [OF s2]
  have l2: "length (vts_tab V2) < 2 ^ 30" using vstep_len [OF s2] len by simp
  from vstep_vjoin [OF vstep_inv [OF s2] A2 [OF s(2)] A2 [OF T(2)] l2 vstep_bounded [OF s2 b]] obtain w' V3 where
    3: "VtsID__join2 w (viW t) V2 = Some (w', V3)" "vts_at V3 w' = Some (vjoin xw W)" "vstep \<beta> 1 (\<lambda>v. 0) V2 V3" by blast
  have s3: "vstep \<beta> 2 (\<lambda>v. 0) V V3" using vstep_trans [OF s2 3(3)] by (simp add: numeral_2_eq_2)
  have "length (vts_tab V3) \<le> 2 ^ 30" using vstep_len [OF s3] len by simp
  from clocks_outI [OF vstep_at [OF 3(3) 2(2)] 3(2) this s3, of "[RecordRace p a n isW]" sc s p a n isW]
  show ?thesis using 1(1) 2(1) 3(1) s(3) T(3) by (simp add: record_race_info_def vts_leq_cmp)
qed

lemma msm_read_clocks:
  assumes inv: "vts_inv V" and len: "length (vts_tab V) + 2 \<le> 2 ^ 30" and b: "bounded \<beta> V"
    and C: "SVal__isC s" and s: "vts_at V (sv_R s) = Some xr" "vts_at V (sv_W s) = Some xw" "vts_leq xr R \<or> vts_leq xr xw"
    and t: "thr_rep V t R W"
  shows "clocks_out \<beta> V (if racy_read R (Clocks xr xw) then [RecordRace p a n False] else [])
     (step_read R W (Clocks xr xw)) (msm_read sc s p t a n V)"
proof -
  from t have T: "vts_at V (viR t) = Some R" "vts_at V (viW t) = Some W" by (simp_all add: thr_rep_def)
  from vstep_getOrdering [OF inv s(1) T(1), of \<beta>] obtain V1 where
    1: "VtsID__getOrdering (sv_R s) (viR t) V = Some (VTS__cmp xr R, V1)" "vstep \<beta> 0 (\<lambda>v. 0) V V1" by blast
  note A1 = vstep_at [OF 1(2)] and inv1 = vstep_inv [OF 1(2)] and b1 = vstep_bounded [OF 1(2) b]
  have l1: "length (vts_tab V1) + 2 \<le> 2 ^ 30" using vstep_len [OF 1(2)] len by simp
  show ?thesis
  proof (cases "vts_leq xr R")
    case True
    have l: "length (vts_tab V1) < 2 ^ 30" using l1 by simp
    from vstep_vjoin [OF inv1 A1 [OF s(2)] A1 [OF T(2)] l b1] obtain w' V2 where
      2: "VtsID__join2 (sv_W s) (viW t) V1 = Some (w', V2)" "vts_at V2 w' = Some (vjoin xw W)" "vstep \<beta> 1 (\<lambda>v. 0) V1 V2" by blast
    have s2: "vstep \<beta> 2 (\<lambda>v. 0) V V2" using vstep_cong [OF vstep_trans [OF 1(2) 2(3)], of 2] by simp
    have "length (vts_tab V2) \<le> 2 ^ 30" using vstep_len [OF s2] len by simp
    from clocks_outI [OF vstep_at [OF 2(3) A1 [OF s(1)]] 2(2) this s2, of "[]" sc s p a n False]
    show ?thesis using True 1(1) 2(1) C by (simp add: msm_read_def unC_sv vts_leq_cmp)
  next
    case False
    then have sane: "vts_leq xr xw" using s(3) by simp
    have t1: "thr_rep V1 t R W" using t A1 by (simp add: thr_rep_def)
    have "clocks_out \<beta> V [RecordRace p a n False] (Clocks (vjoin xr R) (vjoin xw W)) (msm_read sc s p t a n V)"
      using clocks_out_step [OF 1(2) race_clocks [OF inv1 l1 b1 A1 [OF s(1)] A1 [OF s(2)] sane t1, of p a n False sc s]] False 1(1) C
      by (simp add: msm_read_def unC_sv vts_leq_cmp)
    then show ?thesis using False by simp
  qed
qed

lemma msm_write_clocks:
  assumes inv: "vts_inv V" and len: "length (vts_tab V) + 2 \<le> 2 ^ 30" and b: "bounded \<beta> V"
    and C: "SVal__isC s" and s: "vts_at V (sv_R s) = Some xr" "vts_at V (sv_W s) = Some xw" "vts_leq xw W \<or> vts_leq xr xw"
    and t: "thr_rep V t R W"
  shows "clocks_out \<beta> V (if racy_write W (Clocks xr xw) then [RecordRace p a n True] else [])
     (step_write R W (Clocks xr xw)) (msm_write sc s p t a n V)"
proof -
  from t have T: "vts_at V (viR t) = Some R" "vts_at V (viW t) = Some W" by (simp_all add: thr_rep_def)
  from vstep_getOrdering [OF inv s(2) T(2), of \<beta>] obtain V1 where
    1: "VtsID__getOrdering (sv_W s) (viW t) V = Some (VTS__cmp xw W, V1)" "vstep \<beta> 0 (\<lambda>v. 0) V V1" by blast
  note A1 = vstep_at [OF 1(2)] and inv1 = vstep_inv [OF 1(2)] and b1 = vstep_bounded [OF 1(2) b]
  have l1: "length (vts_tab V1) + 2 \<le> 2 ^ 30" using vstep_len [OF 1(2)] len by simp
  show ?thesis
  proof (cases "vts_leq xw W")
    case True
    have s2: "vstep \<beta> 2 (\<lambda>v. 0) V V1" using vstep_cong [OF 1(2), of 2] by simp
    have "length (vts_tab V1) \<le> 2 ^ 30" using l1 by simp
    from clocks_outI [OF A1 [OF T(2)] A1 [OF T(2)] this s2, of "[]" sc s p a n True]
    show ?thesis using True 1(1) C by (simp add: msm_write_def unC_sv vts_leq_cmp Let_def)
  next
    case False
    then have sane: "vts_leq xr xw" using s(3) by simp
    have t1: "thr_rep V1 t R W" using t A1 by (simp add: thr_rep_def)
    have "clocks_out \<beta> V [RecordRace p a n True] (Clocks (vjoin xr R) (vjoin xw W)) (msm_write sc s p t a n V)"
      using clocks_out_step [OF 1(2) race_clocks [OF inv1 l1 b1 A1 [OF s(1)] A1 [OF s(2)] sane t1, of p a n True sc s]] False 1(1) C
      by (simp add: msm_write_def unC_sv vts_leq_cmp Let_def)
    then show ?thesis using False by simp
  qed
qed

text \<open>Values without clocks: nothing changes and nothing is reported.\<close>

lemma msm_no_clocks:
  assumes "\<not> SVal__isC s" "s = SVal_NOACCESS \<or> SVal__isE s"
  shows "\<exists>s'. msm_read sc s p t a n V = Some (s', [], V) \<and> msm_write sc s p t a n V = Some (s', [], V) \<and> s' \<noteq> SVal_INVALID \<and>
     \<not> SVal__isC s' \<and> (s' = SVal_NOACCESS \<or> SVal__isE s') \<and> hb_val_of V s' = hb_val_of V s"
proof (cases "s = SVal_NOACCESS")
  case True
  have "SVal_NOACCESS \<noteq> SVal_INVALID" by (simp add: SVal_NOACCESS_def SVal_INVALID_def)
  then show ?thesis using True by (intro exI [of _ SVal_NOACCESS]) (simp add: msm_read_def msm_write_def msm_out_def)
next
  case False
  have "SVal__mkE \<noteq> SVal_INVALID" "SVal__mkE \<noteq> SVal_NOACCESS" by (simp_all add: SVal__mkE_def SVal_INVALID_def SVal_NOACCESS_def)
  moreover have "\<not> SVal__isA s" using assms(2) False by (auto simp: SVal__isA_def SVal__isE_def)
  ultimately show ?thesis using False assms
    by (intro exI [of _ SVal__mkE]) (simp add: msm_read_def msm_write_def msm_out_def hb_val_of_def)
qed

text \<open>Both functions, as the shadow memory calls them.\<close>

definition hb_msm_ok :: "hb_sync msm \<Rightarrow> Thr_ptr \<Rightarrow> bool \<Rightarrow> ts_array \<Rightarrow> ts_array \<Rightarrow> (hb_val \<Rightarrow> hb_val) \<Rightarrow> (hb_val \<Rightarrow> bool) \<Rightarrow> bool" where
  "hb_msm_ok msm p isW R W step racy \<longleftrightarrow> (\<forall>u M v k a n. hb_acc u M \<longrightarrow> hb_known u v \<longrightarrow> v \<noteq> SVal_INVALID \<longrightarrow>
     fit_for racy (hb_val_of (hb_vts u) v) \<longrightarrow> hb_room p R W (Suc k) u \<longrightarrow>
     (\<exists>v' ev u'. msm v a n u = Some (v', ev, u') \<and> v' \<noteq> SVal_INVALID \<and> hb_known u' v' \<and> hb_acc u' M \<and> hb_later u u' \<and>
        hb_room p R W k u' \<and> hb_val_of (hb_vts u') v' = step (hb_val_of (hb_vts u) v) \<and>
        filter is_race ev = (if racy (hb_val_of (hb_vts u) v) then [RecordRace p a n isW] else [])))"

lemma hb_msm_clocks:
  assumes a: "hb_acc u M" and r: "hb_room p R W (Suc k) u" and t: "hb_thrs u p = Some t"
    and o: "clocks_out (own_clock u) (hb_vts u) race c res"
  shows "\<exists>v' ev u'. do { (v', ev, V) \<leftarrow> res; Some (v', ev, u\<lparr>hb_vts := V\<rparr>) } = Some (v', ev, u') \<and> v' \<noteq> SVal_INVALID \<and>
     hb_known u' v' \<and> hb_acc u' M \<and> hb_later u u' \<and> hb_room p R W k u' \<and> hb_val_of (hb_vts u') v' = c \<and> filter is_race ev = race"
proof -
  from o obtain s' evs V' where V': "res = Some (s', evs, V')" "vstep (own_clock u) 2 (\<lambda>v. 0) (hb_vts u) V'" "SVal__isC s'"
    "live V' (sv_R s')" "live V' (sv_W s')" "hb_val_of V' s' = c" "filter is_race evs = race" by (auto simp: clocks_out_def)
  let ?u = "u\<lparr>hb_vts := V'\<rparr>"
  have "\<forall>s\<in>#M. hb_known u s" using a by (simp add: hb_acc_def)
  note H = hb_acc_step [OF a V'(2) _ this, simplified]
  have "hb_room p R W k ?u" using r H(2) vstep_len [OF V'(2)] by (auto simp: hb_room_def hb_later_def thr_rep_def)
  moreover have "s' \<noteq> SVal_INVALID" using V'(3) by auto
  ultimately show ?thesis using V' H by (intro exI [of _ s'] exI [of _ evs] exI [of _ ?u]) (simp add: hb_known_def)
qed

lemma hb_room_less: "hb_room p R W (m + k) u \<Longrightarrow> hb_room p R W k u"
  by (auto simp: hb_room_def)

lemma hb_msm_okI:
  assumes msm: "\<And>v a n u. msm v a n u = do { t \<leftarrow> hb_thrs u p; (v', ev, V) \<leftarrow> f v t a n (hb_vts u); Some (v', ev, u\<lparr>hb_vts := V\<rparr>) }"
    and C: "\<And>\<beta> V s xr xw t a n. vts_inv V \<Longrightarrow> length (vts_tab V) + 2 \<le> 2 ^ 30 \<Longrightarrow> bounded \<beta> V \<Longrightarrow> SVal__isC s \<Longrightarrow>
      vts_at V (sv_R s) = Some xr \<Longrightarrow> vts_at V (sv_W s) = Some xw \<Longrightarrow> \<not> racy (Clocks xr xw) \<or> vts_leq xr xw \<Longrightarrow> thr_rep V t R W \<Longrightarrow>
      clocks_out \<beta> V (if racy (Clocks xr xw) then [RecordRace p a n isW] else []) (step (Clocks xr xw)) (f s t a n V)"
    and N: "\<And>s t a n V. \<not> SVal__isC s \<Longrightarrow> s = SVal_NOACCESS \<or> SVal__isE s \<Longrightarrow> \<exists>s'. f s t a n V = Some (s', [], V) \<and>
      s' \<noteq> SVal_INVALID \<and> \<not> SVal__isC s' \<and> (s' = SVal_NOACCESS \<or> SVal__isE s') \<and> hb_val_of V s' = hb_val_of V s"
    and id: "step NoAccess = NoAccess" "step AfterError = AfterError" "\<not> racy NoAccess" "\<not> racy AfterError"
  shows "hb_msm_ok msm p isW R W step racy"
  unfolding hb_msm_ok_def
proof (intro allI impI)
  fix u M v k a n
  assume A: "hb_acc u M" "hb_known u v" "v \<noteq> SVal_INVALID" "fit_for racy (hb_val_of (hb_vts u) v)" "hb_room p R W (Suc k) u"
  from A(5) obtain t where t: "hb_thrs u p = Some t" "thr_rep (hb_vts u) t R W" and
    len: "length (vts_tab (hb_vts u)) + 2 \<le> 2 ^ 30" by (auto simp: hb_room_def)
  have inv: "hb_inv (shadow_refs M) u" using A(1) by (simp add: hb_acc_def)
  show "\<exists>v' ev u'. msm v a n u = Some (v', ev, u') \<and> v' \<noteq> SVal_INVALID \<and> hb_known u' v' \<and> hb_acc u' M \<and> hb_later u u' \<and>
        hb_room p R W k u' \<and> hb_val_of (hb_vts u') v' = step (hb_val_of (hb_vts u) v) \<and>
        filter is_race ev = (if racy (hb_val_of (hb_vts u) v) then [RecordRace p a n isW] else [])"
  proof (cases "SVal__isC v")
    case True
    then obtain xr xw where x: "vts_at (hb_vts u) (sv_R v) = Some xr" "vts_at (hb_vts u) (sv_W v) = Some xw"
      using A(2) by (auto simp: hb_known_def live_def)
    then have val: "hb_val_of (hb_vts u) v = Clocks xr xw" using True by (simp add: hb_val_of_def)
    have "\<not> racy (Clocks xr xw) \<or> vts_leq xr xw" using A(4) val by (auto simp: fit_for_def)
    from hb_msm_clocks [OF A(1,5) t(1) C [OF hb_inv_vts [OF inv] len hb_inv_bounded [OF inv] True x this t(2), of a n]]
    show ?thesis using t(1) msm val by simp
  next
    case False
    then have e: "v = SVal_NOACCESS \<or> SVal__isE v" using A(2) by (simp add: hb_known_def)
    have "hb_val_of (hb_vts u) v \<in> {NoAccess, AfterError}" using False by (simp add: hb_val_of_def)
    moreover from N [OF False e, of t a n "hb_vts u"] obtain s' where s': "f v t a n (hb_vts u) = Some (s', [], hb_vts u)" "s' \<noteq> SVal_INVALID"
      "\<not> SVal__isC s'" "s' = SVal_NOACCESS \<or> SVal__isE s'" "hb_val_of (hb_vts u) s' = hb_val_of (hb_vts u) v" by blast
    moreover have "hb_room p R W k u" using hb_room_less [of p R W 1 k u] A(5) by simp
    ultimately show ?thesis using A(1) msm t(1) id
      by (intro exI [of _ s'] exI [of _ "[]"] exI [of _ u]) (auto simp: hb_known_def hb_later_def)
  qed
qed

lemma hb_msm_read_ok: "hb_msm_ok (hb_msm_read sc p) p False R W (step_read R W) (racy_read R)"
proof (rule hb_msm_okI [of _ _ "\<lambda>v t a n V. msm_read sc v p t a n V"], goal_cases)
  case (2 \<beta> V s xr xw t a n)
  then show ?case using msm_read_clocks [OF 2(1-6) _ 2(8), of p a n sc] by simp
next
  case (3 s t a n V)
  with msm_no_clocks [OF this, of sc p t a n V] show ?case by blast
qed (simp_all add: hb_msm_read_def)

lemma hb_msm_write_ok: "hb_msm_ok (hb_msm_write sc p) p True R W (step_write R W) (racy_write W)"
proof (rule hb_msm_okI [of _ _ "\<lambda>v t a n V. msm_write sc v p t a n V"], goal_cases)
  case (2 \<beta> V s xr xw t a n)
  then show ?case using msm_write_clocks [OF 2(1-6) _ 2(8), of p a n sc] by simp
next
  case (3 s t a n V)
  with msm_no_clocks [OF this, of sc p t a n V] show ?case by blast
qed (simp_all add: hb_msm_write_def)

lemma hb_later_val: "hb_later u u' \<Longrightarrow> hb_known u v \<Longrightarrow> hb_val_of (hb_vts u') v = hb_val_of (hb_vts u) v"
  by (auto simp: hb_later_def hb_known_def hb_val_of_def live_def)

lemma hb_msm_client:
  assumes "hb_msm_ok msm p isW R W step racy"
  shows "msm_client hb_rcinc hb_rcdec hb_known hb_acc hb_kept msm p isW hb_later (hb_room p R W)
    (\<lambda>u. hb_val_of (hb_vts u)) step racy (fit_for racy)"
proof unfold_locales
  show "hb_later u u1 \<Longrightarrow> hb_later u1 u2 \<Longrightarrow> hb_later u u2" for u u1 u2 by (simp add: hb_later_def)
  show "hb_kept u u' \<Longrightarrow> hb_later u u'" for u u' by (simp add: hb_kept_def)
  show "hb_later u u' \<Longrightarrow> hb_known u v \<Longrightarrow> hb_known u' v" for u u' v by (rule hb_known_later)
  show "hb_later u u' \<Longrightarrow> hb_known u v \<Longrightarrow> hb_val_of (hb_vts u') v = hb_val_of (hb_vts u) v" for u u' v by (rule hb_later_val)
  show "hb_kept u u' \<Longrightarrow> hb_room p R W k u \<Longrightarrow> hb_room p R W k u'" for u u' k
    by (auto simp: hb_kept_def hb_later_def hb_room_def thr_rep_def)
  show "hb_room p R W (m + k) u \<Longrightarrow> hb_room p R W k u" for m k u by (rule hb_room_less)
qed (use assms in \<open>auto simp: hb_msm_ok_def\<close>)

interpretation reader: msm_client hb_rcinc hb_rcdec hb_known hb_acc hb_kept "hb_msm_read sc p" p False hb_later "hb_room p R W"
    "\<lambda>u. hb_val_of (hb_vts u)" "step_read R W" "racy_read R" "fit_for (racy_read R)" for sc p R W
  by (rule hb_msm_client [OF hb_msm_read_ok])

interpretation writer: msm_client hb_rcinc hb_rcdec hb_known hb_acc hb_kept "hb_msm_write sc p" p True hb_later "hb_room p R W"
    "\<lambda>u. hb_val_of (hb_vts u)" "step_write R W" "racy_write W" "fit_for (racy_write W)" for sc p R W
  by (rule hb_msm_client [OF hb_msm_write_ok])

end
