(* ===== verification/LibHB_API.thy ===== *)
theory LibHB_API
  imports LibHB
begin

text \<open>
  What the library guarantees to its client, over the whole state: every access to a range changes
  exactly the bytes of the range as the state machine says and reports exactly the racing ones, the
  range operations set and copy shadow state, and a garbage collection changes nothing that a client
  can observe.  All states a client can reach satisfy the invariant.
\<close>

section \<open>The interface of the library\<close>

definition libhb_inv :: "libhb \<Rightarrow> bool" where
  "libhb_inv = hb.zsm_inv"

text \<open>The abstract value of a byte of client memory.\<close>

definition byte_val :: "libhb \<Rightarrow> Addr \<Rightarrow> hb_val" where
  "byte_val z x = hb_val_of (hb_vts (zsm_user z)) (shadow z x)"

definition race_reported :: "hb_event list \<Rightarrow> Addr \<Rightarrow> bool" where
  "race_reported evs x \<longleftrightarrow> (\<exists>e\<in>set (filter is_race evs). in_range (ev_addr e) (ev_szB e) x)"

text \<open>Threads, synchronisation objects and their clocks are the same.\<close>

definition same_clocks :: "hb_sync \<Rightarrow> hb_sync \<Rightarrow> bool" where
  "same_clocks u u' \<longleftrightarrow> hb_thrs u' = hb_thrs u \<and> hb_sos u' = hb_sos u \<and>
     (\<forall>p t. hb_thrs u p = Some t \<longrightarrow>
        vts_at (hb_vts u') (viR t) = vts_at (hb_vts u) (viR t) \<and> vts_at (hb_vts u') (viW t) = vts_at (hb_vts u) (viW t)) \<and>
     (\<forall>q s. hb_sos u q = Some s \<and> sent s \<longrightarrow>
        vts_at (hb_vts u') (so_viR s) = vts_at (hb_vts u) (so_viR s) \<and> vts_at (hb_vts u') (so_viW s) = vts_at (hb_vts u) (so_viW s))"

lemma libhb_inv_hb:
  assumes "libhb_inv z"
  shows "hb_acc (zsm_user z) (refs {} z)" "hb_inv (shadow_refs (refs {} z)) (zsm_user z)"
  using hb.zsm_invD(1) [of z] assms by (simp_all add: libhb_inv_def hb.counted_def hb_acc_def)

lemma later_same_clocks:
  assumes "libhb_inv z" "hb_later (zsm_user z) u'"
  shows "same_clocks (zsm_user z) u'"
  using hb_inv_thr [OF libhb_inv_hb(2) [OF assms(1)]] hb_inv_so [OF libhb_inv_hb(2) [OF assms(1)]] assms(2)
  by (fastforce simp: same_clocks_def hb_later_def thr_ok_def so_ok_def clock_ok_def sent_def)

lemma byte_val_later:
  assumes "libhb_inv z" "hb_later (zsm_user z) (zsm_user z')" "shadow z' x = shadow z x"
  shows "byte_val z' x = byte_val z x"
  using hb_later_val [OF assms(2) hb.shadow_known(1)] assms(1,3) by (simp add: byte_val_def libhb_inv_def)

text \<open>
  The outcome of an access to \<open>n\<close> bytes from \<open>a\<close> on by the thread \<open>p\<close>: each byte of the range makes the
  step of the specification, no other byte changes, a byte is reported iff it races, and at most two
  timestamps per byte are added to the table.
\<close>

definition accessed ::
  "Thr_ptr \<Rightarrow> bool \<Rightarrow> (hb_val \<Rightarrow> hb_val) \<Rightarrow> (hb_val \<Rightarrow> bool) \<Rightarrow> Addr \<Rightarrow> nat \<Rightarrow> libhb \<Rightarrow> hb_event list \<Rightarrow> libhb \<Rightarrow> bool" where
  "accessed p isW step racy a n z evs z' \<longleftrightarrow>
     libhb_inv z' \<and> same_clocks (zsm_user z) (zsm_user z') \<and>
     (\<forall>k. length (vts_tab (hb_vts (zsm_user z))) + 2 * (n + k) \<le> 2 ^ 30 \<longrightarrow>
          length (vts_tab (hb_vts (zsm_user z'))) + 2 * k \<le> 2 ^ 30) \<and>
     (\<forall>x. byte_val z' x = (if in_range a n x then step (byte_val z x) else byte_val z x)) \<and>
     (\<forall>x. race_reported evs x \<longleftrightarrow> in_range a n x \<and> racy (byte_val z x)) \<and>
     (\<forall>e\<in>set (filter is_race evs). ev_thr e = p \<and> ev_isW e = isW)"

definition can_access :: "Thr_ptr \<Rightarrow> ts_array \<Rightarrow> ts_array \<Rightarrow> (hb_val \<Rightarrow> bool) \<Rightarrow> Addr \<Rightarrow> nat \<Rightarrow> libhb \<Rightarrow> bool" where
  "can_access p R W racy a n z \<longleftrightarrow> hb_room p R W n (zsm_user z) \<and> client_range a n \<and>
     (\<forall>x. in_range a n x \<longrightarrow> fit_for racy (byte_val z x))"

lemma reader_may_apply: "reader.may_apply p R W a n ([], z) \<longleftrightarrow> libhb_inv z \<and> can_access p R W (racy_read R) a n z"
  by (auto simp: reader.may_apply_def can_access_def libhb_inv_def byte_val_def)

lemma writer_may_apply: "writer.may_apply p R W a n ([], z) \<longleftrightarrow> libhb_inv z \<and> can_access p R W (racy_write W) a n z"
  by (auto simp: writer.may_apply_def can_access_def libhb_inv_def byte_val_def)

lemma reader_applied:
  assumes z: "libhb_inv z" "can_access p R W (racy_read R) a n z" and a: "reader.applied p R W a n ([], z) (evs, z')"
  shows "accessed p False (step_read R W) (racy_read R) a n z evs z'"
proof -
  have "length (vts_tab (hb_vts (zsm_user z'))) + 2 * k \<le> 2 ^ 30" if "length (vts_tab (hb_vts (zsm_user z))) + 2 * (n + k) \<le> 2 ^ 30" for k
    using z(2) a that by (auto simp: reader.applied_def can_access_def hb_room_def)
  then show ?thesis
    using a later_same_clocks [OF z(1), of "zsm_user z'"] byte_val_later [OF z(1), of z']
    by (auto simp: reader.applied_def accessed_def libhb_inv_def byte_val_def race_reported_def reader.flagged_def split: if_splits)
qed

lemma writer_applied:
  assumes z: "libhb_inv z" "can_access p R W (racy_write W) a n z" and a: "writer.applied p R W a n ([], z) (evs, z')"
  shows "accessed p True (step_write R W) (racy_write W) a n z evs z'"
proof -
  have "length (vts_tab (hb_vts (zsm_user z'))) + 2 * k \<le> 2 ^ 30" if "length (vts_tab (hb_vts (zsm_user z))) + 2 * (n + k) \<le> 2 ^ 30" for k
    using z(2) a that by (auto simp: writer.applied_def can_access_def hb_room_def)
  then show ?thesis
    using a later_same_clocks [OF z(1), of "zsm_user z'"] byte_val_later [OF z(1), of z']
    by (auto simp: writer.applied_def accessed_def libhb_inv_def byte_val_def race_reported_def writer.flagged_def split: if_splits)
qed

lemma read_ok:
  assumes f: "reader.apply_ok p R W n f" and z: "libhb_inv z" "can_access p R W (racy_read R) a n z"
  shows "\<exists>evs z'. f a ([], z) = Some (evs, z') \<and> accessed p False (step_read R W) (racy_read R) a n z evs z'"
proof -
  have "reader.may_apply p R W a (n + 0) ([], z)" using z reader_may_apply by simp
  with f obtain l where l: "f a ([], z) = Some l" "reader.applied p R W a n ([], z) l" unfolding reader.apply_ok_def by blast
  then show ?thesis using reader_applied [OF z, of "fst l" "snd l"] by (intro exI [of _ "fst l"] exI [of _ "snd l"]) simp
qed

lemma write_ok:
  assumes f: "writer.apply_ok p R W n f" and z: "libhb_inv z" "can_access p R W (racy_write W) a n z"
  shows "\<exists>evs z'. f a ([], z) = Some (evs, z') \<and> accessed p True (step_write R W) (racy_write W) a n z evs z'"
proof -
  have "writer.may_apply p R W a (n + 0) ([], z)" using z writer_may_apply by simp
  with f obtain l where l: "f a ([], z) = Some l" "writer.applied p R W a n ([], z) l" unfolding writer.apply_ok_def by blast
  then show ?thesis using writer_applied [OF z, of "fst l" "snd l"] by (intro exI [of _ "fst l"] exI [of _ "snd l"]) simp
qed

lemma range_instances:
  "zsm_apply_range___msm_read sc p a len z = zsm_apply_range (hb_msm_read sc p) a len z"
  "zsm_apply_range___msm_write sc p a len z = zsm_apply_range (hb_msm_write sc p) a len z"
  by (simp_all add: zsm_apply_range___msm_read_def zsm_apply_range___msm_write_def zsm_apply_range_def
      zsm_apply8___msm_read_def zsm_apply16___msm_read_def zsm_apply32___msm_read_def zsm_apply64___msm_read_def
      zsm_apply8___msm_write_def zsm_apply16___msm_write_def zsm_apply32___msm_write_def zsm_apply64___msm_write_def)

lemma range_read_spec:
  assumes z: "libhb_inv z" "can_access p R W (racy_read R) a (unat len) z"
  shows "\<exists>evs z'. zsm_apply_range___msm_read sc p a len z = Some (evs, z') \<and>
     accessed p False (step_read R W) (racy_read R) a (unat len) z evs z'"
proof -
  from z have "\<exists>evs z'. zsm_apply_range (hb_msm_read sc p) a len z = Some (evs, z') \<and> reader.applied p R W a (unat len) ([], z) (evs, z')"
    by (intro reader.apply_range_spec) (auto simp: can_access_def libhb_inv_def byte_val_def)
  then show ?thesis using reader_applied [OF z] range_instances(1) by fastforce
qed

lemma range_write_spec:
  assumes z: "libhb_inv z" "can_access p R W (racy_write W) a (unat len) z"
  shows "\<exists>evs z'. zsm_apply_range___msm_write sc p a len z = Some (evs, z') \<and>
     accessed p True (step_write R W) (racy_write W) a (unat len) z evs z'"
proof -
  from z have "\<exists>evs z'. zsm_apply_range (hb_msm_write sc p) a len z = Some (evs, z') \<and> writer.applied p R W a (unat len) ([], z) (evs, z')"
    by (intro writer.apply_range_spec) (auto simp: can_access_def libhb_inv_def byte_val_def)
  then show ?thesis using writer_applied [OF z] range_instances(2) by fastforce
qed

section \<open>Setting, copying and collecting\<close>

lemma wrote_byte_val:
  assumes z: "libhb_inv z" and w: "hb.wrote a n v z z'"
  shows "libhb_inv z'" "same_clocks (zsm_user z) (zsm_user z')"
    "byte_val z' x = (if in_range a n x then hb_val_of (hb_vts (zsm_user z')) v else byte_val z x)"
  using w later_same_clocks [OF z, of "zsm_user z'"] byte_val_later [OF z, of z' x]
  by (auto simp: hb.wrote_def libhb_inv_def hb_kept_def byte_val_def)

lemma range_new_spec:
  assumes z: "libhb_inv z" and t: "hb_thrs (zsm_user z) p = Some t" "vts_at (hb_vts (zsm_user z)) (viW t) = Some W"
    and len: "length (vts_tab (hb_vts (zsm_user z))) \<le> 2 ^ 30" and c: "client_range a (unat szB)"
  shows "\<exists>z'. libhb_range_new p a szB z = Some z' \<and> libhb_inv z' \<and> same_clocks (zsm_user z) (zsm_user z') \<and>
     (\<forall>x. byte_val z' x = (if in_range a (unat szB) x then Clocks W W else byte_val z x))"
proof -
  let ?u = "zsm_user z" and ?sv = "SVal__mkC (viW t) (viW t)"
  note H = libhb_inv_hb [OF z]
  have v30: "viW t < 2 ^ 30" using live_small [OF t(2) len] .
  note mk = isC_mkC [OF v30] sv_mkC [OF v30]
  from vstep_getOrdering [OF hb_inv_vts [OF H(2)] t(2) t(2), of "own_clock ?u"] obtain V where
    V: "VtsID__getOrdering (viW t) (viW t) (hb_vts ?u) = Some (VTS__cmp W W, V)" "vstep (own_clock ?u) 0 (\<lambda>v. 0) (hb_vts ?u) V" by blast
  have "vts_leq W W" using vts_leq_refl [OF vts_at_wf [OF hb_inv_vts [OF H(2)] t(2)]] .
  then have sane: "is_sane_SVal_C ?sv (hb_vts ?u) = Some (True, V)"
    using V(1) mk unC_Rmin_mkC [OF v30] unC_Wmin_mkC [OF v30] by (simp add: is_sane_SVal_C_def vts_leq_cmp)
  let ?u1 = "?u\<lparr>hb_vts := V\<rparr>"
  let ?z1 = "z\<lparr>zsm_user := ?u1\<rparr>"
  have "\<forall>s\<in>#refs {} z. hb_known ?u s" using H(1) by (simp add: hb_acc_def)
  from hb_acc_step [OF H(1) V(2) _ this] have a: "hb_acc ?u1 (refs {} z)" "hb_later ?u ?u1" by simp_all
  have z1: "libhb_inv ?z1" "shadow ?z1 = shadow z"
    using hb.user_change [of z ?u1] z a hb_known_later [OF a(2)] by (simp_all add: libhb_inv_def)
  have W1: "vts_at V (viW t) = Some W" using vstep_at [OF V(2) t(2)] .
  have kn: "hb_known (zsm_user ?z1) ?sv" "?sv \<noteq> SVal_INVALID" using W1 mk v30 by (simp_all add: hb_known_def live_def)
  from hb.set_range_spec [OF _ c kn] z1(1) obtain z' where
    z': "zsm_set_range a szB ?sv ?z1 = Some z'" "hb.wrote a (unat szB) ?sv ?z1 z'" by (auto simp: libhb_inv_def)
  have W2: "vts_at (hb_vts (zsm_user z')) (viW t) = Some W"
    using z'(2) W1 by (auto simp: hb.wrote_def hb_kept_def hb_later_def)
  note B = wrote_byte_val [OF z1(1) z'(2)]
  have "byte_val z' x = (if in_range a (unat szB) x then Clocks W W else byte_val z x)" for x
    using B(3) [of x] W2 mk byte_val_later [OF z, of ?z1 x] a(2) z1(2) by (simp add: hb_val_of_def)
  moreover have "same_clocks ?u (zsm_user z')"
    using B(2) later_same_clocks [OF z a(2)] by (auto simp: same_clocks_def)
  ultimately show ?thesis using B(1) z'(1) sane t(1) by (intro exI [of _ z']) (simp add: libhb_range_new_def)
qed

lemma range_noaccess_spec:
  assumes z: "libhb_inv z" and c: "client_range a (unat szB)"
  shows "\<exists>z'. libhb_range_noaccess p a szB z = Some z' \<and> libhb_inv z' \<and> same_clocks (zsm_user z) (zsm_user z') \<and>
     (\<forall>x. byte_val z' x = (if in_range a (unat szB) x then NoAccess else byte_val z x))"
proof -
  have eq: "SVal__mkA = SVal_NOACCESS" by (simp add: SVal__mkA_def SVal_NOACCESS_def)
  have "SVal_NOACCESS \<noteq> SVal_INVALID" by (simp add: SVal_NOACCESS_def SVal_INVALID_def)
  with hb.set_range_spec [OF _ c, of z SVal_NOACCESS] hb.known_NOACCESS z obtain z' where
    z': "zsm_set_range a szB SVal_NOACCESS z = Some z'" "hb.wrote a (unat szB) SVal_NOACCESS z z'" by (auto simp: libhb_inv_def)
  then show ?thesis using wrote_byte_val [OF z z'(2)] eq by (auto simp: libhb_range_noaccess_def hb_val_of_def)
qed

lemma copy_spec:
  assumes z: "libhb_inv z" and c: "client_range a (unat len)" "client_range b (unat len)"
    and d: "unat a + unat len \<le> unat b \<or> unat b + unat len \<le> unat a"
  shows "\<exists>z'. libhb_copy_shadow_state a b len z = Some z' \<and> libhb_inv z' \<and> same_clocks (zsm_user z) (zsm_user z') \<and>
     (\<forall>x. byte_val z' x = (if in_range b (unat len) x then byte_val z (a + (x - b)) else byte_val z x))"
proof -
  from hb.copy_range_spec [OF _ c d] z obtain z' where
    z': "zsm_copy_range a b len z = Some z'" "hb.copied a b (unat len) z z'" by (auto simp: libhb_inv_def)
  then have k: "hb_later (zsm_user z) (zsm_user z')" "libhb_inv z'" by (auto simp: hb.copied_def hb_kept_def libhb_inv_def)
  have v: "hb_val_of (hb_vts (zsm_user z')) (shadow z y) = byte_val z y" for y
    using hb_later_val [OF k(1) hb.shadow_known(1)] z by (simp add: byte_val_def libhb_inv_def)
  have "byte_val z' x = (if in_range b (unat len) x then byte_val z (a + (x - b)) else byte_val z x)" for x
    using z'(2) v by (simp add: hb.copied_def byte_val_def [of z'])
  then show ?thesis using z'(1) k later_same_clocks [OF z k(1)] by (intro exI [of _ z']) (simp add: libhb_copy_shadow_state_def)
qed

text \<open>Identifiers that threads and synchronisation objects use are counted, so a sweep keeps them.\<close>

lemma used_counted:
  assumes inv: "hb_inv E u"
  shows "hb_thrs u p = Some t \<Longrightarrow> vts_rc (hb_vts u) (viR t) \<noteq> 0 \<and> vts_rc (hb_vts u) (viW t) \<noteq> 0"
    and "hb_sos u q = Some s \<Longrightarrow> sent s \<Longrightarrow> vts_rc (hb_vts u) (so_viR s) \<noteq> 0 \<and> vts_rc (hb_vts u) (so_viW s) \<noteq> 0"
proof -
  assume t: "hb_thrs u p = Some t"
  have "1 \<le> thr_refs (viR t) t" "1 \<le> thr_refs (viW t) t" by (simp_all add: thr_refs_def one_def)
  then show "vts_rc (hb_vts u) (viR t) \<noteq> 0 \<and> vts_rc (hb_vts u) (viW t) \<noteq> 0"
    using refs_counted(1) [OF inv t, of "viR t"] refs_counted(1) [OF inv t, of "viW t"] by auto
next
  assume s: "hb_sos u q = Some s" "sent s"
  have "1 \<le> so_refs (so_viR s) s" "1 \<le> so_refs (so_viW s) s" using s(2) by (simp_all add: so_refs_def one_def sent_def)
  then show "vts_rc (hb_vts u) (so_viR s) \<noteq> 0 \<and> vts_rc (hb_vts u) (so_viW s) \<noteq> 0"
    using refs_counted(2) [OF inv s(1), of "so_viR s"] refs_counted(2) [OF inv s(1), of "so_viW s"] by auto
qed

lemma sweep_hb_inv:
  assumes inv: "hb_inv E u" and V': "vts_inv V'" "vts_rc V' = vts_rc (hb_vts u)"
    "vts_at V' = (\<lambda>v. if vts_rc (hb_vts u) v = 0 then None else vts_at (hb_vts u) v)"
  shows "hb_inv E (u\<lparr>hb_vts := V'\<rparr>)" "same_clocks u (u\<lparr>hb_vts := V'\<rparr>)"
proof -
  let ?u = "u\<lparr>hb_vts := V'\<rparr>"
  have eq: "vts_at V' v = vts_at (hb_vts u) v" if "vts_rc (hb_vts u) v \<noteq> 0" for v using that V'(3) by simp
  have T: "vts_at V' (viR t) = vts_at (hb_vts u) (viR t)" "vts_at V' (viW t) = vts_at (hb_vts u) (viW t)" if "hb_thrs u p = Some t" for p t
    using used_counted(1) [OF inv that] eq by auto
  have S: "vts_at V' (so_viR s) = vts_at (hb_vts u) (so_viR s)" "vts_at V' (so_viW s) = vts_at (hb_vts u) (so_viW s)"
    if "hb_sos u q = Some s" "sent s" for q s
    using used_counted(2) [OF inv that] eq by auto
  show "same_clocks u ?u" using T S by (auto simp: same_clocks_def)
  have own: "own_clock ?u = own_clock u" using T by (auto simp: own_clock_def fun_eq_iff split: option.split)
  have "bounded (own_clock u) V'" using hb_inv_bounded [OF inv] V'(3) by (auto simp: bounded_def split: if_splits)
  moreover have "thr_ok V' p t" if "hb_thrs u p = Some t" for p t
    using hb_inv_thr [OF inv that] T [OF that] by (simp add: thr_ok_def)
  moreover have "so_ok V' s" if "hb_sos u q = Some s" for q s
  proof (cases "sent s")
    case True
    then show ?thesis using hb_inv_so [OF inv that] S [OF that True] by (simp add: so_ok_def clock_ok_def)
  next
    case False
    then show ?thesis using hb_inv_so [OF inv that] so_unsent [OF inv that] by (simp add: so_ok_def)
  qed
  ultimately show "hb_inv E ?u" using inv V' own by (simp add: hb_inv_def)
qed

lemma stored_counted:
  assumes a: "hb_acc u M" and s: "s \<in># M" and c: "SVal__isC s"
  shows "vts_rc (hb_vts u) (sv_R s) \<noteq> 0" "vts_rc (hb_vts u) (sv_W s) \<noteq> 0"
proof -
  from a have inv: "hb_inv (shadow_refs M) u" by (simp add: hb_acc_def)
  from s obtain N where N: "M = add_mset s N" by (metis multi_member_split)
  have "0 \<le> msum (thr_refs v) (hb_thrs u)" "0 \<le> msum (so_refs v) (hb_sos u)" for v
    by (simp_all add: msum_nonneg thr_refs_nonneg so_refs_nonneg)
  then have "sval_refs v s \<le> uint (vts_rc (hb_vts u) v)" for v
    using hb_inv_rc [OF inv, of v] shadow_refs_bounds(1) [of N v] unfolding N shadow_refs_add by (smt (verit))
  then have "sval_refs (sv_R s) s \<le> uint (vts_rc (hb_vts u) (sv_R s))" "sval_refs (sv_W s) s \<le> uint (vts_rc (hb_vts u) (sv_W s))" by blast+
  moreover have "1 \<le> sval_refs (sv_R s) s" "1 \<le> sval_refs (sv_W s) s" using c by (simp_all add: sval_refs_def one_def)
  ultimately show "vts_rc (hb_vts u) (sv_R s) \<noteq> 0" "vts_rc (hb_vts u) (sv_W s) \<noteq> 0" by auto
qed

lemma GC_begin_step:
  assumes inv: "vts_inv V" and fl: "vts_tab_freelist V = VtsID_INVALID"
  shows "\<exists>V1. vts_tab__do_GC_begin V = Some V1 \<and> vstep \<beta> 0 (\<lambda>v. 0) V V1 \<and> no_caches V1 \<and> vts_tab V1 = vts_tab V"
proof -
  let ?V = "VtsID__invalidate_caches V"
  have nc: "no_caches ?V" by (simp add: no_caches_def VtsID__invalidate_caches_def)
  have tab: "vts_tab ?V = vts_tab V" by (simp add: VtsID__invalidate_caches_def)
  have "vts_inv ?V" by (rule vts_inv_caches [OF inv no_caches_ok [OF nc]]) (simp_all add: VtsID__invalidate_caches_def)
  then have "vstep \<beta> 0 (\<lambda>v. 0) V ?V" using vts_at_cong [OF tab] vts_rc_cong [OF tab] tab by (simp add: vstep_def bounded_def)
  then show ?thesis using nc tab fl by (simp add: vts_tab__do_GC_begin_def)
qed

text \<open>
  The collection: the flush makes the counts exact for every shadow value, so what the sweep frees is
  used nowhere.
\<close>

lemma live_nonempty: "vts_at V v = Some x \<Longrightarrow> 0 < length (vts_tab V)"
  by (auto simp: vts_at_def VtsID__to_VTS_def index_opt_def split: if_splits)

text \<open>The references to an identifier from threads, from synchronisation objects and from stored shadow values.\<close>

definition refs_to :: "libhb \<Rightarrow> VtsID \<Rightarrow> int" where
  "refs_to z v = msum (thr_refs v) (hb_thrs (zsm_user z)) + msum (so_refs v) (hb_sos (zsm_user z)) + shadow_refs (refs {} z) v"

lemma do_GC_spec:
  assumes z: "libhb_inv z" and fl: "vts_tab_freelist (hb_vts (zsm_user z)) = VtsID_INVALID"
    and ne: "verb \<le> 1 \<or> vts_at (hb_vts (zsm_user z)) v0 \<noteq> None"
  shows "\<exists>z'. vts_tab__do_GC verb z = Some z' \<and> libhb_inv z' \<and> same_clocks (zsm_user z) (zsm_user z') \<and>
     byte_val z' = byte_val z \<and> (\<forall>w<N_WAY_NENT. tags0 z' ! w = 1) \<and>
     int (length (vts_tab (hb_vts (zsm_user z')))) \<le> vts_next_GC_at (hb_vts (zsm_user z')) \<and>
     (\<forall>v. vts_at (hb_vts (zsm_user z')) v = (if refs_to z' v = 0 then None else vts_at (hb_vts (zsm_user z)) v))"
proof -
  let ?u = "zsm_user z"
  note H = libhb_inv_hb [OF z]
  from GC_begin_step [OF hb_inv_vts [OF H(2)] fl, of "own_clock ?u"] obtain V1 where
    1: "vts_tab__do_GC_begin (hb_vts ?u) = Some V1" "vstep (own_clock ?u) 0 (\<lambda>v. 0) (hb_vts ?u) V1" "no_caches V1" "vts_tab V1 = vts_tab (hb_vts ?u)" by blast
  have vts_at_begin: "vts_at V1 = vts_at (hb_vts ?u)" using vts_at_cong [OF 1(4)] .
  let ?u1 = "?u\<lparr>hb_vts := V1\<rparr>"
  let ?z1 = "z\<lparr>zsm_user := ?u1\<rparr>"
  have "\<forall>s\<in>#refs {} z. hb_known ?u s" using H(1) by (simp add: hb_acc_def)
  from hb_acc_step [OF H(1) 1(2) _ this] have a: "hb_acc ?u1 (refs {} z)" "hb_later ?u ?u1" by simp_all
  have z1: "libhb_inv ?z1" "shadow ?z1 = shadow z"
    using hb.user_change [of z ?u1] z a hb_known_later [OF a(2)] by (simp_all add: libhb_inv_def)
  from hb.flush_cache_spec [of ?z1] z1(1) obtain z2 where
    2: "zsm_flush_cache ?z1 = Some z2" "libhb_inv z2" "hb_kept ?u1 (zsm_user z2)" "shadow z2 = shadow z"
      "\<forall>w<N_WAY_NENT. tags0 z2 ! w = 1" by (auto simp: libhb_inv_def z1(2))
  let ?u2 = "zsm_user z2"
  note H2 = libhb_inv_hb [OF 2(2)]
  have l2: "hb_later ?u ?u2" using 2(3) a(2) by (auto simp: hb_kept_def hb_later_def)
  have nc: "no_caches (hb_vts ?u2)" using 2(3) 1(3) by (simp add: hb_kept_def)
  from do_GC_sweep_spec [OF hb_inv_vts [OF H2(2)] nc] obtain V3 where
    3: "vts_tab__do_GC_sweep (hb_vts ?u2) = Some V3" "vts_inv V3" "vts_rc V3 = vts_rc (hb_vts ?u2)" "int (length (vts_tab V3)) \<le> vts_next_GC_at V3"
      "vts_at V3 = (\<lambda>v. if vts_rc (hb_vts ?u2) v = 0 then None else vts_at (hb_vts ?u2) v)" by blast
  let ?u3 = "?u2\<lparr>hb_vts := V3\<rparr>"
  let ?z3 = "z2\<lparr>zsm_user := ?u3\<rparr>"
  note S = sweep_hb_inv [OF H2(2) 3(2,3,5)]
  have kn: "hb_known ?u3 s \<and> hb_val_of V3 s = hb_val_of (hb_vts ?u2) s" if "s = SVal_NOACCESS \<or> s \<in># refs {} z2" for s
  proof (cases "SVal__isC s")
    case True
    then have s: "s \<in># refs {} z2" using that by auto
    then have "hb_known ?u2 s" using H2(1) by (simp add: hb_acc_def)
    then show ?thesis using stored_counted [OF H2(1) s True] True 3(5) by (simp add: hb_known_def live_def hb_val_of_def)
  next
    case False
    have "hb_known ?u2 s" using that H2(1) by (auto simp: hb_acc_def hb_known_def)
    then show ?thesis using False by (simp add: hb_known_def hb_val_of_def)
  qed
  have acc3: "hb_acc ?u3 (refs {} z2)" using S(1) H2(1) kn by (auto simp: hb_acc_def)
  have inv3: "libhb_inv ?z3" "shadow ?z3 = shadow z"
    using hb.flushed_change [of z2 ?u3] 2(2,4,5) kn acc3 by (simp_all add: libhb_inv_def)
  have "byte_val ?z3 x = byte_val z x" for x
  proof -
    have "shadow z2 x = SVal_NOACCESS \<or> shadow z2 x \<in># refs {} z2"
      using hb.flushed_counted [of z2 x] 2(2,5) by (simp add: libhb_inv_def)
    then have "hb_val_of V3 (shadow z x) = hb_val_of (hb_vts ?u2) (shadow z x)" using kn [of "shadow z2 x"] 2(4) by simp
    then show ?thesis using byte_val_later [OF z l2, of x] 2(4) inv3(2) by (simp add: byte_val_def)
  qed
  moreover have "same_clocks ?u ?u3" using S(2) later_same_clocks [OF z l2] by (auto simp: same_clocks_def)
  moreover have at2: "vts_at (hb_vts ?u2) = vts_at (hb_vts ?u)"
    using 2(3) vts_at_begin by (simp add: hb_kept_def)
  moreover have "vts_tab__do_GC verb z = Some ?z3"
    using 1(1) 2(1) 3(1) ne at2 live_nonempty [of "hb_vts ?u2" v0] by (auto simp: vts_tab__do_GC_def on_user_def upd_vts_def Let_def)
  moreover have "vts_at V3 v = (if refs_to ?z3 v = 0 then None else vts_at (hb_vts ?u) v)" for v
  proof -
    have "refs_to ?z3 v = uint (vts_rc (hb_vts ?u2) v)" using hb_inv_rc [OF H2(2), of v] by (simp add: refs_to_def)
    then show ?thesis using 3(5) at2 by (simp add: word_uint_eq_iff)
  qed
  ultimately show ?thesis using inv3(1) 3(4) 2(5) by (intro exI [of _ ?z3]) (simp add: fun_eq_iff)
qed

lemma maybe_GC_spec:
  assumes z: "libhb_inv z" and ne: "verb \<le> 1 \<or> vts_at (hb_vts (zsm_user z)) v0 \<noteq> None"
  shows "\<exists>z'. libhb_maybe_GC verb z = Some z' \<and> libhb_inv z' \<and> same_clocks (zsm_user z) (zsm_user z') \<and> byte_val z' = byte_val z"
  using do_GC_spec [OF z _ ne] z by (auto simp: libhb_maybe_GC_def Let_def same_clocks_def)

section \<open>Access macros\<close>

definition LIBHB_READ_1 :: "bool \<Rightarrow> Thr_ptr \<Rightarrow> Addr \<Rightarrow> libhb \<Rightarrow> hb_sync logged option" where
  "LIBHB_READ_1 sc p a z = zsm_apply8___msm_read sc p a ([], z)"

definition LIBHB_READ_2 :: "bool \<Rightarrow> Thr_ptr \<Rightarrow> Addr \<Rightarrow> libhb \<Rightarrow> hb_sync logged option" where
  "LIBHB_READ_2 sc p a z = zsm_apply16___msm_read sc p a ([], z)"

definition LIBHB_READ_4 :: "bool \<Rightarrow> Thr_ptr \<Rightarrow> Addr \<Rightarrow> libhb \<Rightarrow> hb_sync logged option" where
  "LIBHB_READ_4 sc p a z = zsm_apply32___msm_read sc p a ([], z)"

definition LIBHB_READ_8 :: "bool \<Rightarrow> Thr_ptr \<Rightarrow> Addr \<Rightarrow> libhb \<Rightarrow> hb_sync logged option" where
  "LIBHB_READ_8 sc p a z = zsm_apply64___msm_read sc p a ([], z)"

definition LIBHB_WRITE_1 :: "bool \<Rightarrow> Thr_ptr \<Rightarrow> Addr \<Rightarrow> libhb \<Rightarrow> hb_sync logged option" where
  "LIBHB_WRITE_1 sc p a z = zsm_apply8___msm_write sc p a ([], z)"

definition LIBHB_WRITE_2 :: "bool \<Rightarrow> Thr_ptr \<Rightarrow> Addr \<Rightarrow> libhb \<Rightarrow> hb_sync logged option" where
  "LIBHB_WRITE_2 sc p a z = zsm_apply16___msm_write sc p a ([], z)"

definition LIBHB_WRITE_4 :: "bool \<Rightarrow> Thr_ptr \<Rightarrow> Addr \<Rightarrow> libhb \<Rightarrow> hb_sync logged option" where
  "LIBHB_WRITE_4 sc p a z = zsm_apply32___msm_write sc p a ([], z)"

definition LIBHB_WRITE_8 :: "bool \<Rightarrow> Thr_ptr \<Rightarrow> Addr \<Rightarrow> libhb \<Rightarrow> hb_sync logged option" where
  "LIBHB_WRITE_8 sc p a z = zsm_apply64___msm_write sc p a ([], z)"

lemmas macro_defs = LIBHB_READ_1_def LIBHB_READ_2_def LIBHB_READ_4_def LIBHB_READ_8_def
  LIBHB_WRITE_1_def LIBHB_WRITE_2_def LIBHB_WRITE_4_def LIBHB_WRITE_8_def
  zsm_apply8___msm_read_def zsm_apply16___msm_read_def zsm_apply32___msm_read_def zsm_apply64___msm_read_def
  zsm_apply8___msm_write_def zsm_apply16___msm_write_def zsm_apply32___msm_write_def zsm_apply64___msm_write_def

text \<open>The accesses of a fixed size, by their size in bytes.\<close>

definition LIBHB_READ :: "nat \<Rightarrow> bool \<Rightarrow> Thr_ptr \<Rightarrow> Addr \<Rightarrow> libhb \<Rightarrow> hb_sync logged option" where
  "LIBHB_READ n = (if n = 1 then LIBHB_READ_1 else if n = 2 then LIBHB_READ_2 else if n = 4 then LIBHB_READ_4 else LIBHB_READ_8)"

definition LIBHB_WRITE :: "nat \<Rightarrow> bool \<Rightarrow> Thr_ptr \<Rightarrow> Addr \<Rightarrow> libhb \<Rightarrow> hb_sync logged option" where
  "LIBHB_WRITE n = (if n = 1 then LIBHB_WRITE_1 else if n = 2 then LIBHB_WRITE_2 else if n = 4 then LIBHB_WRITE_4 else LIBHB_WRITE_8)"

lemma sized_read_spec:
  assumes n: "n \<in> {1, 2, 4, 8}" and z: "libhb_inv z" "can_access p R W (racy_read R) a n z"
  shows "\<exists>evs z'. LIBHB_READ n sc p a z = Some (evs, z') \<and> accessed p False (step_read R W) (racy_read R) a n z evs z'"
  using n read_ok [OF reader.apply8_ok z(1), of p R W a sc] read_ok [OF reader.apply16_ok z(1), of p R W a sc]
    read_ok [OF reader.apply32_ok z(1), of p R W a sc] read_ok [OF reader.apply64_ok z(1), of p R W a sc] z(2)
  by (elim insertE emptyE; simp add: LIBHB_READ_def macro_defs)

lemma sized_write_spec:
  assumes n: "n \<in> {1, 2, 4, 8}" and z: "libhb_inv z" "can_access p R W (racy_write W) a n z"
  shows "\<exists>evs z'. LIBHB_WRITE n sc p a z = Some (evs, z') \<and> accessed p True (step_write R W) (racy_write W) a n z evs z'"
  using n write_ok [OF writer.apply8_ok z(1), of p R W a sc] write_ok [OF writer.apply16_ok z(1), of p R W a sc]
    write_ok [OF writer.apply32_ok z(1), of p R W a sc] write_ok [OF writer.apply64_ok z(1), of p R W a sc] z(2)
  by (elim insertE emptyE; simp add: LIBHB_WRITE_def macro_defs)

section \<open>Reachable states\<close>

text \<open>
  The client calls any operation of the library, with live objects, on client addresses, and on bytes
  whose constraint does not make the state machine fail, while no machine-sized counter is at its limit.
\<close>

definition libhb_ready :: "libhb \<Rightarrow> bool" where
  "libhb_ready z \<longleftrightarrow> ready (zsm_user z) \<and> (\<forall>v. uint (vts_rc (hb_vts (zsm_user z)) v) < 2 ^ 62)"

inductive libhb_step :: "libhb \<Rightarrow> libhb \<Rightarrow> bool" where
  lib_sync: "hb_step (zsm_user z) u \<Longrightarrow> libhb_step z (z\<lparr>zsm_user := u\<rparr>)"
| lib_read: "LIBHB_READ n sc p a z = Some (evs, z') \<Longrightarrow> n \<in> {1, 2, 4, 8} \<Longrightarrow> can_access p R W (racy_read R) a n z \<Longrightarrow> libhb_step z z'"
| lib_write: "LIBHB_WRITE n sc p a z = Some (evs, z') \<Longrightarrow> n \<in> {1, 2, 4, 8} \<Longrightarrow> can_access p R W (racy_write W) a n z \<Longrightarrow> libhb_step z z'"
| lib_read_n: "LIBHB_READ_N sc p a len z = Some (evs, z') \<Longrightarrow> can_access p R W (racy_read R) a (unat len) z \<Longrightarrow> libhb_step z z'"
| lib_write_n: "LIBHB_WRITE_N sc p a len z = Some (evs, z') \<Longrightarrow> can_access p R W (racy_read R) a (unat len) z \<Longrightarrow> libhb_step z z'"
| lib_new: "libhb_range_new p a len z = Some z' \<Longrightarrow> client_range a (unat len) \<Longrightarrow> libhb_step z z'"
| lib_noaccess: "libhb_range_noaccess p a len z = Some z' \<Longrightarrow> client_range a (unat len) \<Longrightarrow> libhb_step z z'"
| lib_copy: "libhb_copy_shadow_state a b len z = Some z' \<Longrightarrow> client_range a (unat len) \<Longrightarrow> client_range b (unat len) \<Longrightarrow> libhb_step z z'"
| lib_GC: "libhb_maybe_GC verb z = Some z' \<Longrightarrow> libhb_step z z'"

inductive libhb_reach :: "libhb \<Rightarrow> bool" where
  lib_start: "libhb_start p = Some z \<Longrightarrow> p \<noteq> 0 \<Longrightarrow> libhb_reach z"
| lib_steps: "libhb_reach z \<Longrightarrow> libhb_ready z \<Longrightarrow> libhb_step z z' \<Longrightarrow> libhb_reach z'"

lemma hb_accI:
  assumes inv: "hb_inv (shadow_refs M) u" and k: "\<forall>s\<in>#M. hb_known u s" and rc: "\<And>v. uint (vts_rc (hb_vts u) v) < 2 ^ 63"
  shows "hb_acc u M"
  unfolding hb_acc_def
proof (intro conjI allI)
  fix v
  show "msum (thr_refs v) (hb_thrs u) + msum (so_refs v) (hb_sos u) < 2 ^ 63"
    using hb_inv_rc [OF inv, of v] rc [of v] shadow_refs_bounds(1) [of M v] by linarith
qed (use inv k in auto)

text \<open>An operation on threads and synchronisation objects leaves the shadow memory as it is.\<close>

lemma sync_change:
  assumes z: "libhb_inv z" and u: "hb_inv (shadow_refs (refs {} z)) u" "small_step (hb_vts (zsm_user z)) (hb_vts u)"
    and r: "libhb_ready z"
  shows "libhb_inv (z\<lparr>zsm_user := u\<rparr>)" "byte_val (z\<lparr>zsm_user := u\<rparr>) = byte_val z"
proof -
  let ?u = "zsm_user z"
  have at: "vts_at (hb_vts ?u) v = Some x \<Longrightarrow> vts_at (hb_vts u) v = Some x" for v x using u(2) by (simp add: small_step_def)
  have kn: "hb_known ?u s \<Longrightarrow> hb_known u s" for s using at by (auto simp: hb_known_def live_def)
  have "uint (vts_rc (hb_vts u) v) < 2 ^ 63" for v
  proof -
    have "uint (vts_rc (hb_vts u) v) \<le> uint (vts_rc (hb_vts ?u) v) + 4" using u(2) unfolding small_step_def by blast
    moreover have "uint (vts_rc (hb_vts ?u) v) < 2 ^ 62" using r unfolding libhb_ready_def by blast
    ultimately show ?thesis by simp
  qed
  then have "hb_acc u (refs {} z)" using u(1) kn libhb_inv_hb(1) [OF z] by (intro hb_accI) (auto simp: hb_acc_def)
  with hb.user_change [of z u] z kn show i: "libhb_inv (z\<lparr>zsm_user := u\<rparr>)" by (simp add: libhb_inv_def)
  have sh: "shadow (z\<lparr>zsm_user := u\<rparr>) = shadow z" by (simp add: shadow_def fun_eq_iff)
  have "hb_val_of (hb_vts u) s = hb_val_of (hb_vts ?u) s" if "hb_known ?u s" for s
    using that at by (auto simp: hb_val_of_def hb_known_def live_def)
  then show "byte_val (z\<lparr>zsm_user := u\<rparr>) = byte_val z"
    using hb.shadow_known(1) [of z] z sh by (simp add: byte_val_def fun_eq_iff libhb_inv_def)
qed

lemma libhb_step_inv:
  assumes z: "libhb_inv z" and r: "libhb_ready z" and s: "libhb_step z z'"
  shows "libhb_inv z'"
  using s
proof cases
  case (lib_sync u)
  have "ready (zsm_user z)" using r by (simp add: libhb_ready_def)
  from hb_step_inv [OF libhb_inv_hb(2) [OF z] this lib_sync(2)] sync_change(1) [OF z _ _ r] lib_sync(1) show ?thesis by blast
next
  case (lib_read n sc p a evs R W)
  with sized_read_spec [OF lib_read(2) z lib_read(3), of sc] show ?thesis by (auto simp: accessed_def)
next
  case (lib_write n sc p a evs W R)
  with sized_write_spec [OF lib_write(2) z lib_write(3), of sc] show ?thesis by (auto simp: accessed_def)
next
  case (lib_read_n sc p a len evs R W)
  with range_read_spec [OF z lib_read_n(2), of sc] show ?thesis by (auto simp: accessed_def LIBHB_READ_N_def)
next
  case (lib_write_n sc p a len evs R W)
  with range_read_spec [OF z lib_write_n(2), of sc] show ?thesis by (auto simp: accessed_def LIBHB_WRITE_N_def)
next
  case (lib_new p a len)
  then obtain t where t: "hb_thrs (zsm_user z) p = Some t" by (auto simp: libhb_range_new_def bind_eq_Some_conv)
  from thr_clocks [OF libhb_inv_hb(2) [OF z] t] obtain W where "vts_at (hb_vts (zsm_user z)) (viW t) = Some W" by metis
  moreover have "length (vts_tab (hb_vts (zsm_user z))) \<le> 2 ^ 30" using r by (simp add: libhb_ready_def ready_def room_def)
  ultimately show ?thesis using range_new_spec [OF z t] lib_new by fastforce
next
  case (lib_noaccess p a len)
  with range_noaccess_spec [OF z lib_noaccess(2), of p] show ?thesis by auto
next
  case (lib_copy a b len)
  have n: "unat (x + len) = unat x + unat len" if "client_range x (unat len)" for x
    using unat_add_no_wrap [of x "unat len"] that by (simp add: client_range_def)
  have "len = 0 \<or> unat a + unat len \<le> unat b \<or> unat b + unat len \<le> unat a"
    using lib_copy n by (auto simp: libhb_copy_shadow_state_def zsm_copy_range_def word_le_nat_alt split: if_splits)
  then show ?thesis
  proof
    assume "len = 0"
    then show ?thesis using lib_copy z by (simp add: libhb_copy_shadow_state_def zsm_copy_range_def)
  qed (use copy_spec [OF z lib_copy(2,3)] lib_copy(1) in auto)
next
  case (lib_GC verb)
  have "libhb_maybe_GC verb z = libhb_maybe_GC 0 z \<or> libhb_maybe_GC verb z = None"
    by (auto simp: libhb_maybe_GC_def vts_tab__do_GC_def Let_def split: bind_splits)
  with maybe_GC_spec [OF z, of 0] lib_GC show ?thesis by auto
qed

lemma start_spec:
  assumes "p \<noteq> 0"
  shows "\<exists>z t. libhb_start p = Some z \<and> libhb_inv z \<and> hb_thrs (zsm_user z) = [p \<mapsto> t] \<and> (\<forall>x. byte_val z x = NoAccess)"
proof -
  from libhb_init_spec [OF assms] obtain u t where
    u: "libhb_init p = Some u" "hb_inv (\<lambda>v. 0) u" "hb_thrs u = [p \<mapsto> t]" "room_for 10 (hb_vts u)" by blast
  have "shadow_refs {#} = (\<lambda>v. 0)" by (simp add: shadow_refs_def fun_eq_iff)
  then have "hb_acc u {#}" using u(2) room_for_room [OF u(4)] by (intro hb_accI) (auto simp: room_def)
  note I = hb.init_spec [OF this]
  have "byte_val (zsm_init hb_rcinc hb_rcdec u) x = NoAccess" for x using I(2) by (simp add: byte_val_def hb_val_of_def)
  then show ?thesis using u I by (intro exI [of _ "zsm_init hb_rcinc hb_rcdec u"] exI [of _ t]) (simp add: libhb_start_def libhb_inv_def)
qed

lemma libhb_reach_inv: "libhb_reach z \<Longrightarrow> libhb_inv z"
proof (induction rule: libhb_reach.induct)
  case (lib_start p z)
  with start_spec [of p] show ?case by auto
next
  case (lib_steps z z')
  then show ?case using libhb_step_inv by blast
qed

section \<open>A state with two threads\<close>

lemma msum_le: "finite (dom m) \<Longrightarrow> (\<And>x. f x \<le> 2) \<Longrightarrow> msum f m \<le> 2 * int (card (dom m))"
  using sum_bounded_above [of "dom m" "\<lambda>k. f (the (m k))" 2] by (simp add: msum_def)

text \<open>Until the first collection there are no free entries.\<close>

definition full :: "vts_state \<Rightarrow> bool" where
  "full V \<longleftrightarrow> vts_tab_freelist V = VtsID_INVALID"

lemma full_add: "vts_tab__find_and_dealloc__or_add c V = Some (v, V') \<Longrightarrow> full V \<Longrightarrow> full V'"
  by (auto simp: vts_tab__find_and_dealloc__or_add_def vts_set__find_and_dealloc__or_add_def VTS__delete_def get_new_VtsID_def
      get_from_free_list_def full_def bind_eq_Some_conv Let_def split: if_splits option.splits prod.splits)

lemma full_ops:
  "VtsID__tick a p V = Some (v, V') \<Longrightarrow> full V \<Longrightarrow> full V'"
  "VtsID__mk_Singleton p n V = Some (v, V') \<Longrightarrow> full V \<Longrightarrow> full V'"
  "rcinc_both a b V = Some V' \<Longrightarrow> full V \<Longrightarrow> full V'" "rcdec_both a b V = Some V' \<Longrightarrow> full V \<Longrightarrow> full V'"
proof -
  have al: "full (snd (alloc_VTS ts V)) = full V" for ts by (simp add: alloc_VTS_def full_def)
  show "VtsID__tick a p V = Some (v, V') \<Longrightarrow> full V \<Longrightarrow> full V'" "VtsID__mk_Singleton p n V = Some (v, V') \<Longrightarrow> full V \<Longrightarrow> full V'"
    using full_add [of "fst (alloc_VTS ts V)" "snd (alloc_VTS ts V)" for ts] al
    by (auto simp: VtsID__tick_def VtsID__mk_Singleton_def bind_eq_Some_conv Let_def case_prod_beta)
  show "rcinc_both a b V = Some V' \<Longrightarrow> full V \<Longrightarrow> full V'" "rcdec_both a b V = Some V' \<Longrightarrow> full V \<Longrightarrow> full V'"
    using rc_both_only_counts by (auto simp: only_counts_def full_def)
qed

lemma full_init: "libhb_init p = Some st \<Longrightarrow> full (hb_vts st)"
proof -
  have "full vts_init" by (simp add: full_def vts_init_def VtsID__invalidate_caches_def)
  then show "libhb_init p = Some st \<Longrightarrow> full (hb_vts st)" using full_ops by (fastforce simp: libhb_init_def bind_eq_Some_conv Let_def)
qed

lemma full_create: "libhb_create p c st = Some st' \<Longrightarrow> full (hb_vts st) \<Longrightarrow> full (hb_vts st')"
  using full_ops by (fastforce simp: libhb_create_def tick_both_def bind_eq_Some_conv split: if_splits)

lemma two_thread_sync:
  "\<exists>(u :: hb_sync) t1 t2 so v0. hb_inv (\<lambda>v. 0) u \<and> full (hb_vts u) \<and> length (vts_tab (hb_vts u)) + 32 < 2 ^ 30 \<and> hb_thrs u = [8 \<mapsto> t1, 16 \<mapsto> t2] \<and>
     hb_sos u = [24 \<mapsto> so] \<and> \<not> sent so \<and> vts_at (hb_vts u) v0 = Some [\<lparr>thr = 8, tym = 1\<rparr>] \<and>
     thr_rep (hb_vts u) t1 [\<lparr>thr = 8, tym = 2\<rparr>] [\<lparr>thr = 8, tym = 2\<rparr>] \<and>
     thr_rep (hb_vts u) t2 [\<lparr>thr = 8, tym = 1\<rparr>, \<lparr>thr = 16, tym = 1\<rparr>] [\<lparr>thr = 8, tym = 1\<rparr>, \<lparr>thr = 16, tym = 1\<rparr>]"
proof -
  let ?A = "[\<lparr>thr = 8, tym = 1\<rparr>]"
  from libhb_init_spec [of 8] obtain st :: hb_sync and t where st: "hb_inv (\<lambda>v. 0) st" "hb_thrs st = [8 \<mapsto> t]" "hb_sos st = Map.empty"
    "vts_at (hb_vts st) (viR t) = Some ?A" "viW t = viR t" "room_for 10 (hb_vts st)" "libhb_init 8 = Some st" by auto
  from create_spec [OF st(1), of 8 t 16 ?A ?A] st room_for_room [OF st(6)]
  obtain st' :: hb_sync and tp tc Rp Wp Rc Wc where st': "hb_inv (\<lambda>v. 0) st'" "small_step (hb_vts st) (hb_vts st')"
    "hb_thrs st' = [8 \<mapsto> t, 16 \<mapsto> tc, 8 \<mapsto> tp]" "hb_sos st' = Map.empty"
    "vts_at (hb_vts st') (viR tp) = Some Rp" "VTS__tick 8 ?A = Some Rp" "vts_at (hb_vts st') (viW tp) = Some Wp" "VTS__tick 8 ?A = Some Wp"
    "vts_at (hb_vts st') (viR tc) = Some Rc" "VTS__tick 16 ?A = Some Rc" "vts_at (hb_vts st') (viW tc) = Some Wc" "VTS__tick 16 ?A = Some Wc"
    "libhb_create 8 16 st = Some st'"
    by auto
  have fu: "full (hb_vts st')" using full_create [OF st'(13) full_init [OF st(7)]] .
  have tk: "Rp = [\<lparr>thr = 8, tym = 2\<rparr>]" "Wp = [\<lparr>thr = 8, tym = 2\<rparr>]" "Rc = [\<lparr>thr = 8, tym = 1\<rparr>, \<lparr>thr = 16, tym = 1\<rparr>]" "Wc = Rc"
    using st'(6,8,10,12) by (auto simp: VTS__tick_def split: if_splits)
  have v0: "vts_at (hb_vts st') (viR t) = Some ?A" using st'(2) st(4) by (simp add: small_step_def)
  have len: "length (vts_tab (hb_vts st')) + 32 < 2 ^ 30" using st(6) st'(2) by (simp add: small_step_def room_for_def)
  let ?t1 = "tp\<lparr>opaque := 1\<rparr>" and ?t2 = "tc\<lparr>opaque := 1\<rparr>"
  let ?u1 = "put_thr 8 ?t1 st'"
  let ?u = "put_thr 16 ?t2 ?u1"
  have "hb_inv (\<lambda>v. 0) ?u1" using opaque_inv [OF st'(1), of 8 tp] st'(3) by simp
  then have "hb_inv (\<lambda>v. 0) ?u" using opaque_inv [of "\<lambda>v. 0" ?u1 16 tc] st'(3) by simp
  then have "hb_inv (\<lambda>v. 0) (libhb_so_alloc 24 ?u)" using so_alloc_inv [of "\<lambda>v. 0" ?u 24] st'(4) by simp
  moreover have "hb_thrs (libhb_so_alloc 24 ?u) = [8 \<mapsto> ?t1, 16 \<mapsto> ?t2]"
    using st'(3) by (simp add: libhb_so_alloc_def SO__Alloc_def fun_eq_iff)
  ultimately show ?thesis using st'(4,5,7,9,11) tk v0 len fu
    by (intro exI [of _ "libhb_so_alloc 24 ?u"] exI [of _ ?t1] exI [of _ ?t2])
      (auto simp: libhb_so_alloc_def SO__Alloc_def sent_def thr_rep_def)
qed

text \<open>With the byte at \<open>0x1000\<close> set to a given value.\<close>

definition clk8 :: ts_array where "clk8 = [\<lparr>thr = 8, tym = 2\<rparr>]"
definition clk16 :: ts_array where "clk16 = [\<lparr>thr = 8, tym = 1\<rparr>, \<lparr>thr = 16, tym = 1\<rparr>]"
definition clk0 :: ts_array where "clk0 = [\<lparr>thr = 8, tym = 1\<rparr>]"

definition demo :: "hb_val \<Rightarrow> libhb \<Rightarrow> bool" where
  "demo c z \<longleftrightarrow> libhb_inv z \<and> full (hb_vts (zsm_user z)) \<and> libhb_ready z \<and> hb_room 8 clk8 clk8 8 (zsm_user z) \<and> hb_room 16 clk16 clk16 8 (zsm_user z) \<and>
     (\<exists>so. hb_sos (zsm_user z) = [24 \<mapsto> so] \<and> \<not> sent so) \<and> dom (hb_thrs (zsm_user z)) = {8, 16} \<and>
     (\<forall>x. byte_val z x = (if in_range 0x1000 8 x then c else NoAccess))"

lemma clks: "wf_ts clk0" "wf_ts clk8" "wf_ts clk16" "vts_leq clk0 clk8" "vts_leq clk0 clk16" "\<not> vts_leq clk8 clk16" "vts_leq clk8 clk8"
  by (simp_all add: clk0_def clk8_def clk16_def wf_ts_Cons vts_leq_def VTS__cmp_def)

lemma init_store: "secmaps (zsm_init i d u) = []" "w < N_WAY_NENT \<Longrightarrow> tags0 (zsm_init i d u) ! w = 1"
  unfolding zsm_init_def by (subst invalidate_scache; simp)+

lemma init_counts:
  assumes "hb_inv (\<lambda>v. 0) u" "hb_thrs u = [8 \<mapsto> t1, 16 \<mapsto> t2]" "hb_sos u = [24 \<mapsto> so]"
  shows "uint (vts_rc (hb_vts u) v) < 100"
proof -
  have "card {8, 16 :: Thr_ptr} = 2" by simp
  then have "msum (thr_refs v) (hb_thrs u) \<le> 4" using msum_le [of "hb_thrs u" "thr_refs v"] refs_le_2(1) assms(2) by simp
  moreover have "msum (so_refs v) (hb_sos u) \<le> 2" using msum_le [of "hb_sos u" "so_refs v"] refs_le_2(2) assms(3) by simp
  ultimately show ?thesis using hb_inv_rc [OF assms(1), of v] by simp
qed

lemma init_acc:
  assumes "hb_inv (\<lambda>v. 0) u" "hb_thrs u = [8 \<mapsto> t1, 16 \<mapsto> t2]" "hb_sos u = [24 \<mapsto> so]"
  shows "hb_acc u {#}"
proof -
  have "shadow_refs {#} = (\<lambda>v. 0)" by (simp add: shadow_refs_def fun_eq_iff)
  then show ?thesis using assms(1) by (intro hb_accI) (auto intro: less_trans [OF init_counts [OF assms]])
qed

lemma demo_ex:
  assumes c: "c = Clocks r w" "r \<in> {clk0, clk8, clk16}" "w \<in> {clk0, clk8, clk16}"
  shows "\<exists>z. demo c z"
proof -
  from two_thread_sync obtain u :: hb_sync and t1 t2 so v0 where
    u: "hb_inv (\<lambda>v. 0) u" "length (vts_tab (hb_vts u)) + 32 < 2 ^ 30" "hb_thrs u = [8 \<mapsto> t1, 16 \<mapsto> t2]" "hb_sos u = [24 \<mapsto> so]" "\<not> sent so"
      "vts_at (hb_vts u) v0 = Some clk0" "thr_rep (hb_vts u) t1 clk8 clk8" "thr_rep (hb_vts u) t2 clk16 clk16" "full (hb_vts u)"
    unfolding clk0_def clk8_def clk16_def by blast
  have id: "\<exists>v. vts_at (hb_vts u) v = Some x" if "x \<in> {clk0, clk8, clk16}" for x using that u(6-8) by (auto simp: thr_rep_def)
  obtain vr vw where v: "vts_at (hb_vts u) vr = Some r" "vts_at (hb_vts u) vw = Some w" using id c by metis
  have v30: "vr < 2 ^ 30" using live_small [OF v(1)] u(2) by simp
  note mk = isC_mkC [OF v30] sv_mkC [OF v30]
  note rc = init_counts [OF u(1,3,4)]
  note I = hb.init_spec [OF init_acc [OF u(1,3,4)]]
  let ?z = "zsm_init hb_rcinc hb_rcdec u" and ?s = "SVal__mkC vr vw"
  have z: "libhb_inv ?z" using I(1) by (simp add: libhb_inv_def)
  have kn: "hb_known (zsm_user ?z) ?s" "?s \<noteq> SVal_INVALID" using v mk v30 I(3) by (simp_all add: hb_known_def live_def)
  have cr: "client_range 0x1000 (unat (8 :: UWord))" by (simp add: client_range_def)
  from hb.set_range_spec [OF I(1) cr kn] obtain z' where z': "zsm_set_range 0x1000 8 ?s ?z = Some z'" "hb.wrote 0x1000 8 ?s ?z z'" by auto
  note B = wrote_byte_val [OF z z'(2)]
  have k: "hb_kept u (zsm_user z')" using z'(2) I(3) by (simp add: hb.wrote_def)
  then have l: "hb_later u (zsm_user z')" "length (vts_tab (hb_vts (zsm_user z'))) + 32 < 2 ^ 30" using u(2) by (simp_all add: hb_kept_def)
  have "hb_val_of (hb_vts (zsm_user z')) ?s = c" using l(1) v mk c(1) by (auto simp: hb_val_of_def hb_later_def)
  then have bv: "byte_val z' x = (if in_range 0x1000 8 x then c else NoAccess)" for x
    using B(3) [of x] I(2) by (simp add: byte_val_def [of ?z] hb_val_of_def)
  have rm: "hb_room 8 clk8 clk8 8 (zsm_user z')" "hb_room 16 clk16 clk16 8 (zsm_user z')"
    using l u(3,7,8) by (auto simp: hb_room_def hb_later_def thr_rep_def)
  have rc': "uint (vts_rc (hb_vts (zsm_user z')) v) < 2 ^ 62" for v
  proof -
    note H = libhb_inv_hb(2) [OF B(1)]
    have "msum (thr_refs v) (hb_thrs u) + msum (so_refs v) (hb_sos u) < 100" using hb_inv_rc [OF u(1), of v] rc [of v] by simp
    moreover have "size (refs {} z') \<le> 2 ^ 47" using size_refs [of "{}" z'] B(1) hb.zsm_invD(1) [of z'] by (simp add: libhb_inv_def hb.counted_def)
    ultimately show ?thesis
      using hb_inv_rc [OF H, of v] shadow_refs_bounds(2) [of "refs {} z'" v] l(1) by (simp add: hb_later_def)
  qed
  have own: "own_clock (zsm_user z') p \<noteq> - 1" for p
  proof (cases "hb_thrs (zsm_user z') p")
    case (Some t)
    then have "p = 8 \<and> t = t1 \<or> p = 16 \<and> t = t2" using l(1) u(3) by (auto simp: hb_later_def split: if_splits)
    then show ?thesis using own_clock_thr [OF Some] l(1) u(7,8) by (auto simp: thr_rep_def hb_later_def clk8_def clk16_def)
  qed (simp add: own_clock_def)
  have "uint (vts_rc (hb_vts (zsm_user z')) v) < 2 ^ 63" for v by (rule less_trans [OF rc']) simp
  then have "libhb_ready z'" using rc' own l(2) by (simp add: libhb_ready_def ready_def room_def)
  moreover have "full (hb_vts (zsm_user z'))" using k u(9) by (simp add: hb_kept_def full_def)
  ultimately have "demo c z'" using B(1) rm bv l(1) u(3-5) by (auto simp: demo_def hb_later_def)
  then show ?thesis by blast
qed

section \<open>Main results\<close>

lemma demo_access:
  assumes "demo c z" "n \<le> 8" "fit_for racy c"
  shows "p = 8 \<Longrightarrow> can_access p clk8 clk8 racy 0x1000 n z" "p = 16 \<Longrightarrow> can_access p clk16 clk16 racy 0x1000 n z"
proof -
  have "in_range 0x1000 n x \<Longrightarrow> in_range 0x1000 8 x" for x using assms(2) by (simp add: in_range_def)
  then show "p = 8 \<Longrightarrow> can_access p clk8 clk8 racy 0x1000 n z" "p = 16 \<Longrightarrow> can_access p clk16 clk16 racy 0x1000 n z"
    using assms hb_room_less [of _ _ _ "8 - n" n] by (auto simp: demo_def can_access_def client_range_def)
qed

lemma in_0x1000: "0 < n \<Longrightarrow> in_range 0x1000 n 0x1000"
  by (simp add: in_range_def)

text \<open>
  C7.  In every state that a client of the library can reach, through any sequence of thread
  creations, operations on synchronisation objects, memory accesses, range operations and garbage
  collections, the invariant holds: in particular every byte of client memory has a shadow value that
  is not \<^verbatim>\<open>SVal_INVALID\<close>, and the timestamps that a constrained value refers to are in the table.
\<close>

theorem libhb_reachable_invariant:
  assumes "libhb_reach z"
  shows "libhb_inv z \<and> shadow z x \<noteq> SVal_INVALID \<and> hb_known (zsm_user z) (shadow z x)"
  using libhb_reach_inv [OF assms] hb.shadow_known [of z x] by (simp add: libhb_inv_def)

theorem libhb_reachable_invariant_witness:
  "\<exists>z. libhb_start 8 = Some z \<and> libhb_inv z \<and> shadow z 0x1000 \<noteq> SVal_INVALID"
proof -
  obtain z where z: "libhb_start 8 = Some z" using start_spec [of 8] by auto
  then have "libhb_reach z" by (rule lib_start) simp
  from libhb_reachable_invariant [OF this] z show ?thesis by auto
qed

text \<open>
  C6.  \<^verbatim>\<open>zsm_apply_range___msm_read\<close> on a range of client memory, for any alignment and length and
  whatever part of the range is in the cache: it passes all its assertions, every byte of the range
  makes the step of the specification of a read by that thread, no other byte changes, no clock of a
  thread or a synchronisation object changes, and the bytes covered by the race reports are exactly the
  bytes of the range for which the read races.
\<close>

theorem range_read_correct:
  assumes "libhb_inv z" "can_access p R W (racy_read R) a (unat len) z"
  shows "\<exists>evs z'. zsm_apply_range___msm_read sc p a len z = Some (evs, z') \<and>
     accessed p False (step_read R W) (racy_read R) a (unat len) z evs z'"
  using assms by (rule range_read_spec)

theorem range_read_correct_witness:
  "\<exists>z evs z'. zsm_apply_range___msm_read False 16 0x1000 5 z = Some (evs, z') \<and> race_reported evs 0x1000"
proof -
  obtain z where z: "demo (Clocks clk8 clk8) z" using demo_ex by blast
  have "can_access 16 clk16 clk16 (racy_read clk16) 0x1000 (unat (5 :: UWord)) z"
    by (rule demo_access(2) [OF z]) (simp_all add: fit_for_def clks)
  moreover have "libhb_inv z" "byte_val z 0x1000 = Clocks clk8 clk8" using z in_0x1000 [of 8] by (simp_all add: demo_def)
  ultimately show ?thesis using range_read_correct [of z 16 clk16 clk16 "0x1000" 5 False] in_0x1000 [of 5] clks
    by (fastforce simp: accessed_def)
qed

text \<open>
  C5.  The same for \<^verbatim>\<open>zsm_apply_range___msm_write\<close> and the specification of a write.
\<close>

theorem range_write_correct:
  assumes "libhb_inv z" "can_access p R W (racy_write W) a (unat len) z"
  shows "\<exists>evs z'. zsm_apply_range___msm_write sc p a len z = Some (evs, z') \<and>
     accessed p True (step_write R W) (racy_write W) a (unat len) z evs z'"
  using assms by (rule range_write_spec)

theorem range_write_correct_witness:
  "\<exists>z evs z'. zsm_apply_range___msm_write False 8 0x1000 7 z = Some (evs, z') \<and> byte_val z' 0x1000 = Clocks clk8 clk8 \<and>
     \<not> race_reported evs 0x1000"
proof -
  obtain z where z: "demo (Clocks clk0 clk0) z" using demo_ex by blast
  have "can_access 8 clk8 clk8 (racy_write clk8) 0x1000 (unat (7 :: UWord)) z"
    by (rule demo_access(1) [OF z]) (simp_all add: fit_for_def clks)
  moreover have "libhb_inv z" "byte_val z 0x1000 = Clocks clk0 clk0" using z in_0x1000 [of 8] by (simp_all add: demo_def)
  ultimately show ?thesis using range_write_correct [of z 8 clk8 clk8 "0x1000" 7 False] in_0x1000 [of 7] clks
    by (fastforce simp: accessed_def)
qed

text \<open>
  C16.  The accesses of 1, 2, 4 and 8 bytes (\<^verbatim>\<open>LIBHB_READ_1\<close> to \<^verbatim>\<open>LIBHB_WRITE_8\<close>), at any alignment and whether
  they are done on one node of the tree of a line or split into halves, have the effect of the
  specification on exactly their bytes and report exactly the racing ones.
\<close>

theorem sized_access_correct:
  assumes "n \<in> {1, 2, 4, 8}" "libhb_inv z" "can_access p R W (racy_read R) a n z" "can_access p R W (racy_write W) a n z"
  shows "(\<exists>evs z'. LIBHB_READ n sc p a z = Some (evs, z') \<and> accessed p False (step_read R W) (racy_read R) a n z evs z') \<and>
    (\<exists>evs z'. LIBHB_WRITE n sc p a z = Some (evs, z') \<and> accessed p True (step_write R W) (racy_write W) a n z evs z')"
  using sized_read_spec [OF assms(1-3)] sized_write_spec [OF assms(1,2,4)] by blast

theorem sized_access_correct_witness:
  "\<exists>z evs z'. LIBHB_WRITE_4 False 16 0x1000 z = Some (evs, z') \<and> race_reported evs 0x1000"
proof -
  obtain z where z: "demo (Clocks clk8 clk8) z" using demo_ex by blast
  have "can_access 16 clk16 clk16 (racy_read clk16) 0x1000 4 z" "can_access 16 clk16 clk16 (racy_write clk16) 0x1000 4 z"
    by (rule demo_access(2) [OF z]; simp add: fit_for_def clks)+
  moreover have "libhb_inv z" "byte_val z 0x1000 = Clocks clk8 clk8" using z in_0x1000 [of 8] by (simp_all add: demo_def)
  ultimately show ?thesis using sized_access_correct [of 4 z 16 clk16 clk16 "0x1000" False] in_0x1000 [of 4] clks
    by (fastforce simp: accessed_def LIBHB_WRITE_def)
qed

text \<open>
  C17.  \<^verbatim>\<open>libhb_range_new\<close> passes its assertions and gives every byte of the range the constraint
  whose two timestamps are the write clock of the allocating thread; \<^verbatim>\<open>libhb_range_noaccess\<close> makes the
  range inaccessible.  No other byte and no clock changes, for ranges of any length and alignment,
  below and above the size from which whole lines are set in the backing store.
\<close>

theorem range_set_correct:
  assumes "libhb_inv z" "hb_thrs (zsm_user z) p = Some t" "vts_at (hb_vts (zsm_user z)) (viW t) = Some W"
    and "length (vts_tab (hb_vts (zsm_user z))) \<le> 2 ^ 30" "client_range a (unat szB)"
  shows "(\<exists>z'. libhb_range_new p a szB z = Some z' \<and> libhb_inv z' \<and> same_clocks (zsm_user z) (zsm_user z') \<and>
      (\<forall>x. byte_val z' x = (if in_range a (unat szB) x then Clocks W W else byte_val z x))) \<and>
    (\<exists>z'. libhb_range_noaccess p a szB z = Some z' \<and> libhb_inv z' \<and> same_clocks (zsm_user z) (zsm_user z') \<and>
      (\<forall>x. byte_val z' x = (if in_range a (unat szB) x then NoAccess else byte_val z x)))"
  using range_new_spec [OF assms] range_noaccess_spec [OF assms(1,5)] by blast

theorem range_set_correct_witness:
  "\<exists>z z'. libhb_range_new 8 0x1003 1000 z = Some z' \<and> byte_val z' 0x1010 = Clocks clk8 clk8"
proof -
  obtain z where z: "demo (Clocks clk0 clk0) z" using demo_ex by blast
  then have i: "libhb_inv z" "hb_room 8 clk8 clk8 8 (zsm_user z)" by (simp_all add: demo_def)
  then obtain t where t: "hb_thrs (zsm_user z) 8 = Some t" "vts_at (hb_vts (zsm_user z)) (viW t) = Some clk8"
    "length (vts_tab (hb_vts (zsm_user z))) \<le> 2 ^ 30" by (auto simp: hb_room_def thr_rep_def)
  have "client_range 0x1003 (unat (1000 :: UWord))" "in_range 0x1003 (unat (1000 :: UWord)) 0x1010"
    by (simp_all add: client_range_def in_range_def)
  with range_set_correct [OF i(1) t] show ?thesis by (metis (no_types, lifting))
qed

text \<open>
  C18.  \<^verbatim>\<open>libhb_copy_shadow_state\<close> on two disjoint ranges copies the shadow state of the first to the
  second byte by byte and changes nothing else.
\<close>

theorem copy_shadow_state_correct:
  assumes "libhb_inv z" "client_range a (unat len)" "client_range b (unat len)"
    and "unat a + unat len \<le> unat b \<or> unat b + unat len \<le> unat a"
  shows "\<exists>z'. libhb_copy_shadow_state a b len z = Some z' \<and> libhb_inv z' \<and> same_clocks (zsm_user z) (zsm_user z') \<and>
     (\<forall>x. byte_val z' x = (if in_range b (unat len) x then byte_val z (a + (x - b)) else byte_val z x))"
  using assms by (rule copy_spec)

theorem copy_shadow_state_correct_witness:
  "\<exists>z z'. libhb_copy_shadow_state 0x1000 0x2000 8 z = Some z' \<and> byte_val z' 0x2000 = Clocks clk0 clk0"
proof -
  obtain z where z: "demo (Clocks clk0 clk0) z" using demo_ex by blast
  then have i: "libhb_inv z" "byte_val z 0x1000 = Clocks clk0 clk0" using in_0x1000 [of 8] by (simp_all add: demo_def)
  have "client_range 0x1000 (unat (8 :: UWord))" "client_range 0x2000 (unat (8 :: UWord))" "in_range 0x2000 (unat (8 :: UWord)) 0x2000"
    by (simp_all add: client_range_def in_range_def)
  with copy_shadow_state_correct [OF i(1), of "0x1000" 8 "0x2000"] i(2) show ?thesis by fastforce
qed

text \<open>
  C8.  \<^verbatim>\<open>vts_tab__do_GC\<close>, with its flush of the cache of the shadow memory, passes its assertions at
  every verbosity while there is a thread.  Afterwards the cache is empty and the reference counts are
  exact, and it has freed exactly the identifiers to which no thread, no synchronisation object and no
  stored shadow value refers; every other identifier keeps its timestamp.  So the value of every byte
  of client memory, also of one that was in the cache only, and the clocks of all threads and
  synchronisation objects are what they were, and the next collection is not due before the table
  grows.
\<close>

theorem do_GC_correct:
  assumes "libhb_inv z" "vts_tab_freelist (hb_vts (zsm_user z)) = VtsID_INVALID" "hb_thrs (zsm_user z) p = Some t"
  shows "\<exists>z'. vts_tab__do_GC verbosity z = Some z' \<and> libhb_inv z' \<and> same_clocks (zsm_user z) (zsm_user z') \<and>
     byte_val z' = byte_val z \<and> (\<forall>w<N_WAY_NENT. tags0 z' ! w = 1) \<and>
     int (length (vts_tab (hb_vts (zsm_user z')))) \<le> vts_next_GC_at (hb_vts (zsm_user z')) \<and>
     (\<forall>v. vts_at (hb_vts (zsm_user z')) v = (if refs_to z' v = 0 then None else vts_at (hb_vts (zsm_user z)) v))"
proof -
  obtain R W where "vts_at (hb_vts (zsm_user z)) (viR t) = Some R" using thr_clocks [OF libhb_inv_hb(2) [OF assms(1)] assms(3)] by metis
  with do_GC_spec [OF assms(1,2), of verbosity "viR t"] show ?thesis by auto
qed

lemma flush_empty: "\<forall>w\<in>set ws. tags0 z ! w = 1 \<Longrightarrow> flush_loop ws z = Some z"
proof (induction ws)
  case (Cons w ws)
  then have "z\<lparr>tags0 := (tags0 z)[w := 1]\<rparr> = z" using list_update_id [of "tags0 z" w] by simp
  with Cons show ?case by (simp add: Let_def)
qed simp

text \<open>
  In the first state of the witness the cache is empty and the clock that thread 8 had before it made
  thread 16 is freed; in the second one the same clock is used by a cached shadow value only, and kept.
\<close>

theorem do_GC_correct_witness:
  "(\<exists>z z' v. vts_tab__do_GC 2 z = Some z' \<and> vts_at (hb_vts (zsm_user z)) v = Some clk0 \<and> vts_at (hb_vts (zsm_user z')) v = None) \<and>
   (\<exists>z z'. vts_tab__do_GC 2 z = Some z' \<and> byte_val z 0x1000 = Clocks clk0 clk0 \<and> byte_val z' 0x1000 = Clocks clk0 clk0)"
proof
  from two_thread_sync obtain u :: hb_sync and t1 t2 so v0 where
    u: "hb_inv (\<lambda>v. 0) u" "full (hb_vts u)" "length (vts_tab (hb_vts u)) + 32 < 2 ^ 30" "hb_thrs u = [8 \<mapsto> t1, 16 \<mapsto> t2]" "hb_sos u = [24 \<mapsto> so]"
      "\<not> sent so" "vts_at (hb_vts u) v0 = Some clk0" "thr_rep (hb_vts u) t1 clk8 clk8" "thr_rep (hb_vts u) t2 clk16 clk16"
    unfolding clk0_def clk8_def clk16_def by blast
  let ?z = "zsm_init hb_rcinc hb_rcdec u"
  note I = hb.init_spec [OF init_acc [OF u(1,4,5)]]
  from do_GC_correct [of ?z 8 t1 2] I(1,3) u(2,4) obtain z' where
    z': "vts_tab__do_GC 2 ?z = Some z'" "same_clocks u (zsm_user z')" "vts_at (hb_vts (zsm_user z')) v0 = (if refs_to z' v0 = 0 then None else Some clk0)"
    using u(7) by (auto simp: libhb_inv_def full_def)
  have fl: "flush_loop [0..<N_WAY_NENT] (?z\<lparr>zsm_user := w\<rparr>) = Some (?z\<lparr>zsm_user := w\<rparr>)" for w
    by (intro flush_empty) (auto simp: init_store(2))
  have "secmaps z' = []" using z'(1) fl init_store(1)
    by (auto simp: vts_tab__do_GC_def on_user_def zsm_flush_cache_def shmem__flush_and_invalidate_scache_def bind_eq_Some_conv split: if_splits)
  then have "refs {} z' = {#}" by (simp add: refs_def lines_of_def)
  moreover have "thr_refs v0 t1 = 0" "thr_refs v0 t2 = 0" "so_refs v0 so = 0"
    using u(6-9) by (auto simp: thr_refs_def so_refs_def sent_def one_def thr_rep_def clk0_def clk8_def clk16_def)
  ultimately have "refs_to z' v0 = 0"
    using z'(2) u(4,5) by (simp add: refs_to_def shadow_refs_def same_clocks_def msum_upd_new) (simp add: msum_def)
  with z' u(7) I(3) show "\<exists>z z' v. vts_tab__do_GC 2 z = Some z' \<and> vts_at (hb_vts (zsm_user z)) v = Some clk0 \<and> vts_at (hb_vts (zsm_user z')) v = None"
    by (intro exI [of _ ?z] exI [of _ z'] exI [of _ v0]) simp
next
  obtain z where z: "demo (Clocks clk0 clk0) z" using demo_ex by blast
  then obtain t where t: "hb_thrs (zsm_user z) 8 = Some t" by (auto simp: demo_def hb_room_def)
  from do_GC_correct [OF _ _ t, of 2] z obtain z' where "vts_tab__do_GC 2 z = Some z'" "byte_val z' = byte_val z"
    by (auto simp: demo_def full_def)
  then show "\<exists>z z'. vts_tab__do_GC 2 z = Some z' \<and> byte_val z 0x1000 = Clocks clk0 clk0 \<and> byte_val z' 0x1000 = Clocks clk0 clk0"
    using z in_0x1000 [of 8] by (intro exI [of _ z] exI [of _ z']) (simp add: demo_def)
qed

text \<open>
  C27.  The macro \<^verbatim>\<open>LIBHB_WRITE_N\<close> expands to the function for reads: on a byte that a read of the
  thread may access without a race but a write may not, it reports nothing, whereas
  \<^verbatim>\<open>zsm_apply_range___msm_write\<close> on the same state reports the byte.
\<close>

theorem LIBHB_WRITE_N_misses_race:
  assumes "libhb_inv z" "can_access p R W (racy_read R) a (unat len) z" "can_access p R W (racy_write W) a (unat len) z"
    and "in_range a (unat len) x" "racy_write W (byte_val z x)" "\<not> racy_read R (byte_val z x)"
  shows "\<exists>evs z' evs' z''. LIBHB_WRITE_N sc p a len z = Some (evs, z') \<and> \<not> race_reported evs x \<and>
     zsm_apply_range___msm_write sc p a len z = Some (evs', z'') \<and> race_reported evs' x"
  using range_read_spec [OF assms(1,2), of sc] range_write_spec [OF assms(1,3), of sc] assms(4-6)
  by (fastforce simp: LIBHB_WRITE_N_def accessed_def)

theorem LIBHB_WRITE_N_misses_race_witness:
  "\<exists>z evs z' evs' z''. LIBHB_WRITE_N False 16 0x1000 3 z = Some (evs, z') \<and> \<not> race_reported evs 0x1000 \<and>
     zsm_apply_range___msm_write False 16 0x1000 3 z = Some (evs', z'') \<and> race_reported evs' 0x1000"
proof -
  obtain z where z: "demo (Clocks clk0 clk8) z" using demo_ex by blast
  have "can_access 16 clk16 clk16 (racy_read clk16) 0x1000 (unat (3 :: UWord)) z"
    "can_access 16 clk16 clk16 (racy_write clk16) 0x1000 (unat (3 :: UWord)) z"
    by (rule demo_access(2) [OF z]; simp add: fit_for_def clks)+
  moreover have "libhb_inv z" "byte_val z 0x1000 = Clocks clk0 clk8" using z in_0x1000 [of 8] by (simp_all add: demo_def)
  ultimately show ?thesis
    using LIBHB_WRITE_N_misses_race [of z 16 clk16 clk16 "0x1000" 3 "0x1000" False] in_0x1000 [of 3] clks by fastforce
qed

lemma kept_byte_val:
  assumes z: "libhb_inv z" and k: "hb_kept (zsm_user z) (zsm_user z')" and s: "shadow z' = shadow z"
  shows "same_clocks (zsm_user z) (zsm_user z')" "byte_val z' = byte_val z"
proof -
  have l: "hb_later (zsm_user z) (zsm_user z')" using k by (simp add: hb_kept_def)
  show "same_clocks (zsm_user z) (zsm_user z')" using later_same_clocks [OF z l] .
  show "byte_val z' = byte_val z" using byte_val_later [OF z l] s by (simp add: fun_eq_iff)
qed

text \<open>
  C19.  The cache is transparent: \<^verbatim>\<open>get_cacheline\<close>, hit or miss, with the eviction of the line that was
  in the way, passes its assertions, keeps the invariant, the clocks and the value of every byte of
  client memory, and afterwards the way of the address holds the values of all bytes of its line.
\<close>

theorem get_cacheline_transparent:
  assumes "libhb_inv z" "a < 2 ^ 47"
  shows "\<exists>z'. get_cacheline a z = Some (cache_wix a, z') \<and> libhb_inv z' \<and> same_clocks (zsm_user z) (zsm_user z') \<and>
     byte_val z' = byte_val z \<and> cl_ok (lyns0 z' ! cache_wix a) \<and>
     (\<forall>x. cache_tag x = cache_tag a \<longrightarrow>
        byte_val z x = hb_val_of (hb_vts (zsm_user z')) (cl_bytes (lyns0 z' ! cache_wix a) ! get_cacheline_offset x))"
proof -
  from hb.get_cacheline_spec [of z a] assms obtain z' where
    z': "get_cacheline a z = Some (cache_wix a, z')" "hb.zsm_inv z'" "hb_kept (zsm_user z) (zsm_user z')"
      "tags0 z' ! cache_wix a = cache_tag a" "shadow z' = shadow z" by (auto simp: libhb_inv_def)
  note k = kept_byte_val [OF assms(1) z'(3,5)]
  have "cl_ok (lyns0 z' ! cache_wix a)"
    using hb.zsm_invD(4) [OF z'(2) cache_wix_less, of a] z'(4) cache_tag_ok(2) [of a] by (auto simp: hb.way_ok_def)
  moreover have "shadow z' x = cl_bytes (lyns0 z' ! cache_wix a) ! get_cacheline_offset x" if "cache_tag x = cache_tag a" for x
    using that z'(4) cache_wix_tag [of x] cache_wix_tag [of a] by (simp add: shadow_def)
  ultimately show ?thesis using z'(1,2) k(1) k(2) [symmetric] by (auto simp: libhb_inv_def byte_val_def)
qed

theorem get_cacheline_transparent_witness:
  "\<exists>z z'. get_cacheline 0x1000 z = Some (64, z') \<and> byte_val z 0x1000 = Clocks clk0 clk8 \<and>
     hb_val_of (hb_vts (zsm_user z')) (cl_bytes (lyns0 z' ! 64) ! 0) = Clocks clk0 clk8"
proof -
  obtain z where z: "demo (Clocks clk0 clk8) z" using demo_ex by blast
  have b: "libhb_inv z" "byte_val z 0x1000 = Clocks clk0 clk8" using z in_0x1000 [of 8] by (simp_all add: demo_def)
  have "cache_wix 0x1000 = 64" "get_cacheline_offset 0x1000 = 0" by (simp_all add: cache_wix_mod offset_mod)
  then show ?thesis using get_cacheline_transparent [OF b(1), of "0x1000"] b(2) by fastforce
qed

text \<open>
  C20.  \<^verbatim>\<open>zsm_flush_cache\<close> writes every line back without failing an assertion and without changing the
  value of a byte or a clock.  Afterwards the cache is empty and the reference counts are up to date:
  each is the number of references from threads, synchronisation objects and stored values, and the
  shadow value of every byte is one of the stored values (or marks memory that is not accessible).
\<close>

theorem flush_cache_correct:
  assumes "libhb_inv z"
  shows "\<exists>z'. zsm_flush_cache z = Some z' \<and> libhb_inv z' \<and> same_clocks (zsm_user z) (zsm_user z') \<and> byte_val z' = byte_val z \<and>
     (\<forall>w<N_WAY_NENT. tags0 z' ! w = 1) \<and> (\<forall>v. uint (vts_rc (hb_vts (zsm_user z')) v) = refs_to z' v) \<and>
     (\<forall>x. shadow z' x = SVal_NOACCESS \<or> shadow z' x \<in># refs {} z')"
proof -
  from hb.flush_cache_spec [of z] assms obtain z' where
    z': "zsm_flush_cache z = Some z'" "hb.zsm_inv z'" "hb_kept (zsm_user z) (zsm_user z')" "shadow z' = shadow z"
      "\<forall>w<N_WAY_NENT. tags0 z' ! w = 1" by (auto simp: libhb_inv_def)
  have i: "libhb_inv z'" using z'(2) by (simp add: libhb_inv_def)
  have "uint (vts_rc (hb_vts (zsm_user z')) v) = refs_to z' v" for v
    using hb_inv_rc [OF libhb_inv_hb(2) [OF i], of v] by (simp add: refs_to_def)
  then show ?thesis using z'(1,5) i kept_byte_val [OF assms z'(3,4)] hb.flushed_counted [OF z'(2,5)] by blast
qed

theorem flush_cache_correct_witness:
  "\<exists>z z'. zsm_flush_cache z = Some z' \<and> byte_val z' 0x1000 = Clocks clk0 clk8 \<and> shadow z' 0x1000 \<in># refs {} z'"
proof -
  obtain z where z: "demo (Clocks clk0 clk8) z" using demo_ex by blast
  have b: "libhb_inv z" "byte_val z 0x1000 = Clocks clk0 clk8" using z in_0x1000 [of 8] by (simp_all add: demo_def)
  from flush_cache_correct [OF b(1)] obtain z' where
    z': "zsm_flush_cache z = Some z'" "byte_val z' = byte_val z" "shadow z' 0x1000 = SVal_NOACCESS \<or> shadow z' 0x1000 \<in># refs {} z'" by blast
  have v: "byte_val z' 0x1000 = Clocks clk0 clk8" using b(2) z'(2) by simp
  then have "shadow z' 0x1000 \<noteq> SVal_NOACCESS" by (auto simp: byte_val_def hb_val_of_def)
  with z' v show ?thesis by blast
qed

end
