(* ===== verification/Spec2Isabelle.thy ===== *)
theory Spec2Isabelle
  imports Hg_Prelude WordFM WordFM_Iter VTS VtsTable VtsGC SVal MSM Sync
    ShadowTree ShadowLine ShadowMem ShadowCache ZsmAccess ZsmApply LibHB LibHB_API
begin

text \<open>
  Verification of the happens-before engine of Helgrind+, the data race detector of
  \<^verbatim>\<open>src/trunk/helgrind\<close>.  The engine is the library \<^verbatim>\<open>libhb\<close> (\<^verbatim>\<open>helgrind/libhb_core.c\<close>, \<^verbatim>\<open>helgrind/libhb.h\<close>)
  with the finite maps of \<^verbatim>\<open>coregrind/m_wordfm.c\<close>.

  \<^bold>\<open>The program.\<close>  The tool tells the library about thread creation, locks and memory accesses of the
  program that it observes.  The library keeps two vector clocks for each thread (\<^verbatim>\<open>viR\<close> for reads,
  \<^verbatim>\<open>viW\<close> for writes) and for each synchronisation object, and for each byte of client memory a shadow
  value: two timestamps, the constraints that a read or a write has to come after.  An access whose
  clock is not above the constraint is reported as a race.  Timestamps are interned in a table with
  reference counts and garbage collection and are named by 32-bit identifiers.  Shadow values are kept
  in compressed form in secondary maps and are accessed through a write-back cache of lines, whose
  values are stored in trees with nodes of 8, 16, 32 and 64 bits.

  \<^bold>\<open>Theories.\<close>  In the order of the layers:
  \<^item> \<open>Hg_Prelude\<close>: types of the C program, \<^verbatim>\<open>tl_assert\<close> (a failed assertion is \<^term>\<open>None\<close>), shared lemmas.
  \<^item> \<open>WordFM\<close>, \<open>WordFM_Iter\<close>: \<^verbatim>\<open>m_wordfm.c\<close>, AVL trees with insertion, removal, search, bounds, iteration
    with its stack of fixed size, copying and freeing; the locale of ordered keys is interpreted for
    unboxed words (\<open>unboxed\<close>), for which the properties are stated, and, in \<open>VtsTable\<close>, for the
    structural order of timestamps.
  \<^item> \<open>VTS\<close>: vector timestamps, \<^verbatim>\<open>VTS__tick\<close>, \<^verbatim>\<open>VTS__join\<close>, \<^verbatim>\<open>VTS__cmp\<close>, \<^verbatim>\<open>VTS__cmp_structural\<close>.
  \<^item> \<open>VtsTable\<close>, \<open>VtsGC\<close>: \<^verbatim>\<open>vts_set\<close>, \<^verbatim>\<open>vts_tab\<close>, the free list, the caches of \<^verbatim>\<open>VtsID__getOrdering\<close> and
    \<^verbatim>\<open>VtsID__join2\<close>, the sweep of the garbage collector.
  \<^item> \<open>SVal\<close>: the encoding of shadow values.  \<open>MSM\<close>: the state machine \<^verbatim>\<open>msm_read\<close>, \<^verbatim>\<open>msm_write\<close>.
  \<^item> \<open>Sync\<close>: threads and synchronisation objects, \<^verbatim>\<open>libhb_create\<close>, \<^verbatim>\<open>libhb_so_*\<close>.
  \<^item> \<open>ShadowTree\<close>, \<open>ShadowLine\<close>: tree descriptors, cache lines, their compressed form.
  \<^item> \<open>ShadowMem\<close>, \<open>ShadowCache\<close>: secondary maps, backing store, write-back, fetch, flush.
  \<^item> \<open>ZsmAccess\<close>, \<open>ZsmApply\<close>: \<^verbatim>\<open>zsm_read8\<close>, \<^verbatim>\<open>zsm_write*\<close>, \<^verbatim>\<open>zsm_apply*\<close>, ranges, \<^verbatim>\<open>zsm_set_range\<close>, \<^verbatim>\<open>zsm_copy_range\<close>.
  \<^item> \<open>LibHB\<close>, \<open>LibHB_API\<close>: the library as a whole: \<^verbatim>\<open>LIBHB_READ_*\<close>, \<^verbatim>\<open>LIBHB_WRITE_*\<close>, \<^verbatim>\<open>libhb_range_*\<close>,
    \<^verbatim>\<open>libhb_copy_shadow_state\<close>, \<^verbatim>\<open>vts_tab__do_GC\<close>, \<^verbatim>\<open>libhb_maybe_GC\<close>.
  \<^item> this theory: properties of sequences of operations.

  \<^bold>\<open>State and operations.\<close>  The static variables of the C program are the fields of the records
  \<open>vts_state\<close> (table, set, caches, free list), \<open>hb_sync\<close> (threads and synchronisation objects by address,
  with the timestamps) and \<open>zsm\<close> (secondary maps, search cache, cache lines and tags, the callbacks for
  reference counts, and the state of the owner of the shadow values, here \<open>hb_sync\<close>).  An operation
  takes the state and returns the new one, or \<^term>\<open>None\<close> when an assertion fails.  Calls of the error
  reporter and of the map of conflicting accesses are events that the state machine returns; a report
  names the thread by its address, where the code passes its \<^verbatim>\<open>opaque\<close> field.  Pointers to timestamps are
  addresses from a counter that are never reused, which differs from \<^verbatim>\<open>HG_(zalloc)\<close> only for stale
  pointers, which the code does not compare.  \<open>libhb_init\<close> is the part of the C function that sets up the
  clocks; \<open>libhb_start\<close> adds \<^verbatim>\<open>zsm_init\<close>.  The two functions for reads and for writes of each size have
  the same text in C but for the call of the state machine: the model has one definition with the
  state machine as an argument, and its two instances.

  \<^bold>\<open>Interfaces.\<close>  \<open>rc_client\<close> (\<open>ShadowCache\<close>) is what the shadow memory asks of the owner of its values:
  callbacks that count references.  \<open>msm_client\<close> (\<open>ZsmApply\<close>) extends it by a state machine, and
  \<open>range_acc\<close> (\<open>ZsmAccess\<close>) is what the walk over a range asks of an accessor; the two clients are
  sublocales of it.  \<open>LibHB\<close> interprets them on \<^verbatim>\<open>SVal__rcinc\<close>, \<^verbatim>\<open>SVal__rcdec\<close>, \<^verbatim>\<open>msm_read\<close> and
  \<^verbatim>\<open>msm_write\<close> (\<open>hb\<close>, \<open>reader\<close>, \<open>writer\<close>).

  \<^bold>\<open>What is proved.\<close>  The finite maps are finite maps, with no assertion failure, and iteration is in
  order up to the exact size at which its stack overflows.  Joins of timestamps are least upper bounds
  and the comparison decides the order of the clocks; interning, the caches and the collector keep
  every timestamp in use.  The state machine reports an access of a race-free history iff it conflicts
  with and is not ordered after an earlier one, and refines a specification on sets of timestamps.
  Creation of threads, sends and receives order exactly what they should, with exact reference counts.
  Splitting, merging, compressing, evicting and fetching lines change no value; an access of any size
  and alignment makes the step of the state machine on each of its bytes and reports exactly the
  racing ones; setting, copying and collecting do what they say.  Every state that a client can reach
  satisfies the invariants.  Three properties show defects of the code, listed as findings: the
  constraint stored after a race under a reader lock, joining into a fresh synchronisation object, and
  the macro \<^verbatim>\<open>LIBHB_WRITE_N\<close>.

  \<^bold>\<open>Bounds.\<close>  Identifiers of timestamps in shadow values have 30 bits, so accesses assume that the table
  stays below \<open>2 ^ 30\<close> entries; clocks of 64 bits and reference counts are assumed not to reach their
  limits, where the C program has no check.  Client addresses are below \<open>2 ^ 47\<close>, as in user space on
  amd64.  The model is that of the 64-bit build with \<^verbatim>\<open>CHECK_ZSM\<close>, \<^verbatim>\<open>CHECK_MSM\<close> and \<^verbatim>\<open>MSM_RACE2ERR\<close> off, as
  in the source.  All loops terminate by structural recursion or a measure but the one of
  \<^verbatim>\<open>zsm_set_range\<close> over whole lines, a partial function that is shown to return.

  \<^bold>\<open>Not modelled.\<close>  The map of conflicting accesses (\<^verbatim>\<open>event_map_*\<close>, reference-counted execution
  contexts), which only serves error messages; statistics, tracing and printing; the alternative state
  machines \<^verbatim>\<open>libhb_msm_uka*.h\<close>, which belong to other tools; the client of the library (\<^verbatim>\<open>hg_main.c\<close> and
  the modules for lost signals, loops, annotations, OpenMP), \<^verbatim>\<open>m_xarray.c\<close> (its arrays are lists), the
  Valgrind core and VEX.
\<close>

section \<open>Properties that span components\<close>

lemma written_clocks:
  assumes z: "libhb_inv z" and ca: "can_access p R W (racy_write W) a (unat len) z"
    and x: "in_range a (unat len) x" "byte_val z x = Clocks r w" "vts_leq w W"
    and s: "zsm_apply_range___msm_write sc p a len z = Some (evs, z1)"
  shows "libhb_inv z1" "byte_val z1 x = Clocks W W" "\<not> race_reported evs x" "same_clocks (zsm_user z) (zsm_user z1)"
    "length (vts_tab (hb_vts (zsm_user z))) + 2 * (unat len + k) \<le> 2 ^ 30 \<Longrightarrow> length (vts_tab (hb_vts (zsm_user z1))) + 2 * k \<le> 2 ^ 30"
  using range_write_spec [OF z ca, of sc] s x by (auto simp: accessed_def)

lemma room_clocks:
  assumes "can_access p R W racy a n z"
  obtains t where "hb_thrs (zsm_user z) p = Some t" "vts_at (hb_vts (zsm_user z)) (viR t) = Some R" "vts_at (hb_vts (zsm_user z)) (viW t) = Some W"
  using assms by (auto simp: can_access_def hb_room_def thr_rep_def)

text \<open>
  C9.  Two writes of the same byte by threads with write clocks \<open>W\<close> and \<open>W'\<close>, the first one
  without a race: the second is reported as a race if and only if the first is not ordered before it,
  that is, \<open>W\<close> is not below \<open>W'\<close>.  The ranges of the two writes may differ.
\<close>

theorem second_write_reported_iff_unordered:
  assumes "libhb_inv z" "can_access p R W (racy_write W) a (unat len) z"
    and "in_range a (unat len) x" "byte_val z x = Clocks r w" "vts_leq w W"
    and "zsm_apply_range___msm_write sc p a len z = Some (evs, z1)"
    and "can_access p' R' W' (racy_write W') b (unat len') z1" "in_range b (unat len') x"
    and "zsm_apply_range___msm_write sc p' b len' z1 = Some (evs', z2)"
  shows "\<not> race_reported evs x \<and> (race_reported evs' x \<longleftrightarrow> \<not> vts_leq W W')"
proof -
  note F = written_clocks [OF assms(1-6)]
  from range_write_spec [OF F(1) assms(7), of sc] assms(8,9) F(2,3) show ?thesis by (auto simp: accessed_def)
qed

theorem second_write_reported_iff_unordered_witness:
  "\<exists>z evs z1 evs' z2. zsm_apply_range___msm_write False 8 0x1000 4 z = Some (evs, z1) \<and> \<not> race_reported evs 0x1000 \<and>
     zsm_apply_range___msm_write False 16 0x1000 1 z1 = Some (evs', z2) \<and> race_reported evs' 0x1000"
proof -
  obtain z where z: "demo (Clocks clk0 clk0) z" using demo_ex by blast
  have ca: "can_access 8 clk8 clk8 (racy_write clk8) 0x1000 (unat (4 :: UWord)) z"
    by (rule demo_access(1) [OF z]) (simp_all add: fit_for_def clks)
  have i: "libhb_inv z" "byte_val z 0x1000 = Clocks clk0 clk0" "hb_room 16 clk16 clk16 8 (zsm_user z)" "in_range 0x1000 (unat (4 :: UWord)) 0x1000"
    using z in_0x1000 [of 8] in_0x1000 [of 4] by (simp_all add: demo_def)
  obtain evs z1 where 1: "zsm_apply_range___msm_write False 8 0x1000 4 z = Some (evs, z1)" using range_write_spec [OF i(1) ca] by blast
  note F = written_clocks [OF i(1) ca i(4,2) clks(4) 1]
  have len: "length (vts_tab (hb_vts (zsm_user z1))) + 2 \<le> 2 ^ 30" using F(5) [of 1] i(3) by (simp add: hb_room_def)
  then have ca': "can_access 16 clk16 clk16 (racy_write clk16) 0x1000 (unat (1 :: UWord)) z1"
    using F(2,4) i(3) by (auto simp: can_access_def hb_room_def thr_rep_def same_clocks_def client_range_def in_range_def unat_eq_0 fit_for_def clks)
  obtain evs' z2 where 2: "zsm_apply_range___msm_write False 16 0x1000 1 z1 = Some (evs', z2)" using range_write_spec [OF F(1) ca'] by blast
  have "in_range 0x1000 (unat (1 :: UWord)) 0x1000" by (simp add: in_range_def)
  from second_write_reported_iff_unordered [OF i(1) ca i(4,2) clks(4) 1 ca' this 2] clks(6) 1 2 show ?thesis by blast
qed

text \<open>
  C10.  A byte protected by a lock.  One thread writes it without a race and releases the lock
  (a strong send on the synchronisation object of the lock); another one acquires the lock (a strong
  receive) and writes the byte: no race is reported for it.
\<close>

theorem lock_handover_no_race:
  assumes "libhb_inv z" "can_access p R W (racy_write W) a (unat len) z"
    and "in_range a (unat len) x" "byte_val z x = Clocks r w" "vts_leq w W"
    and "zsm_apply_range___msm_write sc p a len z = Some (evs, z1)"
    and "on_user (libhb_so_send p q True) z1 = Some z2" "libhb_ready z1"
    and "on_user (libhb_so_recv p' q True) z2 = Some z3" "libhb_ready z2"
    and "can_access p' R' W' (racy_write W') b (unat len') z3" "in_range b (unat len') x"
    and "zsm_apply_range___msm_write sc p' b len' z3 = Some (evs', z4)"
  shows "\<not> race_reported evs' x"
proof -
  note F = written_clocks [OF assms(1-6)]
  obtain t where t: "hb_thrs (zsm_user z1) p = Some t" "vts_at (hb_vts (zsm_user z1)) (viR t) = Some R" "vts_at (hb_vts (zsm_user z1)) (viW t) = Some W"
  proof -
    obtain t where "hb_thrs (zsm_user z) p = Some t" "vts_at (hb_vts (zsm_user z)) (viR t) = Some R" "vts_at (hb_vts (zsm_user z)) (viW t) = Some W"
      using room_clocks [OF assms(2)] .
    then show thesis using F(4) that by (simp add: same_clocks_def)
  qed
  note H1 = libhb_inv_hb(2) [OF F(1)]
  from assms(7) obtain u2 where u2: "libhb_so_send p q True (zsm_user z1) = Some u2" "z2 = z1\<lparr>zsm_user := u2\<rparr>"
    by (auto simp: on_user_def bind_eq_Some_conv)
  then obtain so where so: "hb_sos (zsm_user z1) q = Some so" by (auto simp: libhb_so_send_def bind_eq_Some_conv)
  have r1: "room (hb_vts (zsm_user z1))" "own_clock (zsm_user z1) p \<noteq> - 1" using assms(8) by (auto simp: libhb_ready_def ready_def)
  have tick: "VTS__indexAt_SLOW R p \<noteq> - 1" using r1(2) own_clock_thr [OF t(1,2)] by simp
  from so_send_spec [OF H1 t(1) so t(2,3) tick r1(1), of True] u2(1) obtain so' A where
    2: "hb_inv (shadow_refs (refs {} z1)) u2" "small_step (hb_vts (zsm_user z1)) (hb_vts u2)" "hb_sos u2 q = Some so'"
      "vts_at (hb_vts u2) (so_viR so') = Some A" "vts_at (hb_vts u2) (so_viW so') = Some W"
    by (auto simp: send_clock_def split: option.splits)
  have z2: "libhb_inv z2" "byte_val z2 = byte_val z1" using sync_change [OF F(1) 2(1,2) assms(8)] u2(2) by simp_all
  note H2 = libhb_inv_hb(2) [OF z2(1)]
  from assms(9) obtain u3 where u3: "libhb_so_recv p' q True (zsm_user z2) = Some u3" "z3 = z2\<lparr>zsm_user := u3\<rparr>"
    by (auto simp: on_user_def bind_eq_Some_conv)
  then obtain t' where t': "hb_thrs u2 p' = Some t'" using u2(2) by (auto simp: libhb_so_recv_def bind_eq_Some_conv)
  have H2': "hb_inv (shadow_refs (refs {} z2)) u2" using H2 u2(2) by simp
  from thr_clocks [OF H2' t'] obtain Rc Wc where c: "vts_at (hb_vts u2) (viR t') = Some Rc" "vts_at (hb_vts u2) (viW t') = Some Wc" by metis
  have r2: "room (hb_vts u2)" using assms(10) u2(2) by (simp add: libhb_ready_def ready_def)
  from so_recv_spec [OF H2' t' 2(3) c 2(4,5) r2, of True] u3(1) u2(2) obtain t3 W3 where
    3: "hb_inv (shadow_refs (refs {} z2)) u3" "small_step (hb_vts u2) (hb_vts u3)" "hb_thrs u3 p' = Some t3"
      "vts_at (hb_vts u3) (viW t3) = Some W3" "VTS__join Wc W = Some W3" by auto
  have s3: "small_step (hb_vts (zsm_user z2)) (hb_vts u3)" using 3(2) u2(2) by simp
  have z3: "libhb_inv z3" "byte_val z3 = byte_val z2" using sync_change [OF z2(1) 3(1) s3 assms(10)] u3(2) by simp_all
  have "W' = W3" using room_clocks [OF assms(11)] 3(3,4) u3(2) by fastforce
  moreover have "wf_ts Wc" "wf_ts W" using vts_at_wf [OF hb_inv_vts [OF 2(1)]] c(2) 2(5) by auto
  ultimately have "vts_leq W W'" using join_leq_right [of Wc W W'] 3(5) by simp
  moreover have "byte_val z3 x = Clocks W W" using z3(2) z2(2) F(2) by simp
  ultimately show ?thesis using range_write_spec [OF z3(1) assms(11), of sc] assms(13) by (auto simp: accessed_def)
qed

lemma few_refs_ready:
  assumes z: "libhb_inv z" "dom (hb_thrs (zsm_user z)) = {8, 16}" "dom (hb_sos (zsm_user z)) = {24}"
    and len: "length (vts_tab (hb_vts (zsm_user z))) < 2 ^ 30" and own: "\<And>p. own_clock (zsm_user z) p \<noteq> - 1"
  shows "libhb_ready z"
proof -
  have rc: "uint (vts_rc (hb_vts (zsm_user z)) v) < 2 ^ 62" for v
  proof -
    have "card {8, 16 :: Thr_ptr} = 2" by simp
    then have "msum (thr_refs v) (hb_thrs (zsm_user z)) \<le> 4" using msum_le [of "hb_thrs (zsm_user z)" "thr_refs v"] refs_le_2(1) z(2) by simp
    moreover have "msum (so_refs v) (hb_sos (zsm_user z)) \<le> 2" using msum_le [of "hb_sos (zsm_user z)" "so_refs v"] refs_le_2(2) z(3) by simp
    moreover have "size (refs {} z) \<le> 2 ^ 47" using size_refs [of "{}" z] z(1) hb.zsm_invD(1) [of z] by (simp add: libhb_inv_def hb.counted_def)
    ultimately show ?thesis using hb_inv_rc [OF libhb_inv_hb(2) [OF z(1)], of v] shadow_refs_bounds(2) [of "refs {} z" v] by simp
  qed
  have "uint (vts_rc (hb_vts (zsm_user z)) v) < 2 ^ 63" for v by (rule less_trans [OF rc]) simp
  then show ?thesis using rc len own by (simp add: libhb_ready_def ready_def room_def)
qed

lemma two_clocks:
  assumes "dom (hb_thrs u) = {8, 16}" "hb_thrs u 8 = Some t1" "vts_at (hb_vts u) (viR t1) = Some R1"
    "hb_thrs u 16 = Some t2" "vts_at (hb_vts u) (viR t2) = Some R2" "VTS__indexAt_SLOW R1 8 \<noteq> - 1" "VTS__indexAt_SLOW R2 16 \<noteq> - 1"
  shows "own_clock u p \<noteq> - 1"
proof (cases "hb_thrs u p")
  case None
  then show ?thesis by (simp add: own_clock_def)
next
  case (Some t)
  then have "p = 8 \<or> p = 16" using assms(1) by (metis domI insertE singletonD)
  then show ?thesis using own_clock_thr [OF assms(2,3)] own_clock_thr [OF assms(4,5)] assms(6,7) by auto
qed

theorem lock_handover_no_race_witness:
  "\<exists>z evs z1 z2 z3 evs' z4. zsm_apply_range___msm_write False 8 0x1000 1 z = Some (evs, z1) \<and>
     on_user (libhb_so_send 8 24 True) z1 = Some z2 \<and> on_user (libhb_so_recv 16 24 True) z2 = Some z3 \<and>
     zsm_apply_range___msm_write False 16 0x1000 1 z3 = Some (evs', z4) \<and> \<not> race_reported evs' 0x1000"
proof -
  obtain z where z: "demo (Clocks clk0 clk0) z" using demo_ex by blast
  have ca: "can_access 8 clk8 clk8 (racy_write clk8) 0x1000 (unat (1 :: UWord)) z"
    by (rule demo_access(1) [OF z]) (simp_all add: fit_for_def clks)
  have i: "libhb_inv z" "byte_val z 0x1000 = Clocks clk0 clk0" "in_range 0x1000 (unat (1 :: UWord)) 0x1000"
    using z in_0x1000 [of 8] in_0x1000 [of 1] by (simp_all add: demo_def)
  obtain evs z1 where 1: "zsm_apply_range___msm_write False 8 0x1000 1 z = Some (evs, z1)" using range_write_spec [OF i(1) ca] by blast
  note F = written_clocks [OF i(1) ca i(3,2) clks(4) 1]
  obtain t1 t2 so where t: "hb_thrs (zsm_user z1) 8 = Some t1" "thr_rep (hb_vts (zsm_user z1)) t1 clk8 clk8"
    "hb_thrs (zsm_user z1) 16 = Some t2" "thr_rep (hb_vts (zsm_user z1)) t2 clk16 clk16"
    "hb_sos (zsm_user z1) = [24 \<mapsto> so]" "dom (hb_thrs (zsm_user z1)) = {8, 16}"
    using z F(4) by (auto simp: demo_def hb_room_def same_clocks_def thr_rep_def)
  have len1: "length (vts_tab (hb_vts (zsm_user z1))) + 14 \<le> 2 ^ 30" using F(5) [of 7] z by (simp add: demo_def hb_room_def)
  have c1: "vts_at (hb_vts (zsm_user z1)) (viR t1) = Some clk8" "vts_at (hb_vts (zsm_user z1)) (viW t1) = Some clk8"
    "vts_at (hb_vts (zsm_user z1)) (viR t2) = Some clk16" "vts_at (hb_vts (zsm_user z1)) (viW t2) = Some clk16"
    "opaque t2 \<noteq> 0" using t(2,4) by (simp_all add: thr_rep_def)
  have ix: "VTS__indexAt_SLOW clk8 8 \<noteq> - 1" "VTS__indexAt_SLOW clk16 16 \<noteq> - 1" by (simp_all add: clk8_def clk16_def)
  have r1: "libhb_ready z1"
    using F(1) t(5,6) len1 two_clocks [OF t(6,1) c1(1) t(3) c1(3) ix] by (intro few_refs_ready) auto
  have room1: "room (hb_vts (zsm_user z1))" using r1 by (simp add: libhb_ready_def ready_def)
  have so1: "hb_sos (zsm_user z1) 24 = Some so" using t(5) by simp
  from so_send_spec [OF libhb_inv_hb(2) [OF F(1)] t(1) so1 c1(1,2) ix(1) room1, of True] obtain u2 t1' so' R1 W1 A B where
    2: "libhb_so_send 8 24 True (zsm_user z1) = Some u2" "hb_inv (shadow_refs (refs {} z1)) u2" "small_step (hb_vts (zsm_user z1)) (hb_vts u2)"
      "hb_thrs u2 = (hb_thrs (zsm_user z1))(8 \<mapsto> t1')" "hb_sos u2 = [24 \<mapsto> so']"
      "\<forall>v x. vts_at (hb_vts (zsm_user z1)) v = Some x \<longrightarrow> vts_at (hb_vts u2) v = Some x"
      "vts_at (hb_vts u2) (viR t1') = Some R1" "VTS__tick 8 clk8 = Some R1"
      "vts_at (hb_vts u2) (so_viR so') = Some A" "vts_at (hb_vts u2) (so_viW so') = Some B"
    using t(5) by auto
  let ?z2 = "z1\<lparr>zsm_user := u2\<rparr>"
  have z2: "libhb_inv ?z2" using sync_change(1) [OF F(1) 2(2,3) r1] .
  have "R1 = [\<lparr>thr = 8, tym = 3\<rparr>]" using 2(8) by (simp add: VTS__tick_def clk8_def split: if_splits)
  then have ix2: "VTS__indexAt_SLOW R1 8 \<noteq> - 1" by simp
  have d2: "dom (hb_thrs u2) = {8, 16}" "hb_thrs u2 8 = Some t1'" "hb_thrs u2 16 = Some t2" using 2(4) t(3,6) by auto
  have c2: "vts_at (hb_vts u2) (viR t2) = Some clk16" "vts_at (hb_vts u2) (viW t2) = Some clk16" using 2(6) c1 by blast+
  have len2: "length (vts_tab (hb_vts u2)) + 10 \<le> 2 ^ 30" using 2(3) len1 by (simp add: small_step_def)
  have r2: "libhb_ready ?z2"
    using z2 2(5) d2(1) len2 two_clocks [OF d2(1,2) 2(7) d2(3) c2(1) ix2 ix(2)] by (intro few_refs_ready) auto
  have room2: "room (hb_vts u2)" using r2 by (simp add: libhb_ready_def ready_def)
  have so2: "hb_sos u2 24 = Some so'" using 2(5) by simp
  have H2: "hb_inv (shadow_refs (refs {} ?z2)) u2" using libhb_inv_hb(2) [OF z2] by simp
  from so_recv_spec [OF H2 d2(3) so2 c2 2(9,10) room2, of True] obtain u3 t3 R3 W3 where
    3: "libhb_so_recv 16 24 True u2 = Some u3" "hb_inv (shadow_refs (refs {} ?z2)) u3" "small_step (hb_vts u2) (hb_vts u3)"
      "hb_thrs u3 16 = Some t3" "vts_at (hb_vts u3) (viR t3) = Some R3" "vts_at (hb_vts u3) (viW t3) = Some W3" by auto
  have op: "opaque t3 \<noteq> 0" using 3(1,4) d2(3) so2 c1(5) by (auto simp: libhb_so_recv_def bind_eq_Some_conv split: if_splits)
  let ?z3 = "?z2\<lparr>zsm_user := u3\<rparr>"
  have s3: "small_step (hb_vts (zsm_user ?z2)) (hb_vts u3)" using 3(3) by simp
  have z3: "libhb_inv ?z3" "byte_val ?z3 = byte_val z1"
    using sync_change [OF z2 3(2) s3 r2] sync_change(2) [OF F(1) 2(2,3) r1] by simp_all
  have len3: "length (vts_tab (hb_vts u3)) + 2 \<le> 2 ^ 30" using 3(3) len2 by (simp add: small_step_def)
  have ca3: "can_access 16 R3 W3 (racy_write W3) 0x1000 (unat (1 :: UWord)) ?z3"
    using F(2) z3(2) 3(4-6) op len3
    by (auto simp: can_access_def hb_room_def thr_rep_def client_range_def in_range_def unat_eq_0 fit_for_def clks)
  obtain evs' z4 where 4: "zsm_apply_range___msm_write False 16 0x1000 1 ?z3 = Some (evs', z4)" using range_write_spec [OF z3(1) ca3] by blast
  have s: "on_user (libhb_so_send 8 24 True) z1 = Some ?z2" "on_user (libhb_so_recv 16 24 True) ?z2 = Some ?z3"
    using 2(1) 3(1) by (simp_all add: on_user_def)
  have "in_range 0x1000 (unat (1 :: UWord)) 0x1000" by (simp add: in_range_def)
  from lock_handover_no_race [OF i(1) ca i(3,2) clks(4) 1 s(1) r1 s(2) r2 ca3 this 4] 1 s 4 show ?thesis by blast
qed

end
